(* ===== verification/RH_Prelude.thy ===== *)
theory RH_Prelude
  imports Complex_Main "HOL-Library.Word" "HOL-Library.Multiset" "HOL-Library.Stream"
    "HOL-Library.Signed_Division"
begin

text \<open>
  Shared vocabulary of the development: the machine integers of the C code, the C library's
  \<open>rand()\<close> as an explicit source of 31-bit draws, little-endian byte encodings (the packed
  structs of src/common/include/protocol.h are read and written byte by byte on x86), the decimal
  conversions of \<open>printf\<close>, and the generic list lemmas several components use.
\<close>

unbundle bit_operations_syntax

named_theorems double_eval \<open>rules that compute a correctly rounded double operation\<close>
named_theorems codec \<open>encode/decode equations and lengths of the wire structures\<close>
named_theorems driver_inv \<open>facts about the operations that change one driver record\<close>

section \<open>Machine integers\<close>

type_synonym u8 = "8 word"
type_synonym u16 = "16 word"
type_synonym u32 = "32 word"
type_synonym u64 = "64 word"

text \<open>The ranges of the C types \<open>int\<close> and \<open>long long\<close> (signed overflow is undefined).\<close>

definition int32_range :: "int \<Rightarrow> bool" where
  "int32_range x \<longleftrightarrow> - (2 ^ 31) \<le> x \<and> x < 2 ^ 31"

definition int64_range :: "int \<Rightarrow> bool" where
  "int64_range x \<longleftrightarrow> - (2 ^ 63) \<le> x \<and> x < 2 ^ 63"

text \<open>A \<open>uint32_t\<close> passed where an \<open>int\<close> is expected.\<close>

lemma sint_u32: "sint (w :: u32) = (if uint w < 2 ^ 31 then uint w else uint w - 2 ^ 32)"
proof -
  let ?x = "uint w"
  have u: "?x < 2 ^ 32" "0 \<le> ?x" using uint_lt2p [of w] by simp_all
  have s: "sint w = (?x + 2 ^ 31) mod 2 ^ 32 - 2 ^ 31"
    by (simp add: sint_uint signed_take_bit_eq_take_bit_shift take_bit_eq_mod)
  show ?thesis
  proof (cases "?x < 2 ^ 31")
    case True
    then have "(?x + 2 ^ 31) mod 2 ^ 32 = ?x + 2 ^ 31" using u by (intro mod_pos_pos_trivial) auto
    then show ?thesis using s True by simp
  next
    case False
    have "(?x + 2 ^ 31) mod 2 ^ 32 = (?x + 2 ^ 31 - 2 ^ 32) mod 2 ^ 32" by (rule minus_mod_self2 [symmetric])
    also have "\<dots> = ?x + 2 ^ 31 - 2 ^ 32" using u False by (intro mod_pos_pos_trivial) auto
    finally show ?thesis using s False by simp
  qed
qed

text \<open>C's remainder truncates toward zero; on operands that are not negative it is \<open>mod\<close>.\<close>

lemma smod_nonneg: "0 \<le> (a :: int) \<Longrightarrow> 0 < b \<Longrightarrow> a smod b = a mod b"
  by (cases "a = 0") (simp_all add: smod_int_alt_def)

text \<open>A \<open>char\<close> is signed on x86: a byte from 128 on reads as a negative number.\<close>

definition c_char :: "u8 \<Rightarrow> int" where
  "c_char b = (if unat b < 128 then int (unat b) else int (unat b) - 256)"

section \<open>The C library's random numbers\<close>

text \<open>
  \<open>rand()\<close> returns a value between 0 and \<open>RAND_MAX = 2^31 - 1\<close>. The generator of a process is
  the stream of the values its next calls return; a call yields the head and leaves the tail.
\<close>

type_synonym rng = "31 word stream"

definition c_rand :: "rng \<Rightarrow> int \<times> rng" where
  "c_rand r = (uint (shd r), stl r)"

lemma c_rand_bounds: "fst (c_rand r) \<ge> 0" "fst (c_rand r) < 2 ^ 31"
  using uint_lt2p [of "shd r"] by (simp_all add: c_rand_def)

text \<open>\<open>rand() % n\<close>: the operands are not negative, so C's remainder is \<open>mod\<close>.\<close>

definition rand_mod :: "int \<Rightarrow> rng \<Rightarrow> int \<times> rng" where
  "rand_mod n r = (fst (c_rand r) mod n, snd (c_rand r))"

lemma rand_mod_bounds: "0 < n \<Longrightarrow> 0 \<le> fst (rand_mod n r)" "0 < n \<Longrightarrow> fst (rand_mod n r) < n"
  by (simp_all add: rand_mod_def)

lemma rand_mod_eq: "rand_mod n r = (x, r') \<Longrightarrow> 0 < n \<Longrightarrow> 0 \<le> x \<and> x < n"
  using rand_mod_bounds [of n r] by simp

section \<open>Little-endian integers\<close>

text \<open>\<open>le_encode n v\<close>: the \<open>n\<close> bytes of \<open>v mod 256^n\<close>, least significant first.\<close>

primrec le_encode :: "nat \<Rightarrow> nat \<Rightarrow> u8 list" where
  "le_encode 0 v = []"
| "le_encode (Suc n) v = of_nat (v mod 256) # le_encode n (v div 256)"

primrec le_decode :: "u8 list \<Rightarrow> nat" where
  "le_decode [] = 0"
| "le_decode (b # bs) = unat b + 256 * le_decode bs"

lemma length_le_encode [simp]: "length (le_encode n v) = n"
  by (induction n arbitrary: v) auto

lemma unat_of_nat_u8 [simp]: "unat (of_nat (v mod 256) :: u8) = v mod 256"
  by (simp add: unat_of_nat take_bit_eq_mod)

lemma le_decode_encode: "le_decode (le_encode n v) = v mod 256 ^ n"
proof (induction n arbitrary: v)
  case (Suc n)
  have "v mod 256 ^ Suc n = v mod 256 + 256 * (v div 256 mod 256 ^ n)"
    by (simp add: mod_mult2_eq add.commute)
  with Suc show ?case by simp
qed simp

lemma le_decode_encode_small [codec]: "v < 256 ^ n \<Longrightarrow> le_decode (le_encode n v) = v"
  by (simp add: le_decode_encode)

lemma le_decode_bound: "le_decode bs < 256 ^ length bs"
proof (induction bs)
  case (Cons b bs)
  have "unat b < 256"
    using unsigned_less [of b, where ?'a = nat] by simp
  with Cons show ?case by simp
qed simp

lemma le_encode_decode: "le_encode (length bs) (le_decode bs) = bs"
proof (induction bs)
  case (Cons b bs)
  have "unat b < 256"
    using unsigned_less [of b, where ?'a = nat] by simp
  with Cons show ?case by simp
qed simp

text \<open>A word of \<open>8 * n\<close> bits survives the trip through its \<open>n\<close> bytes.\<close>

lemma of_nat_le_decode_unat [codec]:
  assumes "2 ^ LENGTH('a) = (256::nat) ^ n"
  shows "of_nat (le_decode (le_encode n (unat w))) = (w :: 'a::len word)"
proof -
  have "unat w < 256 ^ n"
    using unsigned_less [of w, where ?'a = nat] assms by simp
  then show ?thesis by (simp add: le_decode_encode_small)
qed

section \<open>Decimal conversions\<close>

text \<open>The digits of \<open>%d\<close>, \<open>%u\<close> and \<open>%lld\<close>.\<close>

definition digit_char :: "nat \<Rightarrow> char" where
  "digit_char d = char_of (48 + d)"

fun show_nat :: "nat \<Rightarrow> string" where
  "show_nat n = (if n < 10 then [digit_char n] else show_nat (n div 10) @ [digit_char (n mod 10)])"

declare show_nat.simps [simp del]

definition show_int :: "int \<Rightarrow> string" where
  "show_int i = (if i < 0 then CHR ''-'' # show_nat (nat (- i)) else show_nat (nat i))"

definition digit_val :: "char \<Rightarrow> nat" where
  "digit_val c = of_char c - 48"

definition parse_nat :: "string \<Rightarrow> nat" where
  "parse_nat = foldl (\<lambda>a c. 10 * a + digit_val c) 0"

lemma of_char_digit [simp]: "d < 10 \<Longrightarrow> of_char (digit_char d) = (48 + d :: nat)"
  by (simp add: digit_char_def)

lemma digit_val_digit_char [simp]: "d < 10 \<Longrightarrow> digit_val (digit_char d) = d"
  by (simp add: digit_val_def)

lemma parse_show_nat: "parse_nat (show_nat n) = n"
proof (induction n rule: show_nat.induct)
  case (1 n)
  then show ?case
    by (subst show_nat.simps) (simp add: parse_nat_def)
qed

lemma show_nat_inject: "show_nat m = show_nat n \<longleftrightarrow> m = n"
  by (metis parse_show_nat)

lemma set_show_nat: "c \<in> set (show_nat n) \<Longrightarrow> \<exists>d < 10. c = digit_char d"
proof (induction n rule: show_nat.induct)
  case (1 n)
  show ?case
  proof (cases "n < 10")
    case True
    with "1.prems" show ?thesis by (auto simp: show_nat.simps [of n])
  next
    case False
    with "1.prems" have "c \<in> set (show_nat (n div 10)) \<or> c = digit_char (n mod 10)"
      by (auto simp: show_nat.simps [of n])
    with False "1.IH" show ?thesis
      using mod_less_divisor [of 10 n] by fastforce
  qed
qed

lemma show_nat_nonempty [simp]: "show_nat n \<noteq> []"
  by (subst show_nat.simps) simp

lemma length_show_nat: "0 < k \<Longrightarrow> n < 10 ^ k \<Longrightarrow> length (show_nat n) \<le> k"
proof (induction k arbitrary: n)
  case (Suc k)
  show ?case
  proof (cases "n < 10")
    case False
    with Suc.prems have "0 < k" "n div 10 < 10 ^ k"
      by (auto simp: less_mult_imp_div_less mult.commute intro: gr0I)
    with Suc.IH have "length (show_nat (n div 10)) \<le> k" by simp
    then show ?thesis by (subst show_nat.simps) simp
  qed (subst show_nat.simps, simp)
qed simp

lemma set_show_int: "c \<in> set (show_int i) \<Longrightarrow> c = CHR ''-'' \<or> (\<exists>d < 10. c = digit_char d)"
  by (auto simp: show_int_def dest: set_show_nat split: if_splits)

lemma hd_show_nat: "hd (show_nat n) \<noteq> CHR ''-''"
proof -
  obtain d where "d < 10" "hd (show_nat n) = digit_char d"
    using set_show_nat [OF hd_in_set [OF show_nat_nonempty [of n]]] by auto
  then have "of_char (hd (show_nat n)) = (48 + d :: nat)" by simp
  then show ?thesis by auto
qed

lemma show_int_inject: "show_int i = show_int j \<longleftrightarrow> i = j"
proof
  assume eq: "show_int i = show_int j"
  have "i < 0 \<longleftrightarrow> j < 0"
    using eq hd_show_nat [of "nat i"] hd_show_nat [of "nat j"]
    by (auto simp: show_int_def split: if_splits dest: sym)
  with eq show "i = j" by (auto simp: show_int_def show_nat_inject split: if_splits)
qed simp

lemma length_show_int: "\<bar>i\<bar> < 10 ^ k \<Longrightarrow> 0 < k \<Longrightarrow> length (show_int i) \<le> Suc k"
  by (auto simp: show_int_def nat_less_iff abs_less_iff intro: length_show_nat le_SucI)

text \<open>\<open>%0kd\<close>: the last \<open>k\<close> decimal digits, zeros in front.\<close>

fun pad_digits :: "nat \<Rightarrow> nat \<Rightarrow> string" where
  "pad_digits 0 n = []"
| "pad_digits (Suc k) n = pad_digits k (n div 10) @ [digit_char (n mod 10)]"

lemma length_pad_digits [simp]: "length (pad_digits k n) = k"
  by (induction k arbitrary: n) auto

text \<open>\<open>%-kd\<close>, \<open>%-ks\<close>: blanks behind, up to \<open>k\<close> characters.\<close>

definition pad_right :: "nat \<Rightarrow> string \<Rightarrow> string" where
  "pad_right k s = s @ replicate (k - length s) CHR '' ''"

lemma length_pad_right [simp]: "length (pad_right k s) = max k (length s)"
  by (simp add: pad_right_def)

text \<open>Bold coloured text of a terminal, with the reset behind it.\<close>

definition coloured :: "string \<Rightarrow> string \<Rightarrow> string" where
  "coloured code s = CHR 0x1B # ''[1;'' @ code @ ''m'' @ s @ CHR 0x1B # ''[0m''"

text \<open>A C string as the bytes before its terminating NUL.\<close>

definition c_bytes :: "string \<Rightarrow> u8 list" where
  "c_bytes s = map of_char s"

lemma length_c_bytes [simp]: "length (c_bytes s) = length s"
  by (simp add: c_bytes_def)

lemma unat_of_char [simp]: "unat (of_char c :: u8) = of_char c"
  by (simp add: of_char_def unat_of_nat)

lemma c_bytes_inject [simp]: "c_bytes s = c_bytes t \<longleftrightarrow> s = t"
proof -
  have "inj (of_char :: char \<Rightarrow> u8)"
    by (rule injI) (metis unat_of_char of_char_eq_iff)
  then show ?thesis by (simp add: c_bytes_def inj_map_eq_map)
qed

section \<open>Generic list lemmas\<close>

lemma list_all_update: "list_all P xs \<Longrightarrow> P x \<Longrightarrow> list_all P (xs[i := x])"
  by (auto simp: list_all_iff dest: set_update_subset_insert [THEN subsetD])

lemma list_all_take: "list_all P xs \<Longrightarrow> list_all P (take n xs)"
  by (auto simp: list_all_iff dest: in_set_takeD)

lemma take_update_append:
  "i < length xs \<Longrightarrow> take (Suc i) (xs[i := x]) = take i xs @ [x]"
  by (simp add: take_Suc_conv_app_nth)

end
