(* ===== verification/Double.thy ===== *)
theory Double
  imports RH_Prelude
begin

text \<open>
  The C type \<open>double\<close>. Every coordinate, rating and distance of the program is a \<open>double\<close>, and the
  map monitor truncates coordinates to grid cells, so the rounding of each operation decides which
  cell a driver is in. A value is a rational number; an operation computes the exact result and
  rounds it to 53 significant bits, to nearest, ties to even (IEEE 754 binary64, the default
  mode). The exponent range is not bounded: no value of the program is below 2^-100 (unless it is
  0) or above 2^20 in magnitude, so overflow, infinities, NaN and subnormals do not arise, and
  the sign of a zero is never looked at.
  The definitions compute: \<open>double_eval\<close> collects the rules that evaluate an operation on
  literals with integer arithmetic only, inside the kernel.
\<close>

section \<open>Integer logarithm\<close>

fun ilog2 :: "nat \<Rightarrow> nat" where
  "ilog2 n = (if n < 2 then 0 else Suc (ilog2 (n div 2)))"

declare ilog2.simps [simp del]

lemma ilog2_bounds: "0 < n \<Longrightarrow> 2 ^ ilog2 n \<le> n \<and> n < 2 ^ Suc (ilog2 n)"
proof (induction n rule: ilog2.induct)
  case (1 n)
  show ?case
  proof (cases "n < 2")
    case True
    with "1.prems" show ?thesis by (simp add: ilog2.simps [of n])
  next
    case False
    with "1.IH" have "2 ^ ilog2 (n div 2) \<le> n div 2" "n div 2 < 2 ^ Suc (ilog2 (n div 2))"
      by auto
    then have "2 * 2 ^ ilog2 (n div 2) \<le> n" "n < 2 * 2 ^ Suc (ilog2 (n div 2))"
      by auto
    with False show ?thesis by (simp add: ilog2.simps [of n])
  qed
qed

lemma ilog2_numeral [double_eval]:
  "ilog2 0 = 0" "ilog2 1 = 0" "ilog2 (Suc 0) = 0"
  "ilog2 (numeral (num.Bit0 k)) = Suc (ilog2 (numeral k))"
  "ilog2 (numeral (num.Bit1 k)) = Suc (ilog2 (numeral k))"
proof -
  have "numeral (num.Bit0 k) div 2 = (numeral k :: nat)"
    "numeral (num.Bit1 k) div 2 = (numeral k :: nat)"
    by simp_all
  then show "ilog2 (numeral (num.Bit0 k)) = Suc (ilog2 (numeral k))"
    "ilog2 (numeral (num.Bit1 k)) = Suc (ilog2 (numeral k))"
    by (simp_all add: ilog2.simps [of "numeral (num.Bit0 k)"] ilog2.simps [of "numeral (num.Bit1 k)"])
qed (simp_all add: ilog2.simps)

lemma ilog2_rat:
  assumes "0 < n"
  shows "2 ^ ilog2 n \<le> (of_nat n :: rat)" "of_nat n + 1 \<le> (2 ^ Suc (ilog2 n) :: rat)"
proof -
  from ilog2_bounds [OF assms] have "2 ^ ilog2 n \<le> n" "Suc n \<le> 2 ^ Suc (ilog2 n)" by auto
  then have "of_nat (2 ^ ilog2 n) \<le> (of_nat n :: rat)" "of_nat (Suc n) \<le> (of_nat (2 ^ Suc (ilog2 n)) :: rat)"
    by (blast intro: of_nat_mono)+
  then show "2 ^ ilog2 n \<le> (of_nat n :: rat)" "of_nat n + 1 \<le> (2 ^ Suc (ilog2 n) :: rat)"
    by (simp_all only: of_nat_power of_nat_numeral of_nat_Suc add.commute)
qed

section \<open>The binary exponent of a positive rational\<close>

definition expo :: "rat \<Rightarrow> int" where
  "expo x = (if 1 \<le> x then int (ilog2 (nat \<lfloor>x\<rfloor>))
             else - int (Suc (ilog2 (nat (\<lceil>1 / x\<rceil> - 1)))))"

lemma expo_bounds:
  assumes "0 < x"
  shows "2 powi expo x \<le> x \<and> x < 2 powi (expo x + 1)"
proof (cases "1 \<le> x")
  case True
  define n where "n = nat \<lfloor>x\<rfloor>"
  have "0 < n" and n: "of_nat n \<le> x" "x < of_nat n + 1"
    using True floor_correct [of x] by (auto simp: n_def le_floor_iff)
  have "2 ^ ilog2 n \<le> (of_nat n :: rat)" "of_nat n + 1 \<le> (2 ^ Suc (ilog2 n) :: rat)"
    by (rule ilog2_rat [OF \<open>0 < n\<close>])+
  then have "2 ^ ilog2 n \<le> x" "x < 2 ^ Suc (ilog2 n)"
    using n by linarith+
  moreover have "expo x = int (ilog2 n)"
    using True by (simp add: expo_def n_def)
  ultimately show ?thesis
    by (simp add: power_int_add)
next
  case False
  define n where "n = nat (\<lceil>1 / x\<rceil> - 1)"
  have "1 < 1 / x" using False assms by simp
  then have "1 < \<lceil>1 / x\<rceil>" by (simp add: less_ceiling_iff)
  then have "int n = \<lceil>1 / x\<rceil> - 1"
    unfolding n_def by (intro nat_0_le) linarith
  with \<open>1 < \<lceil>1 / x\<rceil>\<close> have "0 < n" and "\<lceil>1 / x\<rceil> = int n + 1"
    by linarith+
  then have nc: "of_int \<lceil>1 / x\<rceil> = (of_nat n + 1 :: rat)"
    by simp
  have n: "of_nat n < 1 / x" "1 / x \<le> of_nat n + 1"
    using nc ceiling_correct [of "1 / x"] by linarith+
  have "2 ^ ilog2 n \<le> (of_nat n :: rat)" "of_nat n + 1 \<le> (2 ^ Suc (ilog2 n) :: rat)"
    by (rule ilog2_rat [OF \<open>0 < n\<close>])+
  then have "2 ^ ilog2 n < 1 / x" "1 / x \<le> 2 ^ Suc (ilog2 n)"
    using n by linarith+
  then have "x < 1 / 2 ^ ilog2 n" "1 / 2 ^ Suc (ilog2 n) \<le> x"
    using assms by (auto simp: field_simps)
  moreover have e: "expo x = - int (Suc (ilog2 n))"
    using False by (simp add: expo_def n_def)
  have "(2::rat) powi expo x = 1 / 2 ^ Suc (ilog2 n)" "(2::rat) powi (expo x + 1) = 1 / 2 ^ ilog2 n"
    by (simp_all only: e power_int_minus power_int_of_nat inverse_eq_divide) (simp add: power_int_minus divide_inverse)
  ultimately show ?thesis by simp
qed

lemma powi2_mono: "i \<le> j \<Longrightarrow> 2 powi i \<le> (2 powi j :: rat)"
  by (rule power_int_increasing) auto

lemma powi2_less_cancel: "2 powi i < (2 powi j :: rat) \<Longrightarrow> i < j"
  using powi2_mono [of j i] by (meson not_le)

lemma expo_unique:
  assumes "2 powi k \<le> x" "x < 2 powi (k + 1)"
  shows "expo x = k"
proof -
  have "0 < x" using assms(1) by (meson less_le_trans zero_less_numeral zero_less_power_int)
  from expo_bounds [OF this] assms have "2 powi expo x < (2 powi (k + 1) :: rat)"
    "2 powi k < (2 powi (expo x + 1) :: rat)" by linarith+
  then have "expo x < k + 1" "k < expo x + 1" by (blast dest: powi2_less_cancel)+
  then show ?thesis by linarith
qed

lemma expo_mono:
  assumes "0 < x" "x \<le> y" shows "expo x \<le> expo y"
proof -
  have "2 powi expo x < (2 powi (expo y + 1) :: rat)"
    using assms expo_bounds [of x] expo_bounds [of y] by linarith
  then have "expo x < expo y + 1" by (rule powi2_less_cancel)
  then show ?thesis by linarith
qed

section \<open>Rounding to an integer, ties to even\<close>

definition rne :: "rat \<Rightarrow> int" where
  "rne y = (let f = \<lfloor>y\<rfloor>; r = y - of_int f
            in if r < 1 / 2 then f else if 1 / 2 < r then f + 1 else if even f then f else f + 1)"

lemma rne_error: "\<bar>of_int (rne y) - y\<bar> \<le> 1 / 2"
  using floor_correct [of y] by (auto simp: rne_def Let_def)

lemma rne_of_int [simp]: "rne (of_int k) = k"
  by (simp add: rne_def)

lemma rne_cases: "rne y = \<lfloor>y\<rfloor> \<or> rne y = \<lfloor>y\<rfloor> + 1"
  by (auto simp: rne_def Let_def)

lemma rne_mono:
  assumes "x \<le> y" shows "rne x \<le> rne y"
proof (cases "\<lfloor>x\<rfloor> = \<lfloor>y\<rfloor>")
  case True
  with assms show ?thesis by (auto simp: rne_def Let_def)
next
  case False
  with floor_mono [OF assms] have "\<lfloor>x\<rfloor> + 1 \<le> \<lfloor>y\<rfloor>" by linarith
  with rne_cases [of x] rne_cases [of y] show ?thesis by linarith
qed

lemma rne_minus: "rne (- y) = - rne y"
proof (cases "y = of_int \<lfloor>y\<rfloor>")
  case True
  then show ?thesis by (metis of_int_minus rne_of_int)
next
  case False
  then have c: "\<lceil>y\<rceil> = \<lfloor>y\<rfloor> + 1" by (simp add: ceiling_altdef)
  have "\<lfloor>- y\<rfloor> = - \<lfloor>y\<rfloor> - 1" using c by (simp add: floor_minus)
  moreover have "y - of_int \<lfloor>y\<rfloor> = r \<Longrightarrow> - y - of_int (- \<lfloor>y\<rfloor> - 1) = 1 - r" for r by simp
  ultimately show ?thesis by (auto simp: rne_def Let_def)
qed

section \<open>Rounding to 53 bits\<close>

definition rnd :: "rat \<Rightarrow> rat" where
  "rnd x = (if x = 0 then 0
            else let e = expo \<bar>x\<bar> - 52 in of_int (rne (x * 2 powi (- e))) * 2 powi e)"

lemma rnd_0 [simp, double_eval]: "rnd 0 = 0"
  by (simp add: rnd_def)

lemma rnd_minus [double_eval]: "rnd (- x) = - rnd x"
  by (simp add: rnd_def Let_def rne_minus)

text \<open>The error of one rounding is at most half a unit in the last place.\<close>

lemma rnd_error: "\<bar>rnd x - x\<bar> \<le> \<bar>x\<bar> / 2 ^ 53"
proof (cases "x = 0")
  case False
  define e where "e = expo \<bar>x\<bar> - 52"
  let ?y = "x * 2 powi (- e)"
  have p: "(2::rat) powi (- e) * 2 powi e = 1"
    by (simp add: power_int_minus)
  have "rnd x - x = (of_int (rne ?y) - ?y) * 2 powi e"
    using False p by (simp add: rnd_def Let_def e_def [symmetric] algebra_simps)
  then have "\<bar>rnd x - x\<bar> = \<bar>of_int (rne ?y) - ?y\<bar> * 2 powi e"
    by (simp add: abs_mult)
  also have "\<dots> \<le> 1 / 2 * 2 powi e"
    by (intro mult_right_mono rne_error) simp
  also have "\<dots> = 2 powi expo \<bar>x\<bar> / 2 ^ 53"
    by (simp add: e_def power_int_diff)
  also have "\<dots> \<le> \<bar>x\<bar> / 2 ^ 53"
    using expo_bounds [of "\<bar>x\<bar>"] False by (simp add: divide_right_mono)
  finally show ?thesis .
qed simp

lemma rnd_bounds_pos:
  assumes "0 < x"
  shows "2 powi expo x \<le> rnd x" "rnd x \<le> 2 powi (expo x + 1)"
proof -
  define e where "e = expo x - 52"
  have p: "(2::rat) powi (- e) * 2 powi e = 1" "0 < (2::rat) powi e"
    by (simp_all add: power_int_minus)
  have "2 powi expo x * 2 powi (- e) = (of_int (2 ^ 52) :: rat)"
    "2 powi (expo x + 1) * 2 powi (- e) = (of_int (2 ^ 53) :: rat)"
    by (simp_all add: e_def flip: power_int_add)
  moreover have "2 powi expo x * 2 powi (- e) \<le> x * 2 powi (- e)"
    "x * 2 powi (- e) \<le> 2 powi (expo x + 1) * 2 powi (- e)"
    using expo_bounds [OF assms] by (auto intro!: mult_right_mono)
  ultimately have "rne (of_int (2 ^ 52)) \<le> rne (x * 2 powi (- e))"
    "rne (x * 2 powi (- e)) \<le> rne (of_int (2 ^ 53))"
    by (metis rne_mono)+
  then have b: "2 ^ 52 \<le> rne (x * 2 powi (- e))" "rne (x * 2 powi (- e)) \<le> 2 ^ 53"
    by (simp_all only: rne_of_int)
  have r: "rnd x = of_int (rne (x * 2 powi (- e))) * 2 powi e"
    using assms by (simp add: rnd_def e_def)
  have "(of_int (2 ^ 52) :: rat) \<le> of_int (rne (x * 2 powi (- e)))"
    "of_int (rne (x * 2 powi (- e))) \<le> (of_int (2 ^ 53) :: rat)"
    using b by (simp_all only: of_int_le_iff)
  then have "of_int (2 ^ 52) * 2 powi e \<le> rnd x" "rnd x \<le> of_int (2 ^ 53) * 2 powi e"
    unfolding r using p by (auto intro!: mult_right_mono)
  then show "2 powi expo x \<le> rnd x" "rnd x \<le> 2 powi (expo x + 1)"
    by (simp_all add: e_def power_int_diff power_int_add)
qed

lemma rnd_pos: "0 < x \<Longrightarrow> 0 < rnd x"
  by (meson less_le_trans rnd_bounds_pos(1) zero_less_numeral zero_less_power_int)

lemma rnd_nonneg: "0 \<le> x \<Longrightarrow> 0 \<le> rnd x"
  using rnd_pos [of x] by (cases "x = 0") auto

lemma rnd_mono_pos:
  assumes "0 < x" "x \<le> y" shows "rnd x \<le> rnd y"
proof (cases "expo x = expo y")
  case True
  have "rne (x * 2 powi (52 - expo x)) \<le> rne (y * 2 powi (52 - expo x))"
    using assms by (intro rne_mono mult_right_mono) auto
  then show ?thesis
    using assms True by (auto simp: rnd_def intro!: mult_right_mono)
next
  case False
  then have "expo x + 1 \<le> expo y"
    using expo_mono [OF assms] by linarith
  then have "2 powi (expo x + 1) \<le> (2 powi expo y :: rat)" by (rule powi2_mono)
  then show ?thesis
    using rnd_bounds_pos(2) [OF assms(1)] rnd_bounds_pos(1) [of y] assms by linarith
qed

lemma rnd_mono:
  assumes "x \<le> y" shows "rnd x \<le> rnd y"
proof (cases "0 < x")
  case True
  then show ?thesis using assms by (rule rnd_mono_pos)
next
  case False
  show ?thesis
  proof (cases "0 \<le> y")
    case True
    with False have "rnd x \<le> 0" "0 \<le> rnd y"
      using rnd_nonneg [of "- x"] rnd_nonneg [of y] by (auto simp: rnd_minus)
    then show ?thesis by linarith
  next
    case False
    then have "rnd (- y) \<le> rnd (- x)" using assms by (intro rnd_mono_pos) auto
    then show ?thesis by (simp add: rnd_minus)
  qed
qed

text \<open>A rounded value is a fixed point: rounding is the projection onto the doubles.\<close>

lemma rnd_idem_pos:
  assumes "0 < x" shows "rnd (rnd x) = rnd x"
proof -
  define e where "e = expo x - 52"
  define m where "m = rne (x * 2 powi (- e))"
  have r: "rnd x = of_int m * 2 powi e"
    using assms by (simp add: rnd_def e_def m_def)
  have pos: "0 < rnd x" by (rule rnd_pos [OF assms])
  have scaled: "rnd (rnd x) = rnd x" if "rnd x * 2 powi (52 - expo (rnd x)) = of_int k" for k
  proof -
    have "rnd (rnd x) = of_int k * 2 powi (expo (rnd x) - 52)"
      using pos that by (simp add: rnd_def [of "rnd x"])
    also have "\<dots> = rnd x * (2 powi (52 - expo (rnd x)) * 2 powi (expo (rnd x) - 52))"
      using that by simp
    also have "\<dots> = rnd x" by (simp flip: power_int_add)
    finally show ?thesis .
  qed
  show ?thesis
  proof (cases "rnd x = 2 powi (expo x + 1)")
    case True
    then have "expo (rnd x) = expo x + 1"
      by (intro expo_unique) (auto simp: power_int_add)
    with True have "rnd x * 2 powi (52 - expo (rnd x)) = of_int (2 ^ 52)"
      by (simp flip: power_int_add)
    then show ?thesis by (rule scaled)
  next
    case False
    then have "expo (rnd x) = expo x"
      using rnd_bounds_pos [OF assms] by (intro expo_unique) auto
    then have "rnd x * 2 powi (52 - expo (rnd x)) = of_int m"
      by (simp add: r e_def mult.assoc flip: power_int_add)
    then show ?thesis by (rule scaled)
  qed
qed

lemma rnd_idem [simp]: "rnd (rnd x) = rnd x"
  using rnd_idem_pos [of x] rnd_idem_pos [of "- x"]
  by (cases x "0 :: rat" rule: linorder_cases) (auto simp: rnd_minus)

section \<open>Square root\<close>

text \<open>The integer square root, one binary digit of the result per step.\<close>

definition isqrt_step :: "nat \<Rightarrow> nat \<Rightarrow> nat" where
  "isqrt_step n r = (if Suc r * Suc r \<le> n then Suc r else r)"

fun isqrt :: "nat \<Rightarrow> nat" where
  "isqrt n = (if n = 0 then 0 else isqrt_step n (2 * isqrt (n div 4)))"

declare isqrt.simps [simp del]

lemma isqrt_bounds: "isqrt n * isqrt n \<le> n \<and> n < Suc (isqrt n) * Suc (isqrt n)"
proof (induction n rule: isqrt.induct)
  case (1 n)
  show ?case
  proof (cases "n = 0")
    case False
    define r where "r = isqrt (n div 4)"
    have "r * r \<le> n div 4" "n div 4 < Suc r * Suc r"
      using "1.IH" False by (simp_all add: r_def)
    then have "4 * (r * r) \<le> n" "n < 4 * (Suc r * Suc r)" by linarith+
    then have "(2 * r) * (2 * r) \<le> n" "n < Suc (Suc (2 * r)) * Suc (Suc (2 * r))"
      by (simp_all add: algebra_simps)
    with False show ?thesis
      by (simp add: isqrt.simps [of n] isqrt_step_def r_def [symmetric])
  qed (simp add: isqrt.simps)
qed

lemma isqrt_ge: "m * m \<le> n \<Longrightarrow> m \<le> isqrt n"
  using isqrt_bounds [of n] by (meson le_less_trans mult_le_mono not_less_eq_eq not_le)

text \<open>
  \<open>sqrt\<close> scales the argument so that the integer square root has at least 54 bits, marks an
  inexact root by a sticky bit below them, and rounds.
\<close>

definition sqrt_scale :: "rat \<Rightarrow> int" where
  "sqrt_scale x = 54 - expo x div 2"

definition fsqrt :: "rat \<Rightarrow> rat" where
  "fsqrt x = (if x \<le> 0 then 0
              else let k = sqrt_scale x; y = x * 4 powi k; s = isqrt (nat \<lfloor>y\<rfloor>)
                   in rnd ((2 * of_nat s + (if of_nat (s * s) = y then 0 else 1)) * 2 powi (- k - 1)))"

lemma fsqrt_nonneg: "0 \<le> fsqrt x"
  by (auto simp: fsqrt_def Let_def intro!: rnd_nonneg mult_nonneg_nonneg)

text \<open>
  The value before the final rounding brackets the real root: its square is at most a relative
  2^-53 away from the argument on either side.
\<close>

lemma isqrt_rat:
  fixes y :: rat
  assumes "0 \<le> y"
  defines "s \<equiv> isqrt (nat \<lfloor>y\<rfloor>)"
  shows "of_nat s * of_nat s \<le> y" "y < (of_nat s + 1) * (of_nat s + 1)"
proof -
  define n where "n = nat \<lfloor>y\<rfloor>"
  have n: "of_nat n \<le> y" "y < of_nat n + 1"
    using assms floor_correct [of y] by (auto simp: n_def)
  have "s * s \<le> n" "Suc n \<le> Suc s * Suc s"
    using isqrt_bounds [of n] by (auto simp: s_def n_def)
  then have "of_nat (s * s) \<le> (of_nat n :: rat)" "of_nat (Suc n) \<le> (of_nat (Suc s * Suc s) :: rat)"
    by (blast intro: of_nat_mono)+
  then have "of_nat s * of_nat s \<le> (of_nat n :: rat)"
    "of_nat n + 1 \<le> ((of_nat s + 1) * (of_nat s + 1) :: rat)"
    by (simp_all only: of_nat_mult of_nat_Suc add.commute)
  with n show "of_nat s * of_nat s \<le> y" "y < (of_nat s + 1) * (of_nat s + 1)"
    by linarith+
qed

lemma square_less_cancel: "0 \<le> b \<Longrightarrow> a * a < b * b \<Longrightarrow> a < (b :: rat)"
  by (meson mult_mono not_less order_trans)

lemma square_le_cancel: "0 \<le> b \<Longrightarrow> a * a \<le> b * b \<Longrightarrow> a \<le> (b :: rat)"
  by (meson mult_strict_mono' not_le)

lemma powi_4: "(4::rat) powi k = 2 powi k * 2 powi k"
proof -
  have "(4::rat) powi k = (2 * 2) powi k" by simp
  then show ?thesis by (simp only: power_int_mult_distrib)
qed

lemma power_int_double: "(2::rat) powi (2 * k) = 2 powi k * 2 powi k"
  unfolding mult_2 by (rule power_int_add) simp

lemma fsqrt_bracket:
  assumes "0 < x"
  obtains lo hi t where "0 < lo" "lo * lo \<le> x" "x < hi * hi" "lo \<le> t" "t \<le> hi"
    "hi \<le> lo * (1 + 1 / 2 ^ 54)" "fsqrt x = rnd t"
proof -
  define k where "k = sqrt_scale x"
  define y where "y = x * 4 powi k"
  define s where "s = isqrt (nat \<lfloor>y\<rfloor>)"
  define u where "u = (2::rat) powi k"
  define t where "t = (2 * of_nat s + (if of_nat (s * s) = y then 0 else 1)) * (2::rat) powi (- k - 1)"
  have u: "0 < u" and y: "y = x * (u * u)" and y0: "0 < y"
    using assms by (simp_all add: u_def y_def powi_4)
  have s: "of_nat s * of_nat s \<le> y" "y < (of_nat s + 1) * (of_nat s + 1)"
    unfolding s_def using y0 by (auto intro: isqrt_rat)
  define B :: nat where "B = 2 ^ 54"
  have "of_nat (B * B) = (2 powi 108 :: rat)" by (simp add: B_def)
  also have "\<dots> \<le> 2 powi (expo x + 2 * k)"
    by (rule powi2_mono) (simp add: k_def sqrt_scale_def)
  also have "\<dots> = 2 powi expo x * (u * u)"
    by (subst power_int_add) (simp_all add: u_def power_int_double)
  also have "\<dots> \<le> x * (u * u)"
    by (rule mult_right_mono [OF conjunct1 [OF expo_bounds [OF assms]]]) (simp add: u_def)
  finally have "of_nat (B * B) \<le> y" by (simp only: y)
  then have "B * B \<le> nat \<lfloor>y\<rfloor>"
    using y0 by (simp only: le_nat_iff le_floor_iff zero_le_floor less_imp_le of_int_of_nat_eq)
  then have "B \<le> s" unfolding s_def by (rule isqrt_ge)
  then have "of_nat B \<le> (of_nat s :: rat)" by (rule of_nat_mono)
  then have s54: "2 ^ 54 \<le> (of_nat s :: rat)" by (simp only: B_def of_nat_power of_nat_numeral)
  have t: "t = (of_nat s + (if of_nat (s * s) = y then 0 else 1 / 2)) / u"
    by (simp add: t_def u_def power_int_diff power_int_minus field_simps)
  have f: "fsqrt x = rnd t"
    using assms by (simp add: fsqrt_def Let_def t_def k_def s_def y_def)
  have lo: "of_nat s / u * (of_nat s / u) \<le> x"
    using s(1) u by (simp add: y field_simps)
  have hi: "x < (of_nat s + 1) / u * ((of_nat s + 1) / u)"
    using s(2) u by (simp add: y field_simps)
  have pos: "0 < of_nat s / u"
    by (rule divide_pos_pos [OF less_le_trans [OF _ s54] u]) simp
  have t1: "of_nat s / u \<le> t" and t2: "t \<le> (of_nat s + 1) / u"
    unfolding t by (rule divide_right_mono [OF _ less_imp_le [OF u]], simp)+
  have "of_nat s + 1 \<le> of_nat s + of_nat s / (2 ^ 54 :: rat)"
    using divide_right_mono [OF s54, of "2 ^ 54"] by simp
  also have "\<dots> = of_nat s * (1 + 1 / 2 ^ 54)" by (simp only: distrib_left) simp
  finally have "(of_nat s + 1) / u \<le> of_nat s * (1 + 1 / 2 ^ 54) / u"
    by (rule divide_right_mono [OF _ less_imp_le [OF u]])
  then have w: "(of_nat s + 1) / u \<le> of_nat s / u * (1 + 1 / 2 ^ 54)"
    by (simp only: times_divide_eq_left)
  show thesis by (rule that [OF pos lo hi t1 t2 w f])
qed

lemma rnd_upper: "0 \<le> x \<Longrightarrow> rnd x \<le> x * (1 + 1 / 2 ^ 53)"
proof -
  assume "0 \<le> x"
  then have "rnd x - x \<le> x / 2 ^ 53"
    using rnd_error [of x] by (metis abs_ge_self abs_of_nonneg order_trans)
  moreover have "x * (1 + 1 / 2 ^ 53) = x + x / 2 ^ 53" by (simp only: distrib_left) simp
  ultimately show ?thesis by linarith
qed

lemma rnd_lower: "0 \<le> x \<Longrightarrow> x * (1 - 1 / 2 ^ 53) \<le> rnd x"
proof -
  assume "0 \<le> x"
  then have "x - rnd x \<le> x / 2 ^ 53"
    using rnd_error [of x] by (metis abs_ge_self abs_minus_commute abs_of_nonneg order_trans)
  moreover have "x * (1 - 1 / 2 ^ 53) = x - x / 2 ^ 53" by (simp only: right_diff_distrib) simp
  ultimately show ?thesis by linarith
qed

lemma fsqrt_upper:
  assumes "0 \<le> c" "x \<le> c * c"
  shows "fsqrt x \<le> c * (1 + 1 / 2 ^ 52)"
proof (cases "0 < x")
  case True
  then obtain lo hi t where lo: "0 < lo" "lo * lo \<le> x" and "x < hi * hi"
    and t: "lo \<le> t" "t \<le> hi" and hi: "hi \<le> lo * (1 + 1 / 2 ^ 54)" and f: "fsqrt x = rnd t"
    by (rule fsqrt_bracket)
  have "lo \<le> c" by (rule square_le_cancel [OF assms(1) order_trans [OF lo(2) assms(2)]])
  have "rnd t \<le> t * (1 + 1 / 2 ^ 53)"
    by (rule rnd_upper) (rule order_trans [OF less_imp_le [OF lo(1)] t(1)])
  also have "\<dots> \<le> lo * (1 + 1 / 2 ^ 54) * (1 + 1 / 2 ^ 53)"
    by (rule mult_right_mono [OF order_trans [OF t(2) hi]]) simp
  also have "\<dots> \<le> c * (1 + 1 / 2 ^ 54) * (1 + 1 / 2 ^ 53)"
    by (intro mult_right_mono [OF mult_right_mono [OF \<open>lo \<le> c\<close>]]) simp_all
  also have "\<dots> = c * ((1 + 1 / 2 ^ 54) * (1 + 1 / 2 ^ 53))" by (rule mult.assoc)
  also have "\<dots> \<le> c * (1 + 1 / 2 ^ 52)"
    by (rule mult_left_mono [OF _ assms(1)]) simp
  finally show ?thesis by (simp only: f)
qed (use assms in \<open>simp add: fsqrt_def\<close>)

lemma fsqrt_lower:
  assumes "0 \<le> c" "c * c \<le> x"
  shows "c * (1 - 1 / 2 ^ 52) \<le> fsqrt x"
proof (cases "0 < x")
  case True
  then obtain lo hi t where lo: "0 < lo" "lo * lo \<le> x" and "x < hi * hi"
    and t: "lo \<le> t" "t \<le> hi" and hi: "hi \<le> lo * (1 + 1 / 2 ^ 54)" and f: "fsqrt x = rnd t"
    by (rule fsqrt_bracket)
  have "0 \<le> hi" by (rule order_trans [OF less_imp_le [OF lo(1)] order_trans [OF t]])
  then have "c \<le> hi"
    by (rule square_le_cancel) (rule order_trans [OF assms(2) less_imp_le [OF \<open>x < hi * hi\<close>]])
  then have "c \<le> lo * (1 + 1 / 2 ^ 54)" by (rule order_trans [OF _ hi])
  then have "c * (1 - 1 / 2 ^ 52) \<le> lo * (1 + 1 / 2 ^ 54) * (1 - 1 / 2 ^ 52)"
    by (rule mult_right_mono) simp
  also have "\<dots> = lo * ((1 + 1 / 2 ^ 54) * (1 - 1 / 2 ^ 52))" by (rule mult.assoc)
  also have "\<dots> \<le> lo * (1 - 1 / 2 ^ 53)"
    by (rule mult_left_mono [OF _ less_imp_le [OF lo(1)]]) simp
  also have "\<dots> \<le> t * (1 - 1 / 2 ^ 53)"
    by (rule mult_right_mono [OF t(1)]) simp
  also have "\<dots> \<le> rnd t"
    by (rule rnd_lower) (rule order_trans [OF less_imp_le [OF lo(1)] t(1)])
  finally show ?thesis by (simp only: f)
next
  case False
  with assms have "c * c \<le> 0" by linarith
  with assms(1) have "c = 0" by (simp add: mult_le_0_iff)
  then show ?thesis by (simp add: fsqrt_nonneg)
qed

section \<open>The type double\<close>

datatype double = Dbl (rat_of: rat)

instantiation double :: linorder
begin

definition less_eq_double :: "double \<Rightarrow> double \<Rightarrow> bool" where
  "less_eq_double x y \<longleftrightarrow> rat_of x \<le> rat_of y"

definition less_double :: "double \<Rightarrow> double \<Rightarrow> bool" where
  "less_double x y \<longleftrightarrow> rat_of x < rat_of y"

instance
  by standard (auto simp: less_eq_double_def less_double_def double.expand)

end

instantiation double :: "{zero, plus, minus, times, inverse}"
begin

definition zero_double :: double where
  "zero_double = Dbl 0"

definition plus_double :: "double \<Rightarrow> double \<Rightarrow> double" where
  "plus_double x y = Dbl (rnd (rat_of x + rat_of y))"

definition minus_double :: "double \<Rightarrow> double \<Rightarrow> double" where
  "minus_double x y = Dbl (rnd (rat_of x - rat_of y))"

definition times_double :: "double \<Rightarrow> double \<Rightarrow> double" where
  "times_double x y = Dbl (rnd (rat_of x * rat_of y))"

definition divide_double :: "double \<Rightarrow> double \<Rightarrow> double" where
  "divide_double x y = Dbl (rnd (rat_of x / rat_of y))"

definition inverse_double :: "double \<Rightarrow> double" where
  "inverse_double x = Dbl (rnd (1 / rat_of x))"

instance ..

end

text \<open>
  A decimal literal is rounded by the compiler, an \<open>int\<close> operand is converted (exactly up to
  2^53, rounded beyond), \<open>(int)x\<close> truncates toward zero, \<open>pow(x, 2)\<close> is the rounded square and
  \<open>sqrt\<close> the rounded root.
\<close>

definition d_lit :: "rat \<Rightarrow> double" where
  "d_lit x = Dbl (rnd x)"

definition d_of_int :: "int \<Rightarrow> double" where
  "d_of_int i = Dbl (rnd (of_int i))"

definition d_trunc :: "double \<Rightarrow> int" where
  "d_trunc x = (if 0 \<le> rat_of x then \<lfloor>rat_of x\<rfloor> else \<lceil>rat_of x\<rceil>)"

definition d_pow2 :: "double \<Rightarrow> double" where
  "d_pow2 x = x * x"

definition d_sqrt :: "double \<Rightarrow> double" where
  "d_sqrt x = Dbl (fsqrt (rat_of x))"

lemma rat_of_ops [simp]:
  "rat_of 0 = 0" "rat_of (x + y) = rnd (rat_of x + rat_of y)"
  "rat_of (x - y) = rnd (rat_of x - rat_of y)" "rat_of (x * y) = rnd (rat_of x * rat_of y)"
  "rat_of (x / y) = rnd (rat_of x / rat_of y)" "rat_of (d_lit r) = rnd r"
  "rat_of (d_of_int i) = rnd (of_int i)" "rat_of (d_pow2 x) = rnd (rat_of x * rat_of x)"
  "rat_of (d_sqrt x) = fsqrt (rat_of x)"
  by (simp_all add: zero_double_def plus_double_def minus_double_def times_double_def
      divide_double_def d_lit_def d_of_int_def d_pow2_def d_sqrt_def)

text \<open>Subtracting a value from itself gives exactly 0.\<close>

lemma double_diff_self [simp]: "x - x = (0 :: double)"
  by (simp add: minus_double_def zero_double_def)

lemma d_trunc_0 [simp]: "d_trunc 0 = 0" "d_trunc (0 * x) = 0"
  by (simp_all add: d_trunc_def)

section \<open>Evaluation on literals\<close>

text \<open>
  On a fraction of two positive integers the exponent and the rounding are integer operations.
\<close>

definition expoq :: "int \<Rightarrow> int \<Rightarrow> int" where
  "expoq p q = (if q \<le> p then int (ilog2 (nat (p div q)))
                else - int (Suc (ilog2 (nat ((q - 1) div p)))))"

definition rneq :: "int \<Rightarrow> int \<Rightarrow> int" where
  "rneq p q = (let f = p div q; r = p - f * q
               in if 2 * r < q then f else if q < 2 * r then f + 1 else if even f then f else f + 1)"

definition rndq :: "int \<Rightarrow> int \<Rightarrow> rat" where
  "rndq p q = (let e = expoq p q - 52
               in if e \<le> 0 then of_int (rneq (p * 2 ^ nat (- e)) q) / 2 ^ nat (- e)
                  else of_int (rneq p (q * 2 ^ nat e)) * 2 ^ nat e)"

lemma floor_quotient: "\<lfloor>of_int p / of_int q :: rat\<rfloor> = p div q"
  by (rule floor_divide_of_int_eq)

lemma ceiling_quotient:
  assumes "0 < (p :: int)"
  shows "\<lceil>of_int q / of_int p :: rat\<rceil> - 1 = (q - 1) div p"
proof -
  define m where "m = (q - 1) div p"
  have "m * p + (q - 1) mod p = q - 1" unfolding m_def by (rule div_mult_mod_eq)
  moreover have "0 \<le> (q - 1) mod p" "(q - 1) mod p < p" using assms by simp_all
  moreover have "(m + 1) * p = m * p + p" by (simp add: distrib_right)
  ultimately have "m * p < q" "q \<le> (m + 1) * p" by linarith+
  then have "of_int (m * p) < (of_int q :: rat)" "of_int q \<le> (of_int ((m + 1) * p) :: rat)"
    by (simp_all only: of_int_less_iff of_int_le_iff)
  then have "of_int (m + 1) - 1 < (of_int q / of_int p :: rat)" "of_int q / of_int p \<le> (of_int (m + 1) :: rat)"
    using assms by (simp_all add: field_simps)
  then have "\<lceil>of_int q / of_int p :: rat\<rceil> = m + 1" by (rule ceiling_unique)
  then show ?thesis by (simp add: m_def)
qed

lemma expo_quotient:
  assumes "0 < p" "0 < q" shows "expo (of_int p / of_int q) = expoq p q"
proof -
  have "1 / (of_int p / of_int q) = (of_int q / of_int p :: rat)" by simp
  moreover have "1 \<le> (of_int p / of_int q :: rat) \<longleftrightarrow> q \<le> p"
    using assms by (simp add: le_divide_eq)
  ultimately show ?thesis
    by (simp only: expo_def expoq_def floor_quotient ceiling_quotient [OF assms(1)])
qed

lemma rne_quotient:
  assumes "0 < q" shows "rne (of_int p / of_int q) = rneq p q"
proof -
  have q: "(0::rat) < of_int q" using assms by simp
  have "(of_int p :: rat) = of_int (p div q) * of_int q + of_int (p mod q)"
    by (simp only: div_mult_mod_eq flip: of_int_mult of_int_add)
  then have "(of_int p / of_int q :: rat) = of_int (p div q) + of_int (p mod q) / of_int q"
    using q by (simp add: add_divide_distrib)
  then have r: "(of_int p / of_int q :: rat) - of_int (p div q) = of_int (p mod q) / of_int q"
    by simp
  have "of_int (p mod q) / of_int q < (1 / 2 :: rat) \<longleftrightarrow> of_int (2 * (p mod q)) < (of_int q :: rat)"
    "(1 / 2 :: rat) < of_int (p mod q) / of_int q \<longleftrightarrow> (of_int q :: rat) < of_int (2 * (p mod q))"
    using q by (auto simp: field_simps)
  then show ?thesis
    by (simp only: rne_def rneq_def floor_quotient r Let_def of_int_less_iff minus_div_mult_eq_mod)
qed

lemma rnd_quotient:
  assumes "0 < p" "0 < q" shows "rnd (of_int p / of_int q) = rndq p q"
proof -
  let ?x = "of_int p / of_int q :: rat"
  define e where "e = expoq p q - 52"
  have x: "0 < ?x" using assms by simp
  then have "?x \<noteq> 0" "\<bar>?x\<bar> = ?x" by (rule less_imp_neq [symmetric], rule abs_of_pos)
  then have r: "rnd ?x = of_int (rne (?x * 2 powi (- e))) * 2 powi e"
    by (simp only: rnd_def if_False expo_quotient [OF assms] e_def Let_def)
  show ?thesis
  proof (cases "e \<le> 0")
    case True
    define n where "n = nat (- e)"
    have e: "e = - int n" using True by (simp add: n_def)
    have "?x * 2 powi (- e) = of_int (p * 2 ^ n) / of_int q" by (simp add: e)
    then have "rnd ?x = of_int (rneq (p * 2 ^ n) q) / 2 ^ n"
      unfolding r using rne_quotient [OF assms(2)]
      by (simp only: e) (simp add: power_int_minus divide_inverse)
    then show ?thesis using True by (simp add: rndq_def e_def [symmetric] n_def)
  next
    case False
    define n where "n = nat e"
    have e: "e = int n" using False by (simp add: n_def)
    have "?x * 2 powi (- e) = of_int p / of_int (q * 2 ^ n)"
      by (simp add: e power_int_minus divide_inverse)
    then have "rnd ?x = of_int (rneq p (q * 2 ^ n)) * 2 ^ n"
      unfolding r using rne_quotient [of "q * 2 ^ n" p] assms(2) by (simp add: e)
    then show ?thesis using False by (simp add: rndq_def e_def [symmetric] n_def)
  qed
qed

lemma rnd_numeral [double_eval]:
  "rnd 1 = 1" "rnd (numeral a) = rndq (numeral a) 1"
  "rnd (1 / numeral b) = rndq 1 (numeral b)" "rnd (numeral a / numeral b) = rndq (numeral a) (numeral b)"
proof -
  show "rnd (numeral a) = rndq (numeral a) 1" "rnd (1 / numeral b) = rndq 1 (numeral b)"
    "rnd (numeral a / numeral b) = rndq (numeral a) (numeral b)"
    using rnd_quotient [of "numeral a" 1] rnd_quotient [of 1 "numeral b"]
      rnd_quotient [of "numeral a" "numeral b"] by simp_all
  show "rnd 1 = 1"
    using rnd_quotient [of 1 1] by (simp add: rndq_def expoq_def rneq_def ilog2_numeral)
qed

lemma floor_rat_numeral [double_eval]:
  "\<lfloor>numeral a / numeral b :: rat\<rfloor> = numeral a div numeral b"
  "\<lfloor>1 / numeral b :: rat\<rfloor> = 1 div numeral b"
  "\<lfloor>- (numeral a / numeral b) :: rat\<rfloor> = - numeral a div numeral b"
  "\<lceil>- (numeral a / numeral b) :: rat\<rceil> = - (numeral a div numeral b)"
  "\<lceil>- (1 / numeral b) :: rat\<rceil> = - (1 div numeral b)"
  using floor_quotient [of "numeral a" "numeral b"] floor_quotient [of 1 "numeral b"]
    floor_quotient [of "- numeral a" "numeral b"]
  by (simp_all add: ceiling_def)

lemmas rndq_eval [double_eval] = rndq_def expoq_def rneq_def Let_def

section \<open>Small integers are exact doubles\<close>

lemma rnd_of_nat:
  assumes "n < 2 ^ 53" shows "rnd (of_nat n) = of_nat n"
proof (cases "n = 0")
  case False
  define k where "k = expo (of_nat n)"
  have pos: "0 < (of_nat n :: rat)" using False by simp
  have "2 powi k \<le> (of_nat n :: rat)" using expo_bounds [OF pos] by (simp add: k_def)
  also have "\<dots> < 2 powi 53"
    using assms by (simp only: of_nat_less_iff of_nat_power of_nat_numeral power_int_numeral flip: of_nat_less_iff [where ?'a = rat])
  finally have "k < 53" by (rule powi2_less_cancel)
  then have p: "2 powi (- (k - 52)) = (of_int (2 ^ nat (52 - k)) :: rat)" by (simp add: power_int_def)
  have "(of_nat n :: rat) * 2 powi (- (k - 52)) = of_int (int n * 2 ^ nat (52 - k))" by (simp only: p) simp
  then have r: "rne (of_nat n * 2 powi (- (k - 52))) = int n * 2 ^ nat (52 - k)" by (simp only: rne_of_int)
  have "rnd (of_nat n) = of_int (rne (of_nat n * 2 powi (- (k - 52)))) * 2 powi (k - 52)"
    using False by (simp add: rnd_def k_def Let_def)
  also have "\<dots> = of_nat n * (2 powi (- (k - 52)) * 2 powi (k - 52))" unfolding r by (simp add: p [simplified])
  also have "\<dots> = of_nat n" by (simp flip: power_int_add)
  finally show ?thesis .
qed simp

end
