(* ===== verification/Shared_Data.thy ===== *)
theory Shared_Data
  imports Double
begin

text \<open>
  src/common/include/shared_data.h: the driver and ride records and the shared memory all processes
  map, with the map geometry of src/server/include/pathfinding.h. The \<open>uint8_t\<close> flags are only ever
  assigned 0 and 1 and tested for truth, so they are booleans; counters declared \<open>int\<close> and
  \<open>long\<close> are integers, the two request counters are 64-bit words. The process-shared mutex is
  modelled with the processes that take it (theory Coordinator), not as a field.
\<close>

section \<open>Records\<close>

definition MAX_DRIVERS :: nat where "MAX_DRIVERS = 256"
definition MAX_PENDING_RIDES :: nat where "MAX_PENDING_RIDES = 128"
definition MAX_CLIENTS :: nat where "MAX_CLIENTS = 2000"

record Driver =
  driver_id :: u32
  d_lat :: double
  d_lon :: double
  is_available :: bool
  rides_count :: int
  fuel :: int
  is_refueling :: bool
  rating :: double
  has_target :: bool
  target_lat :: double
  target_lon :: double

record Ride =
  ride_id :: u32
  ride_client_id :: u32
  start_lat :: double
  start_lon :: double
  ride_status :: u8

record SharedState =
  drivers :: "Driver list"
  driver_count :: int
  pending_rides :: "Ride list"
  ride_count :: int
  total_requests_handled :: u64
  total_success_requests :: u64
  total_revenue :: int
  client_last_seen :: "int list"
  client_req_count :: "int list"
  dispatch_mode :: int

text \<open>The all-zero bytes that \<open>memset\<close> leaves.\<close>

definition zero_driver :: Driver where
  "zero_driver = \<lparr>driver_id = 0, d_lat = 0, d_lon = 0, is_available = False, rides_count = 0, fuel = 0,
     is_refueling = False, rating = 0, has_target = False, target_lat = 0, target_lon = 0\<rparr>"

definition zero_ride :: Ride where
  "zero_ride = \<lparr>ride_id = 0, ride_client_id = 0, start_lat = 0, start_lon = 0, ride_status = 0\<rparr>"

definition zero_state :: SharedState where
  "zero_state = \<lparr>drivers = replicate MAX_DRIVERS zero_driver, driver_count = 0,
     pending_rides = replicate MAX_PENDING_RIDES zero_ride, ride_count = 0,
     total_requests_handled = 0, total_success_requests = 0, total_revenue = 0,
     client_last_seen = replicate MAX_CLIENTS 0, client_req_count = replicate MAX_CLIENTS 0,
     dispatch_mode = 0\<rparr>"

text \<open>The array bounds: the declared lengths, and a driver count inside the driver array.\<close>

definition wf_state :: "SharedState \<Rightarrow> bool" where
  "wf_state s \<longleftrightarrow> length (drivers s) = MAX_DRIVERS \<and> driver_count s \<le> int MAX_DRIVERS
     \<and> length (client_last_seen s) = MAX_CLIENTS \<and> length (client_req_count s) = MAX_CLIENTS"

text \<open>The drivers the loops \<open>for (i = 0; i < driver_count; i++)\<close> visit.\<close>

definition active_drivers :: "SharedState \<Rightarrow> Driver list" where
  "active_drivers s = take (nat (driver_count s)) (drivers s)"

lemma length_active_drivers: "wf_state s \<Longrightarrow> length (active_drivers s) = nat (driver_count s)"
  by (auto simp: active_drivers_def wf_state_def)

lemma active_drivers_nth: "i < length (active_drivers s) \<Longrightarrow> active_drivers s ! i = drivers s ! i"
  by (simp add: active_drivers_def)

section \<open>Geometry\<close>

definition MAP_WIDTH :: int where "MAP_WIDTH = 40"
definition MAP_HEIGHT :: int where "MAP_HEIGHT = 20"

definition BASE_LAT :: double where "BASE_LAT = d_lit (25033 / 1000)"
definition BASE_LON :: double where "BASE_LON = d_lit (1215654 / 10000)"
definition SCALE_FACTOR :: int where "SCALE_FACTOR = 2000"

text \<open>\<open>(int)((v - base) * SCALE_FACTOR)\<close>\<close>

definition to_cell :: "double \<Rightarrow> double \<Rightarrow> int" where
  "to_cell base v = d_trunc ((v - base) * d_of_int SCALE_FACTOR)"

definition in_map :: "int \<Rightarrow> int \<Rightarrow> bool" where
  "in_map x y \<longleftrightarrow> 0 \<le> x \<and> x < MAP_WIDTH \<and> 0 \<le> y \<and> y < MAP_HEIGHT"

lemma d_trunc_mono: "x \<le> y \<Longrightarrow> d_trunc x \<le> d_trunc y"
proof -
  assume "x \<le> y"
  then have le: "rat_of x \<le> rat_of y" by (simp add: less_eq_double_def)
  show ?thesis
  proof (cases "0 \<le> rat_of x \<or> rat_of y < 0")
    case True
    with le show ?thesis by (auto simp: d_trunc_def floor_mono ceiling_mono simp del: le_floor_iff ceiling_le_iff)
  next
    case False
    then have "\<lceil>rat_of x\<rceil> \<le> 0" "0 \<le> \<lfloor>rat_of y\<rfloor>" by simp_all
    then have "\<lceil>rat_of x\<rceil> \<le> \<lfloor>rat_of y\<rfloor>" by (rule order_trans)
    with False show ?thesis by (simp add: d_trunc_def)
  qed
qed

lemma to_cell_mono: "v \<le> w \<Longrightarrow> to_cell base v \<le> to_cell base w"
proof -
  assume "v \<le> w"
  moreover have "0 \<le> rat_of (d_of_int SCALE_FACTOR)" by (simp add: SCALE_FACTOR_def rnd_nonneg)
  ultimately show ?thesis
    unfolding to_cell_def
    by (intro d_trunc_mono) (auto simp: less_eq_double_def intro!: rnd_mono mult_right_mono)
qed

lemma to_cell_base [simp]: "to_cell base base = 0"
  by (simp add: to_cell_def)


lemma in_map_0 [simp]: "in_map 0 0"
  by (simp add: in_map_def MAP_WIDTH_def MAP_HEIGHT_def)

lemma base_bounds: "25 \<le> rat_of BASE_LAT" "rat_of BASE_LAT \<le> 26" "121 \<le> rat_of BASE_LON" "rat_of BASE_LON \<le> 122"
  by (simp_all add: BASE_LAT_def BASE_LON_def double_eval)

end
