(* ===== verification/Resource_Service.thy ===== *)
theory Resource_Service
  imports Shared_Data
begin

text \<open>
  src/server/resource_service.c: the availability check, the accounting after a ride, and the rate
  limiter. The mutex makes the body of \<open>check_and_update_rate_limit\<close> one step on the shared
  state; \<open>time(NULL)\<close> is read before the lock is taken, so the second \<open>now\<close> is an argument and
  the calls of several processes may take effect in another order than they read the clock.
  \<open>g_shared_state\<close> is not NULL once \<open>main\<close> has mapped it.
\<close>

section \<open>Operations\<close>

definition check_if_driver_available :: "SharedState \<Rightarrow> nat \<Rightarrow> bool" where
  "check_if_driver_available s i =
     (if is_refueling (drivers s ! i) then False
      else if fuel (drivers s ! i) \<le> 0 then False
      else True)"

definition complete_ride_driver :: "Driver \<Rightarrow> Driver" where
  "complete_ride_driver d =
     (let d = d\<lparr>is_available := True, rides_count := rides_count d + 1\<rparr>
      in if fuel d > 0 then d\<lparr>fuel := fuel d - 1\<rparr> else d)"

definition complete_ride_and_update_resources :: "SharedState \<Rightarrow> nat \<Rightarrow> int \<Rightarrow> SharedState" where
  "complete_ride_and_update_resources s i fare =
     s\<lparr>drivers := (drivers s)[i := complete_ride_driver (drivers s ! i)],
       total_revenue := total_revenue s + fare\<rparr>"

text \<open>The result is \<open>is_spam\<close>: True blocks the request.\<close>

definition check_and_update_rate_limit :: "int \<Rightarrow> int \<Rightarrow> SharedState \<Rightarrow> bool \<times> SharedState" where
  "check_and_update_rate_limit client_id now s =
     (if client_id \<le> 0 \<or> int MAX_CLIENTS \<le> client_id then (False, s)
      else let i = nat client_id;
               s' = (if client_last_seen s ! i = now
                     then s\<lparr>client_req_count := (client_req_count s)[i := client_req_count s ! i + 1]\<rparr>
                     else s\<lparr>client_last_seen := (client_last_seen s)[i := now],
                            client_req_count := (client_req_count s)[i := 1]\<rparr>)
           in (3 < client_req_count s' ! i, s'))"

text \<open>A sequence of calls, in the order in which they take the lock.\<close>

type_synonym rate_call = "int \<times> int"

fun rate_limit_run :: "rate_call list \<Rightarrow> SharedState \<Rightarrow> bool list" where
  "rate_limit_run [] s = []"
| "rate_limit_run ((c, now) # calls) s =
     (let (blocked, s') = check_and_update_rate_limit c now s in blocked # rate_limit_run calls s')"

section \<open>Frame and shape\<close>

lemma rate_limit_wf: "wf_state s \<Longrightarrow> wf_state (snd (check_and_update_rate_limit c now s))"
  by (simp add: check_and_update_rate_limit_def wf_state_def Let_def)

lemma rate_limit_frame [simp]:
  "drivers (snd (check_and_update_rate_limit c now s)) = drivers s"
  "driver_count (snd (check_and_update_rate_limit c now s)) = driver_count s"
  "total_requests_handled (snd (check_and_update_rate_limit c now s)) = total_requests_handled s"
  "total_success_requests (snd (check_and_update_rate_limit c now s)) = total_success_requests s"
  "total_revenue (snd (check_and_update_rate_limit c now s)) = total_revenue s"
  "dispatch_mode (snd (check_and_update_rate_limit c now s)) = dispatch_mode s"
  by (simp_all add: check_and_update_rate_limit_def Let_def)

lemma active_drivers_rate_limit [simp]:
  "active_drivers (snd (check_and_update_rate_limit c now s)) = active_drivers s"
  by (simp add: active_drivers_def)

text \<open>The requests already counted for client \<open>c\<close> in second \<open>t\<close>.\<close>

definition seen_in :: "int \<Rightarrow> int \<Rightarrow> SharedState \<Rightarrow> int" where
  "seen_in c t s = (if client_last_seen s ! nat c = t then client_req_count s ! nat c else 0)"

definition limited_id :: "int \<Rightarrow> bool" where
  "limited_id c \<longleftrightarrow> 0 < c \<and> c < 2000"

lemma limited_nat: "wf_state s \<Longrightarrow> limited_id c \<Longrightarrow>
    nat c < length (client_last_seen s) \<and> nat c < length (client_req_count s)"
  by (auto simp: limited_id_def wf_state_def MAX_CLIENTS_def)

lemma rate_limit_self:
  assumes "wf_state s" "limited_id c"
  shows "fst (check_and_update_rate_limit c now s) \<longleftrightarrow> 3 < seen_in c now s + 1"
    "client_last_seen (snd (check_and_update_rate_limit c now s)) ! nat c = now"
    "client_req_count (snd (check_and_update_rate_limit c now s)) ! nat c = seen_in c now s + 1"
  using limited_nat [OF assms] assms(2)
  by (auto simp: check_and_update_rate_limit_def Let_def seen_in_def limited_id_def MAX_CLIENTS_def)

lemma rate_limit_other:
  assumes "limited_id c" "c' \<noteq> c"
  shows "client_last_seen (snd (check_and_update_rate_limit c' now s)) ! nat c = client_last_seen s ! nat c"
    "client_req_count (snd (check_and_update_rate_limit c' now s)) ! nat c = client_req_count s ! nat c"
  using assms by (auto simp: check_and_update_rate_limit_def Let_def limited_id_def nth_list_update)

section \<open>Counting the calls that pass\<close>

fun passed :: "int \<Rightarrow> int \<Rightarrow> rate_call list \<Rightarrow> bool list \<Rightarrow> nat" where
  "passed c t (x # calls) (b # bs) = (if x = (c, t) \<and> \<not> b then 1 else 0) + passed c t calls bs"
| "passed c t calls bs = 0"

lemma passed_run:
  assumes "wf_state s" "limited_id c" "0 \<le> client_req_count s ! nat c"
    and "sorted (map snd calls)" "\<forall>x \<in> set calls. client_last_seen s ! nat c \<le> snd x"
  shows "int (passed c t calls (rate_limit_run calls s))
    = min 3 (seen_in c t s + int (count_list calls (c, t))) - min 3 (seen_in c t s)"
  using assms
proof (induction calls arbitrary: s)
  case (Cons x calls)
  obtain c' now where x: "x = (c', now)" by (cases x)
  let ?s' = "snd (check_and_update_rate_limit c' now s)"
  have run: "rate_limit_run (x # calls) s
      = fst (check_and_update_rate_limit c' now s) # rate_limit_run calls ?s'"
    by (simp add: x split_beta Let_def)
  have wf: "wf_state ?s'" using Cons.prems(1) by (rule rate_limit_wf)
  have sorted: "sorted (map snd calls)" "\<forall>y \<in> set calls. now \<le> snd y"
    using Cons.prems(4) by (auto simp: x)
  show ?case
  proof (cases "c' = c")
    case False
    note other = rate_limit_other [OF Cons.prems(2) False, of now s]
    have "seen_in c t ?s' = seen_in c t s" by (simp add: seen_in_def other)
    with Cons.IH [OF wf Cons.prems(2)] Cons.prems(3,5) sorted other False run show ?thesis
      by (simp add: x)
  next
    case True
    note self = rate_limit_self [OF Cons.prems(1,2), of now]
    have nonneg: "0 \<le> seen_in c now s" using Cons.prems(3) by (simp add: seen_in_def)
    have IH: "int (passed c t calls (rate_limit_run calls ?s'))
        = min 3 (seen_in c t ?s' + int (count_list calls (c, t))) - min 3 (seen_in c t ?s')"
      using Cons.IH [OF wf Cons.prems(2)] sorted self nonneg True by simp
    show ?thesis
    proof (cases "now = t")
      case now: True
      have "seen_in c t ?s' = seen_in c t s + 1" using self True now by (simp add: seen_in_def)
      with IH self(1) True now nonneg run show ?thesis by (auto simp: x)
    next
      case False
      then have s': "seen_in c t ?s' = 0" using self True by (simp add: seen_in_def)
      have "seen_in c t s = 0 \<or> count_list calls (c, t) = 0"
      proof (cases "client_last_seen s ! nat c = t")
        case old: True
        then have "t < now" using False Cons.prems(5) by (fastforce simp: x)
        then have "(c, t) \<notin> set calls" using sorted(2) by auto
        then show ?thesis by (simp add: count_notin)
      qed (simp add: seen_in_def)
      with IH s' False run show ?thesis by (auto simp: x)
    qed
  qed
qed simp

section \<open>Properties\<close>

text \<open>
  C25: the rate limit: when the calls take effect in the order of their clock readings, exactly the
  first three calls of a client in a second pass, for every client id from 1 to 1999, whatever the
  calls of the other clients in between.
\<close>

theorem rate_limit_three_per_second:
  assumes "wf_state s" "limited_id c" "sorted (map snd calls)"
    and "0 \<le> client_req_count s ! nat c" "\<forall>x \<in> set calls. client_last_seen s ! nat c < snd x"
  shows "passed c t calls (rate_limit_run calls s) = min 3 (count_list calls (c, t))"
proof -
  have le: "\<forall>x \<in> set calls. client_last_seen s ! nat c \<le> snd x" using assms(5) by auto
  have "seen_in c t s = 0 \<or> count_list calls (c, t) = 0"
    using assms(5) by (cases "(c, t) \<in> set calls") (auto simp: seen_in_def count_notin)
  moreover have "0 \<le> seen_in c t s" using assms(4) by (simp add: seen_in_def)
  ultimately have "int (passed c t calls (rate_limit_run calls s)) = int (min 3 (count_list calls (c, t)))"
    using passed_run [OF assms(1,2,4,3) le, of t] by (auto simp: min_def)
  then show ?thesis by simp
qed

lemma zero_state_clients:
  "client_last_seen zero_state = replicate 2000 0" "client_req_count zero_state = replicate 2000 0"
  by (simp_all add: zero_state_def MAX_CLIENTS_def)

lemma wf_zero_state: "wf_state zero_state"
  by (simp add: wf_state_def zero_state_def)

theorem rate_limit_three_per_second_witness:
  "passed 7 100 [(7, 100), (7, 100), (9, 100), (7, 100), (7, 100), (7, 101)]
     (rate_limit_run [(7, 100), (7, 100), (9, 100), (7, 100), (7, 100), (7, 101)] zero_state) = 3"
  by (subst rate_limit_three_per_second)
    (simp_all add: wf_zero_state limited_id_def zero_state_clients)

text \<open>
  ids 0 and from 2000 on are not limited at all: the call passes whatever the state and leaves
  it unchanged.
\<close>

theorem rate_limit_exempt:
  assumes "\<not> limited_id c"
  shows "check_and_update_rate_limit c now s = (False, s)"
  using assms by (auto simp: check_and_update_rate_limit_def limited_id_def MAX_CLIENTS_def)

theorem rate_limit_exempt_witness:
  "check_and_update_rate_limit 2000 100 zero_state = (False, zero_state)
   \<and> check_and_update_rate_limit 0 100 zero_state = (False, zero_state)"
  using rate_limit_exempt [of 2000 100 zero_state] rate_limit_exempt [of 0 100 zero_state]
  by (simp add: limited_id_def)

fun alternating :: "nat \<Rightarrow> int \<Rightarrow> int \<Rightarrow> rate_call list" where
  "alternating 0 c t = []"
| "alternating (Suc n) c t = (c, t) # (c, t + 1) # alternating n c t"

lemma alternating_step:
  assumes "wf_state s" "limited_id c" "client_last_seen s ! nat c \<noteq> t"
  shows "passed c t (alternating n c t) (rate_limit_run (alternating n c t) s) = n"
  using assms
proof (induction n arbitrary: s)
  case (Suc n)
  let ?s1 = "snd (check_and_update_rate_limit c t s)"
  let ?s2 = "snd (check_and_update_rate_limit c (t + 1) ?s1)"
  note w1 = rate_limit_wf [OF Suc.prems(1), of c t]
  note w2 = rate_limit_wf [OF w1, of c "t + 1"]
  note self1 = rate_limit_self [OF Suc.prems(1,2), of t]
  note self2 = rate_limit_self [OF w1 Suc.prems(2), of "t + 1"]
  have "\<not> fst (check_and_update_rate_limit c t s)" using self1(1) Suc.prems(3) by (simp add: seen_in_def)
  moreover have "passed c t (alternating n c t) (rate_limit_run (alternating n c t) ?s2) = n"
    using Suc.IH [OF w2 Suc.prems(2)] self2(2) by simp
  ultimately show ?case by (simp add: split_beta Let_def)
qed simp

text \<open>
  the limit is not kept across a second boundary: the clock is read before the lock, so calls
  that read second 100 and second 101 can alternate at the lock, and then every one passes.
\<close>

theorem rate_limit_race:
  assumes "wf_state s" "limited_id c" "client_last_seen s ! nat c < t"
  shows "passed c t (alternating n c t) (rate_limit_run (alternating n c t) s) = n"
  using alternating_step [OF assms(1,2)] assms(3) by simp

theorem rate_limit_race_witness:
  "passed 7 100 (alternating 50 7 100) (rate_limit_run (alternating 50 7 100) zero_state) = 50"
  by (rule rate_limit_race) (simp_all add: wf_zero_state limited_id_def zero_state_clients)

end
