(* ===== verification/Driver_Status.thy ===== *)
theory Driver_Status
  imports Resource_Service
begin

text \<open>
  The contract on one driver record that the services share: a driver is in exactly one of the
  states that map_monitor.c prints (Navigating, Refueling, Available), its fuel stays in the range
  of the printed fuel bar, refueling, which adds 2 at a time, runs on even values, and targets lie
  on the map. The locale
  \<open>driver_contract\<close> lifts an operation on one record that keeps it to the driver array of the
  shared memory; \<open>status_step\<close> is the abstract state machine the operations refine.
\<close>

section \<open>Status of one driver\<close>

datatype status = Available | Navigating | Refueling | Busy

text \<open>The order of the tests is that of the status column of map_monitor.c.\<close>

definition status_of :: "Driver \<Rightarrow> status" where
  "status_of d = (if has_target d then Navigating else if is_refueling d then Refueling
                  else if is_available d then Available else Busy)"

definition one_status :: "Driver \<Rightarrow> bool" where
  "one_status d \<longleftrightarrow> (is_available d \<or> is_refueling d \<or> has_target d)
     \<and> \<not> (is_available d \<and> is_refueling d) \<and> \<not> (is_available d \<and> has_target d)
     \<and> \<not> (is_refueling d \<and> has_target d)"

text \<open>
  A driver stays within 1000 degrees of the origin, where the searches can see it, and a navigation
  target lies on the map.
\<close>

definition near :: "Driver \<Rightarrow> bool" where
  "near d \<longleftrightarrow> \<bar>rat_of (d_lat d)\<bar> \<le> 1000 \<and> \<bar>rat_of (d_lon d)\<bar> \<le> 1000"

definition target_on_map :: "Driver \<Rightarrow> bool" where
  "target_on_map d \<longleftrightarrow> in_map (to_cell BASE_LON (target_lon d)) (to_cell BASE_LAT (target_lat d))"

definition driver_ok :: "Driver \<Rightarrow> bool" where
  "driver_ok d \<longleftrightarrow> one_status d \<and> 0 \<le> fuel d \<and> fuel d \<le> 10 \<and> (is_refueling d \<longrightarrow> even (fuel d))
     \<and> near d \<and> (has_target d \<longrightarrow> target_on_map d)"

lemma driver_ok_not_busy: "driver_ok d \<Longrightarrow> status_of d \<noteq> Busy"
  by (auto simp: driver_ok_def one_status_def status_of_def)

lemma driver_ok_status:
  assumes "driver_ok d"
  shows "status_of d = Available \<longleftrightarrow> is_available d" "status_of d = Refueling \<longleftrightarrow> is_refueling d"
    "status_of d = Navigating \<longleftrightarrow> has_target d"
  using assms by (auto simp: driver_ok_def one_status_def status_of_def)

text \<open>
  The abstract machine. A dispatch takes an available driver with fuel; a trip ends in Available,
  or in Refueling when the tank is empty; a full tank ends refueling; Refueling never turns into
  Navigating directly.
\<close>

inductive status_step :: "status \<Rightarrow> status \<Rightarrow> bool" where
  stay: "status_step s s"
| dispatch: "status_step Available Navigating"
| arrive: "status_step Navigating Available"
| arrive_empty: "status_step Navigating Refueling"
| run_dry: "status_step Available Refueling"
| filled: "status_step Refueling Available"

inductive_simps status_step_from [simp]: "status_step Refueling s" "status_step Available s" "status_step Navigating s"

code_pred status_step .

section \<open>The driver array\<close>

definition state_ok :: "SharedState \<Rightarrow> bool" where
  "state_ok s \<longleftrightarrow> wf_state s \<and> 0 \<le> driver_count s \<and> (\<forall>d \<in> set (active_drivers s). driver_ok d)
     \<and> (\<forall>d \<in> set (drop (nat (driver_count s)) (drivers s)). d = zero_driver)
     \<and> total_success_requests s = total_requests_handled s"

lemma state_okD:
  assumes "state_ok s"
  shows "wf_state s" "0 \<le> driver_count s" "\<forall>d \<in> set (active_drivers s). driver_ok d"
    "\<forall>d \<in> set (drop (nat (driver_count s)) (drivers s)). d = zero_driver"
    "total_success_requests s = total_requests_handled s"
  using assms by (simp_all add: state_ok_def)

definition update_driver :: "nat \<Rightarrow> (Driver \<Rightarrow> Driver) \<Rightarrow> SharedState \<Rightarrow> SharedState" where
  "update_driver i f s = s\<lparr>drivers := (drivers s)[i := f (drivers s ! i)]\<rparr>"

lemma update_driver_frame [simp]:
  "driver_count (update_driver i f s) = driver_count s"
  "total_requests_handled (update_driver i f s) = total_requests_handled s"
  "total_success_requests (update_driver i f s) = total_success_requests s"
  "total_revenue (update_driver i f s) = total_revenue s"
  "dispatch_mode (update_driver i f s) = dispatch_mode s"
  "client_last_seen (update_driver i f s) = client_last_seen s"
  "client_req_count (update_driver i f s) = client_req_count s"
  "wf_state (update_driver i f s) = wf_state s"
  by (simp_all add: update_driver_def wf_state_def)

lemma active_update_driver:
  "active_drivers (update_driver i f s)
     = (if i < nat (driver_count s) then (active_drivers s)[i := f (drivers s ! i)] else active_drivers s)"
  by (auto simp: active_drivers_def update_driver_def take_update_swap list_update_beyond)

lemma inactive_update_driver:
  "i < nat (driver_count s) \<Longrightarrow>
     drop (nat (driver_count s)) (drivers (update_driver i f s)) = drop (nat (driver_count s)) (drivers s)"
  by (simp add: update_driver_def)

text \<open>
  An operation on one record that keeps \<open>driver_ok\<close> under a guard, and moves the status along the
  abstract machine.
\<close>

locale driver_contract =
  fixes guard :: "Driver \<Rightarrow> bool" and upd :: "Driver \<Rightarrow> Driver"
  assumes keeps: "driver_ok d \<Longrightarrow> guard d \<Longrightarrow> driver_ok (upd d)"
    and moves: "driver_ok d \<Longrightarrow> guard d \<Longrightarrow> status_step (status_of d) (status_of (upd d))"
begin

lemma update_ok:
  assumes ok: "\<forall>d \<in> set (active_drivers s). driver_ok d" and wf: "wf_state s"
    and i: "i < nat (driver_count s)" and g: "guard (drivers s ! i)"
  shows "\<forall>d \<in> set (active_drivers (update_driver i upd s)). driver_ok d"
proof -
  have len: "i < length (active_drivers s)" using i wf by (simp add: length_active_drivers)
  then have "driver_ok (drivers s ! i)" using ok by (metis active_drivers_nth nth_mem)
  then have "driver_ok (upd (drivers s ! i))" using g by (rule keeps)
  then show ?thesis using ok i by (auto simp: active_update_driver dest!: set_update_subset_insert [THEN subsetD])
qed

lemma update_state_ok:
  assumes "state_ok s" "i < nat (driver_count s)" "guard (drivers s ! i)"
  shows "state_ok (update_driver i upd s)"
proof -
  note ok = state_okD [OF assms(1)]
  show ?thesis
    using update_ok [OF ok(3,1) assms(2,3)] ok(1,2,4,5) inactive_update_driver [OF assms(2), of upd]
    by (simp add: state_ok_def)
qed

lemma update_moves:
  assumes ok: "\<forall>d \<in> set (active_drivers s). driver_ok d" and wf: "wf_state s"
    and i: "i < nat (driver_count s)" and g: "guard (drivers s ! i)" and j: "j < nat (driver_count s)"
  shows "status_step (status_of (drivers s ! j)) (status_of (drivers (update_driver i upd s) ! j))"
proof (cases "j = i")
  case True
  have len: "i < length (active_drivers s)" using i wf by (simp add: length_active_drivers)
  then have "driver_ok (drivers s ! i)" using ok by (metis active_drivers_nth nth_mem)
  then have "status_step (status_of (drivers s ! i)) (status_of (upd (drivers s ! i)))" using g by (rule moves)
  moreover have "i < length (drivers s)" using len by (simp add: active_drivers_def)
  ultimately show ?thesis using True by (simp add: update_driver_def)
next
  case False
  then show ?thesis by (simp add: update_driver_def status_step.stay)
qed

end

section \<open>Properties\<close>

text \<open>
  the availability check of the resource service: a driver that satisfies the contract passes
  exactly when it is not refueling and its tank is not empty.
\<close>

theorem availability_check:
  "driver_ok (drivers s ! i) \<Longrightarrow>
     check_if_driver_available s i \<longleftrightarrow> status_of (drivers s ! i) \<noteq> Refueling \<and> fuel (drivers s ! i) \<in> {1..10}"
  by (auto simp: check_if_driver_available_def driver_ok_def status_of_def one_status_def)

theorem availability_check_witness:
  "driver_ok (zero_driver\<lparr>is_available := True, fuel := 10\<rparr>) \<and>
   check_if_driver_available (zero_state\<lparr>drivers := [zero_driver\<lparr>is_available := True, fuel := 10\<rparr>]\<rparr>) 0"
  using availability_check [of "zero_state\<lparr>drivers := [zero_driver\<lparr>is_available := True, fuel := 10\<rparr>]\<rparr>" 0]
  by (simp add: driver_ok_def one_status_def status_of_def zero_driver_def near_def)

text \<open>
  \<open>complete_ride_and_update_resources\<close> charges the trip to the driver and the books, but it
  leaves the navigation target of the driver in place: after it the driver is available and
  navigating at once, which the contract rules out.
\<close>

theorem complete_ride_breaks_status:
  assumes "driver_ok (drivers s ! i)" "status_of (drivers s ! i) = Navigating" "i < length (drivers s)"
  shows "let s' = complete_ride_and_update_resources s i fare; d = drivers s ! i; d' = drivers s' ! i in
     rides_count d' = rides_count d + 1 \<and> total_revenue s' = total_revenue s + fare
     \<and> fuel d' = max 0 (fuel d - 1) \<and> is_available d' \<and> has_target d' \<and> \<not> driver_ok d'"
proof -
  have "has_target (drivers s ! i)" "0 \<le> fuel (drivers s ! i)"
    using assms(1,2) by (auto simp: driver_ok_status driver_ok_def)
  then show ?thesis
    using assms(3) by (simp add: complete_ride_and_update_resources_def complete_ride_driver_def
        driver_ok_def one_status_def Let_def)
qed

theorem complete_ride_breaks_status_witness:
  "\<not> driver_ok (drivers (complete_ride_and_update_resources
     (zero_state\<lparr>drivers := [zero_driver\<lparr>has_target := True, target_lat := BASE_LAT, target_lon := BASE_LON, fuel := 4\<rparr>]\<rparr>) 0 150) ! 0)"
  using complete_ride_breaks_status [of "zero_state\<lparr>drivers := [zero_driver\<lparr>has_target := True, target_lat := BASE_LAT, target_lon := BASE_LON, fuel := 4\<rparr>]\<rparr>" 0 150]
  by (simp add: driver_ok_def one_status_def status_of_def zero_driver_def Let_def near_def target_on_map_def)

end
