(* ===== verification/Net_Wrapper.thy ===== *)
theory Net_Wrapper
  imports RH_Prelude
begin

text \<open>
  src/common/net_wrapper.c: the exact-length socket I/O \<open>send_n\<close> and \<open>recv_n\<close>. What the kernel
  does with a socket is data of the model: the receive side is the list of what the next
  \<open>read()\<close> calls find, the send side the list of how much the next \<open>write()\<close> calls accept. The
  cipher of the same file is in RC4, the opening of sockets in Sockets.
\<close>

section \<open>Receiving\<close>

text \<open>
  The next \<open>read()\<close> finds some bytes, is interrupted by a signal, or fails. At the end of the
  list the peer has closed the connection, and \<open>read()\<close> returns 0; so it does on an empty chunk.
\<close>

datatype rx_event = Data "u8 list" | RxIntr | RxFail

datatype read_result = RdBytes "u8 list" | RdIntr | RdErr

fun c_read :: "nat \<Rightarrow> rx_event list \<Rightarrow> read_result \<times> rx_event list" where
  "c_read n [] = (RdBytes [], [])"
| "c_read n (Data bs # es) =
     (if length bs \<le> n then (RdBytes bs, es) else (RdBytes (take n bs), Data (drop n bs) # es))"
| "c_read n (RxIntr # es) = (RdIntr, es)"
| "c_read n (RxFail # es) = (RdErr, es)"

fun rx_size :: "rx_event list \<Rightarrow> nat" where
  "rx_size [] = 0"
| "rx_size (Data bs # es) = Suc (length bs + rx_size es)"
| "rx_size (_ # es) = Suc (rx_size es)"

lemma c_read_size: "c_read n es = (r, es') \<Longrightarrow> rx_size es' \<le> rx_size es"
  by (cases "(n, es)" rule: c_read.cases) (auto split: if_splits)

lemma c_read_progress:
  "c_read n es = (r, es') \<Longrightarrow> 0 < n \<Longrightarrow> r \<noteq> RdBytes [] \<Longrightarrow> rx_size es' < rx_size es"
  by (cases "(n, es)" rule: c_read.cases) (auto split: if_splits)

lemma c_read_length: "c_read n es = (RdBytes bs, es') \<Longrightarrow> length bs \<le> n"
  by (cases "(n, es)" rule: c_read.cases) (auto split: if_splits)

text \<open>
  The loop of \<open>recv_n\<close>: \<open>nleft\<close> bytes are still wanted, \<open>acc\<close> has been stored at the start of the
  caller's buffer. The result is the returned value, the bytes stored and the socket after it.
\<close>

function recv_loop :: "nat \<Rightarrow> nat \<Rightarrow> u8 list \<Rightarrow> rx_event list \<Rightarrow> int \<times> u8 list \<times> rx_event list" where
  "recv_loop n nleft acc es =
     (if nleft = 0 then (int (n - nleft), acc, es)
      else case c_read nleft es of
             (RdErr, es') \<Rightarrow> (- 1, acc, es')
           | (RdIntr, es') \<Rightarrow> recv_loop n nleft acc es'
           | (RdBytes bs, es') \<Rightarrow>
               if bs = [] then (int (n - nleft), acc, es')
               else recv_loop n (nleft - length bs) (acc @ bs) es')"
  by pat_completeness auto
termination
  by (relation "measure (\<lambda>(n, nleft, acc, es). rx_size es)")
    (auto dest!: sym [where s = "(_, _)"] dest: c_read_progress)

declare recv_loop.simps [simp del]

lemma recv_loop_done [simp]: "recv_loop n 0 acc es = (int n, acc, es)"
  by (simp add: recv_loop.simps [of n 0])

definition recv_n :: "nat \<Rightarrow> rx_event list \<Rightarrow> int \<times> u8 list \<times> rx_event list" where
  "recv_n n es = recv_loop n n [] es"

text \<open>What the caller's buffer holds afterwards: the bytes stored, then its old contents.\<close>

definition overlay :: "u8 list \<Rightarrow> u8 list \<Rightarrow> u8 list" where
  "overlay bs buf = bs @ drop (length bs) buf"

lemma length_overlay: "length bs \<le> length buf \<Longrightarrow> length (overlay bs buf) = length buf"
  by (simp add: overlay_def)

lemma take_overlay: "take (length bs) (overlay bs buf) = bs"
  by (simp add: overlay_def)

lemma overlay_Nil [simp]: "overlay [] buf = buf"
  by (simp add: overlay_def)

lemma recv_loop_size:
  "recv_loop n nleft acc es = (r, bs, es') \<Longrightarrow> rx_size es' \<le> rx_size es"
proof (induction n nleft acc es arbitrary: r bs es' rule: recv_loop.induct)
  case (1 n nleft acc es)
  obtain rr es1 where c: "c_read nleft es = (rr, es1)" by (cases "c_read nleft es")
  note sz = c_read_size [OF c]
  show ?case
  proof (cases "nleft = 0")
    case True
    with "1.prems" show ?thesis by simp
  next
    case False
    show ?thesis
    proof (cases rr)
      case (RdBytes cs)
      then show ?thesis
        using False c sz "1.prems" "1.IH"(1) [OF False c [symmetric] RdBytes]
        by (fastforce simp: recv_loop.simps [of n nleft] split: if_splits)
    next
      case RdIntr
      then show ?thesis
        using False c sz "1.prems" "1.IH"(2) [OF False c [symmetric] RdIntr]
        by (fastforce simp: recv_loop.simps [of n nleft])
    next
      case RdErr
      then show ?thesis
        using False c sz "1.prems" by (simp add: recv_loop.simps [of n nleft])
    qed
  qed
qed

text \<open>
  The contract. Where no read fails, \<open>recv_n\<close> sees the byte stream \<open>rx_bytes es\<close> only: how it
  is cut into chunks and how often a signal interrupts makes no difference.
\<close>

fun rx_bytes :: "rx_event list \<Rightarrow> u8 list" where
  "rx_bytes [] = []"
| "rx_bytes (Data bs # es) = bs @ rx_bytes es"
| "rx_bytes (_ # es) = rx_bytes es"

definition rx_clean :: "rx_event list \<Rightarrow> bool" where
  "rx_clean es \<longleftrightarrow> RxFail \<notin> set es \<and> Data [] \<notin> set es"

lemma c_read_clean:
  assumes "rx_clean es" "c_read n es = (r, es')" "0 < n"
  shows "rx_clean es'"
    "r = RdIntr \<and> rx_bytes es' = rx_bytes es
      \<or> (\<exists>bs. r = RdBytes bs \<and> length bs \<le> n \<and> rx_bytes es = bs @ rx_bytes es' \<and> (bs = [] \<longrightarrow> rx_bytes es = []))"
  using assms by (cases "(n, es)" rule: c_read.cases; auto simp: rx_clean_def split: if_splits)+

lemma recv_loop_clean:
  assumes "rx_clean es" "nleft \<le> n" "length acc = n - nleft"
    and "recv_loop n nleft acc es = (r, bs, es')"
  shows "rx_clean es' \<and> bs = acc @ take nleft (rx_bytes es) \<and> rx_bytes es' = drop nleft (rx_bytes es)
    \<and> r = int (length bs)"
  using assms
proof (induction n nleft acc es arbitrary: r bs es' rule: recv_loop.induct)
  case (1 n nleft acc es)
  obtain rr es1 where c: "c_read nleft es = (rr, es1)" by (cases "c_read nleft es")
  show ?case
  proof (cases "nleft = 0")
    case True
    with "1.prems" show ?thesis by simp
  next
    case False
    then have "0 < nleft" by simp
    from c_read_clean [OF "1.prems"(1) c this] have cl: "rx_clean es1"
      and alt: "rr = RdIntr \<and> rx_bytes es1 = rx_bytes es
        \<or> (\<exists>bs. rr = RdBytes bs \<and> length bs \<le> nleft \<and> rx_bytes es = bs @ rx_bytes es1
            \<and> (bs = [] \<longrightarrow> rx_bytes es = []))"
      by auto
    from alt show ?thesis
    proof (elim disjE exE conjE)
      assume i: "rr = RdIntr" "rx_bytes es1 = rx_bytes es"
      then show ?thesis
        using False c "1.prems" "1.IH"(2) [OF False c [symmetric] i(1) cl]
        by (simp add: recv_loop.simps [of n nleft])
    next
      fix cs
      assume cs: "rr = RdBytes cs" "length cs \<le> nleft" "rx_bytes es = cs @ rx_bytes es1"
        "cs = [] \<longrightarrow> rx_bytes es = []"
      show ?thesis
      proof (cases "cs = []")
        case True
        with False c cl cs "1.prems" show ?thesis
          by (auto simp: recv_loop.simps [of n nleft])
      next
        case ne: False
        have loop: "recv_loop n (nleft - length cs) (acc @ cs) es1 = (r, bs, es')"
          using "1.prems"(4) False c cs ne by (simp add: recv_loop.simps [of n nleft])
        have len: "length (acc @ cs) = n - (nleft - length cs)" "nleft - length cs \<le> n"
          using "1.prems" cs by simp_all
        show ?thesis
          using "1.IH"(1) [OF False c [symmetric] cs(1) ne cl len(2,1) loop] cs(2,3) by simp
      qed
    qed
  qed
qed

lemma recv_n_clean:
  assumes "rx_clean es"
  obtains es' where "recv_n n es = (int (min n (length (rx_bytes es))), take n (rx_bytes es), es')"
    "rx_clean es'" "rx_bytes es' = drop n (rx_bytes es)"
proof -
  obtain r bs es' where r: "recv_n n es = (r, bs, es')" by (cases "recv_n n es")
  then have "recv_loop n n [] es = (r, bs, es')" by (simp add: recv_n_def)
  from recv_loop_clean [OF assms _ _ this] r show thesis
    by (intro that) (auto simp: min.commute)
qed

lemma recv_n_size: "recv_n n es = (r, bs, es') \<Longrightarrow> rx_size es' \<le> rx_size es"
  unfolding recv_n_def by (rule recv_loop_size)

lemma recv_loop_progress:
  "recv_loop n nleft acc es = (r, bs, es') \<Longrightarrow> nleft \<le> n \<Longrightarrow> int (n - nleft) < r \<Longrightarrow> rx_size es' < rx_size es"
proof (induction n nleft acc es arbitrary: r bs es' rule: recv_loop.induct)
  case (1 n nleft acc es)
  obtain rr es1 where c: "c_read nleft es = (rr, es1)" by (cases "c_read nleft es")
  have nz: "nleft \<noteq> 0" using "1.prems" by (cases "nleft = 0") simp_all
  then have pos: "0 < nleft" by simp
  show ?case
  proof (cases rr)
    case (RdBytes cs)
    show ?thesis
    proof (cases "cs = []")
      case True
      then show ?thesis using nz c RdBytes "1.prems"
        by (auto simp: recv_loop.simps [of n nleft] of_nat_diff)
    next
      case False
      then have "recv_loop n (nleft - length cs) (acc @ cs) es1 = (r, bs, es')"
        using nz c RdBytes "1.prems"(1) by (simp add: recv_loop.simps [of n nleft])
      from recv_loop_size [OF this] show ?thesis
        using c_read_progress [OF c pos] RdBytes False by auto
    qed
  next
    case RdIntr
    then have "recv_loop n nleft acc es1 = (r, bs, es')"
      using nz c "1.prems"(1) by (simp add: recv_loop.simps [of n nleft])
    from recv_loop_size [OF this] show ?thesis using c_read_progress [OF c pos] RdIntr by auto
  next
    case RdErr
    then show ?thesis using nz c "1.prems" by (simp add: recv_loop.simps [of n nleft])
  qed
qed

lemma recv_n_progress: "recv_n n es = (r, bs, es') \<Longrightarrow> 0 < r \<Longrightarrow> rx_size es' < rx_size es"
  using recv_loop_progress [of n n "[]" es r bs es'] by (simp add: recv_n_def)

text \<open>No byte of the stream is lost, repeated or reordered, also when a read fails half way.\<close>

lemma c_read_stream:
  "c_read n es = (r, es') \<Longrightarrow> rx_bytes es = (case r of RdBytes bs \<Rightarrow> bs | _ \<Rightarrow> []) @ rx_bytes es'"
  by (cases "(n, es)" rule: c_read.cases) (auto split: if_splits)

lemma recv_loop_stream:
  assumes "nleft \<le> n" "length acc = n - nleft" "recv_loop n nleft acc es = (r, bs, es')"
  shows "acc @ rx_bytes es = bs @ rx_bytes es' \<and> length bs \<le> n \<and> (r = - 1 \<or> r = int (length bs))"
  using assms
proof (induction n nleft acc es arbitrary: r bs es' rule: recv_loop.induct)
  case (1 n nleft acc es)
  obtain rr es1 where c: "c_read nleft es = (rr, es1)" by (cases "c_read nleft es")
  note st = c_read_stream [OF c]
  show ?case
  proof (cases "nleft = 0")
    case True
    with "1.prems" show ?thesis by simp
  next
    case nz: False
    note loop = recv_loop.simps [of n nleft acc es]
    show ?thesis
    proof (cases rr)
      case (RdBytes cs)
      have len: "length cs \<le> nleft" using c RdBytes c_read_length by blast
      show ?thesis
      proof (cases "cs = []")
        case True
        then show ?thesis using nz c st RdBytes "1.prems" by (auto simp: loop of_nat_diff)
      next
        case False
        have "recv_loop n (nleft - length cs) (acc @ cs) es1 = (r, bs, es')"
          using "1.prems"(3) nz c RdBytes False by (simp add: loop)
        from "1.IH"(1) [OF nz c [symmetric] RdBytes False _ _ this] show ?thesis
          using "1.prems"(1,2) len st RdBytes by simp
      qed
    next
      case RdIntr
      have "recv_loop n nleft acc es1 = (r, bs, es')" using "1.prems"(3) nz c RdIntr by (simp add: loop)
      from "1.IH"(2) [OF nz c [symmetric] RdIntr "1.prems"(1,2) this] show ?thesis using st RdIntr by simp
    next
      case RdErr
      then show ?thesis using "1.prems" nz c st by (auto simp: loop)
    qed
  qed
qed

section \<open>Sending\<close>

text \<open>
  The next \<open>write()\<close> accepts up to some number of bytes, is interrupted, or fails; at the end of
  the list every further call accepts all it is given.
\<close>

datatype tx_event = Accept nat | TxIntr | TxFail

fun send_loop :: "nat \<Rightarrow> u8 list \<Rightarrow> u8 list \<Rightarrow> tx_event list \<Rightarrow> int \<times> u8 list \<times> tx_event list" where
  "send_loop n [] sent es = (int n, sent, es)"
| "send_loop n ptr sent [] = (int n, sent @ ptr, [])"
| "send_loop n ptr sent (TxIntr # es) = send_loop n ptr sent es"
| "send_loop n ptr sent (TxFail # es) = (- 1, sent, es)"
| "send_loop n ptr sent (Accept k # es) =
     (if k = 0 then (- 1, sent, es) else send_loop n (drop k ptr) (sent @ take k ptr) es)"

definition send_n :: "u8 list \<Rightarrow> tx_event list \<Rightarrow> int \<times> u8 list \<times> tx_event list" where
  "send_n buf es = send_loop (length buf) buf [] es"

lemma send_loop_prefix:
  "send_loop n ptr sent es = (r, out, es') \<Longrightarrow>
     (r = int n \<and> out = sent @ ptr) \<or> (r = - 1 \<and> (\<exists>k < length ptr. out = sent @ take k ptr))"
proof (induction n ptr sent es arbitrary: r out es' rule: send_loop.induct)
  case (5 n x xs sent k es)
  show ?case
  proof (cases "k = 0")
    case False
    with "5" have "(r = int n \<and> out = (sent @ take k (x # xs)) @ drop k (x # xs)) \<or>
        (r = - 1 \<and> (\<exists>m < length (drop k (x # xs)). out = (sent @ take k (x # xs)) @ take m (drop k (x # xs))))"
      by simp
    then show ?thesis
    proof (elim disjE exE conjE)
      fix m assume "r = - 1" and m: "m < length (drop k (x # xs))"
        "out = (sent @ take k (x # xs)) @ take m (drop k (x # xs))"
      then have "out = sent @ take (k + m) (x # xs)" "k + m < length (x # xs)"
        by (simp_all add: take_add)
      with \<open>r = - 1\<close> show ?thesis by blast
    qed (simp del: take.simps drop.simps)
  next
    case True
    with "5.prems" show ?thesis by (intro disjI2) (auto intro: exI [of _ 0])
  qed
next
  case (4 n x xs sent es)
  then show ?case by (intro disjI2) (auto intro: exI [of _ 0])
qed auto

lemma send_n_reliable [simp]: "send_n buf [] = (int (length buf), buf, [])"
  by (cases buf) (simp_all add: send_n_def)

lemma send_loop_complete:
  "TxFail \<notin> set es \<Longrightarrow> Accept 0 \<notin> set es \<Longrightarrow> fst (send_loop n ptr sent es) = int n"
  by (induction n ptr sent es rule: send_loop.induct) auto

section \<open>Streams that deliver\<close>

text \<open>
  What the receiving code relies on: a socket that holds a byte stream delivers each prefix of it to a
  \<open>recv_n\<close> of that length. Two kinds of socket do: \<open>closed_after\<close>, where the peer has sent the bytes
  and closed the connection, and \<open>open_after\<close>, where it has sent them and is still there. A \<open>recv_n\<close>
  that needs more from an open socket does not return; in the model the read after the last byte fails,
  so that a run up to that point shows what the process has done when it starts to wait.
\<close>

definition closed_after :: "rx_event list \<Rightarrow> u8 list \<Rightarrow> bool" where
  "closed_after es bs \<longleftrightarrow> rx_clean es \<and> rx_bytes es = bs"

definition open_after :: "rx_event list \<Rightarrow> u8 list \<Rightarrow> bool" where
  "open_after es bs \<longleftrightarrow> es \<noteq> [] \<and> last es = RxFail \<and> closed_after (butlast es) bs"

locale byte_stream =
  fixes holds :: "rx_event list \<Rightarrow> u8 list \<Rightarrow> bool"
  assumes deliver: "holds es (bs @ rest) \<Longrightarrow> \<exists>es'. recv_n (length bs) es = (int (length bs), bs, es') \<and> holds es' rest"
begin

lemma recv:
  assumes "holds es (bs @ rest)" "length bs = n"
  obtains es' where "recv_n n es = (int n, bs, es')" "holds es' rest"
  using deliver [OF assms(1)] assms(2) by blast

end

interpretation closed: byte_stream closed_after
proof
  fix es bs rest assume "closed_after es (bs @ rest)"
  then have c: "rx_clean es" "rx_bytes es = bs @ rest" by (simp_all add: closed_after_def)
  show "\<exists>es'. recv_n (length bs) es = (int (length bs), bs, es') \<and> closed_after es' rest"
    by (rule recv_n_clean [OF c(1), of "length bs"]) (use c(2) in \<open>auto simp: closed_after_def\<close>)
qed

lemmas recv_loop_Cons = recv_loop.simps [of _ _ _ "e # es" for e es]

lemma recv_loop_append:
  "nleft \<le> length (rx_bytes es) \<Longrightarrow> rx_clean es \<Longrightarrow>
     recv_loop n nleft acc (es @ t) = (let (r, bs, es') = recv_loop n nleft acc es in (r, bs, es' @ t))"
proof (induction es arbitrary: nleft acc)
  case (Cons e es)
  show ?case
  proof (cases "nleft = 0")
    case False
    then show ?thesis
      using Cons by (cases e) (auto simp: recv_loop_Cons rx_clean_def)
  qed simp
qed simp

lemma recv_loop_stall:
  "length (rx_bytes es) < nleft \<Longrightarrow> rx_clean es \<Longrightarrow> recv_loop n nleft acc (es @ [RxFail]) = (- 1, acc @ rx_bytes es, [])"
proof (induction es arbitrary: nleft acc)
  case (Cons e es)
  then show ?case by (cases e) (auto simp: recv_loop_Cons rx_clean_def)
qed (simp add: recv_loop.simps)

lemma open_cases:
  assumes "open_after es bs" obtains pre where "es = pre @ [RxFail]" "rx_clean pre" "rx_bytes pre = bs"
  using assms by (metis append_butlast_last_id closed_after_def open_after_def)

lemma open_after_snoc: "open_after (pre @ [RxFail]) bs = closed_after pre bs"
  by (simp add: open_after_def)

interpretation waiting: byte_stream open_after
proof
  fix es bs rest assume "open_after es (bs @ rest)"
  then obtain pre where pre: "es = pre @ [RxFail]" "rx_clean pre" "rx_bytes pre = bs @ rest" by (rule open_cases)
  then have "closed_after pre (bs @ rest)" by (simp add: closed_after_def)
  then obtain pre' where r: "recv_n (length bs) pre = (int (length bs), bs, pre')" "closed_after pre' rest"
    by (rule closed.recv) simp
  then show "\<exists>es'. recv_n (length bs) es = (int (length bs), bs, es') \<and> open_after es' rest"
    using recv_loop_append [of "length bs" pre "length bs" "[]"] pre by (simp add: recv_n_def open_after_snoc)
qed

lemma recv_waits:
  assumes "open_after es bs" "length bs < n" obtains es' where "recv_n n es = (- 1, bs, es')"
proof -
  obtain pre where "es = pre @ [RxFail]" "rx_clean pre" "rx_bytes pre = bs" using assms(1) by (rule open_cases)
  with recv_loop_stall [of pre n n "[]"] assms(2) that show thesis by (simp add: recv_n_def)
qed

lemma closedI: "rx_clean es \<Longrightarrow> rx_bytes es = bs \<Longrightarrow> closed_after es bs"
  by (simp add: closed_after_def)

lemma open_exists: "\<exists>es. open_after es bs"
  by (rule exI [of _ "(if bs = [] then [] else [Data bs]) @ [RxFail]"]) (simp add: open_after_def closed_after_def rx_clean_def)

section \<open>What the callers may rely on\<close>

text \<open>
  C34: \<open>recv_n\<close>, for every behaviour of the socket: the bytes stored and the bytes still to come
  make up the stream, at most n are stored, and the result is -1 or their number. Where no read fails
  the result depends on the stream only, however it is cut into chunks and interrupted: all n bytes,
  or all there are before the peer closes.
\<close>

theorem recv_n_stream:
  assumes "recv_n n es = (r, bs, es')"
  shows "rx_bytes es = bs @ rx_bytes es' \<and> length bs \<le> n \<and> (r = - 1 \<or> r = int (length bs))
    \<and> (rx_clean es \<longrightarrow> r = int (length bs) \<and> bs = take n (rx_bytes es))"
proof (intro conjI impI)
  have loop: "recv_loop n n [] es = (r, bs, es')" using assms by (simp add: recv_n_def)
  note st = recv_loop_stream [OF _ _ loop, simplified]
  then show "rx_bytes es = bs @ rx_bytes es'" "length bs \<le> n" "r = - 1 \<or> r = int (length bs)" by blast+
  assume "rx_clean es"
  from recv_loop_clean [OF this _ _ loop]
  show "r = int (length bs)" "bs = take n (rx_bytes es)" by simp_all
qed

theorem recv_n_stream_witness:
  "recv_n 4 [Data [1, 2], RxIntr, Data [3], Data [4, 5]] = (4, [1, 2, 3, 4], [Data [5]])
    \<and> rx_bytes [Data [1, 2], RxIntr, Data [3], Data [4, 5]] = [1, 2, 3, 4] @ rx_bytes [Data [5]]"
proof
  show r: "recv_n 4 [Data [1, 2], RxIntr, Data [3], Data [4, 5]] = (4, [1, 2, 3, 4], [Data [5]])"
    by (simp add: recv_n_def recv_loop.simps)
  show "rx_bytes [Data [1, 2], RxIntr, Data [3], Data [4, 5]] = [1, 2, 3, 4] @ rx_bytes [Data [5]]"
    using recv_n_stream [OF r] by blast
qed

text \<open>
  \<open>send_n\<close>: either the whole buffer has gone out and the result is its length, or the result is
  -1 and exactly a proper prefix has; and it succeeds whenever no \<open>write()\<close> fails or accepts nothing,
  whatever the sizes accepted and however often a signal interrupts.
\<close>

theorem send_n_prefix:
  assumes "send_n buf es = (r, out, es')"
  shows "(if r = - 1 then \<exists>k < length buf. out = take k buf else r = int (length buf) \<and> out = buf)
    \<and> (TxFail \<notin> set es \<and> Accept 0 \<notin> set es \<longrightarrow> r = int (length buf))"
  using assms send_loop_prefix [of "length buf" buf "[]" es r out es'] send_loop_complete [of es "length buf" buf "[]"]
  by (auto simp: send_n_def)

theorem send_n_prefix_witness:
  "send_n [1, 2, 3] [Accept 1, TxIntr, TxFail] = (- 1, [1], []) \<and> (\<exists>k < length [1, 2, 3 :: u8]. [1] = take k [1, 2, 3 :: u8])"
proof
  show r: "send_n [1, 2, 3] [Accept 1, TxIntr, TxFail] = (- 1, [1], [])" by (simp add: send_n_def)
  show "\<exists>k < length [1, 2, 3 :: u8]. [1] = take k [1, 2, 3 :: u8]" using send_n_prefix [OF r] by simp
qed

end
