(* ===== verification/Protocol.thy ===== *)
theory Protocol
  imports Net_Wrapper
begin

text \<open>
  src/common/include/protocol.h and src/common/protocol.c: the message types and operation codes,
  the packed wire structures with their byte layout, and the checksum. A packed struct is sent and
  received as its bytes, little-endian; \<open>*_bytes\<close> writes them and \<open>*_of\<close> reads a struct off the
  front of a buffer. The \<open>double\<close> members are carried as their 64-bit patterns: no code reads them.
\<close>

section \<open>Message types and operation codes\<close>

definition MSG_TYPE_RIDE_REQ :: u8 where "MSG_TYPE_RIDE_REQ = 1"
definition MSG_TYPE_RIDE_RESP :: u8 where "MSG_TYPE_RIDE_RESP = 2"
definition MSG_TYPE_HANDSHAKE :: u8 where "MSG_TYPE_HANDSHAKE = 3"
definition MSG_TYPE_HANDSHAKE_ACK :: u8 where "MSG_TYPE_HANDSHAKE_ACK = 4"

definition OP_REQ_RIDE :: u16 where "OP_REQ_RIDE = 0x0001"
definition OP_DRIVER_JOIN :: u16 where "OP_DRIVER_JOIN = 0x0002"
definition OP_UPDATE_LOC :: u16 where "OP_UPDATE_LOC = 0x0003"
definition OP_RESPONSE :: u16 where "OP_RESPONSE = 0x8000"
definition OP_HANDSHAKE :: u16 where "OP_HANDSHAKE = 0x0004"

lemmas protocol_consts =
  MSG_TYPE_RIDE_REQ_def MSG_TYPE_RIDE_RESP_def MSG_TYPE_HANDSHAKE_def MSG_TYPE_HANDSHAKE_ACK_def
  OP_REQ_RIDE_def OP_DRIVER_JOIN_def OP_UPDATE_LOC_def OP_RESPONSE_def OP_HANDSHAKE_def

section \<open>Wire structures\<close>

record ProtocolHeader =
  h_length :: u32
  h_type :: u8
  h_opcode :: u16
  h_checksum :: u16

definition header_bytes :: "ProtocolHeader \<Rightarrow> u8 list" where
  "header_bytes h = le_encode 4 (unat (h_length h)) @ [h_type h]
     @ le_encode 2 (unat (h_opcode h)) @ le_encode 2 (unat (h_checksum h))"

definition header_of :: "u8 list \<Rightarrow> ProtocolHeader" where
  "header_of bs = \<lparr>h_length = of_nat (le_decode (take 4 bs)), h_type = bs ! 4,
     h_opcode = of_nat (le_decode (take 2 (drop 5 bs))),
     h_checksum = of_nat (le_decode (take 2 (drop 7 bs)))\<rparr>"

definition header_size :: nat where "header_size = 9"

record HandshakeData =
  public_key :: u64

definition handshake_bytes :: "HandshakeData \<Rightarrow> u8 list" where
  "handshake_bytes d = le_encode 8 (unat (public_key d))"

definition handshake_of :: "u8 list \<Rightarrow> HandshakeData" where
  "handshake_of bs = \<lparr>public_key = of_nat (le_decode (take 8 bs))\<rparr>"

definition handshake_size :: nat where "handshake_size = 8"

record RideRequestData =
  req_client_id :: u32
  req_type :: u32
  req_lat :: u64
  req_lon :: u64

definition ride_request_bytes :: "RideRequestData \<Rightarrow> u8 list" where
  "ride_request_bytes d = le_encode 4 (unat (req_client_id d)) @ le_encode 4 (unat (req_type d))
     @ le_encode 8 (unat (req_lat d)) @ le_encode 8 (unat (req_lon d))"

definition ride_request_of :: "u8 list \<Rightarrow> RideRequestData" where
  "ride_request_of bs = \<lparr>req_client_id = of_nat (le_decode (take 4 bs)),
     req_type = of_nat (le_decode (take 4 (drop 4 bs))),
     req_lat = of_nat (le_decode (take 8 (drop 8 bs))),
     req_lon = of_nat (le_decode (take 8 (drop 16 bs)))\<rparr>"

definition ride_request_size :: nat where "ride_request_size = 24"

record DriverJoinData =
  join_driver_id :: u32

definition driver_join_bytes :: "DriverJoinData \<Rightarrow> u8 list" where
  "driver_join_bytes d = le_encode 4 (unat (join_driver_id d))"

definition driver_join_of :: "u8 list \<Rightarrow> DriverJoinData" where
  "driver_join_of bs = \<lparr>join_driver_id = of_nat (le_decode (take 4 bs))\<rparr>"

definition driver_join_size :: nat where "driver_join_size = 4"

text \<open>
  The interface between a wire structure and the code that sends and receives it: a fixed size,
  and reading returns what was written, whatever follows it in the buffer.
\<close>

locale wire_struct =
  fixes enc :: "'a \<Rightarrow> u8 list" and dec :: "u8 list \<Rightarrow> 'a" and struct_size :: nat
  assumes enc_length: "length (enc x) = struct_size"
    and dec_enc: "dec (enc x @ rest) = x"
begin

lemma enc_inject: "enc x = enc y \<longleftrightarrow> x = y"
  by (metis dec_enc)

lemma dec_overlay: "dec (overlay (enc x) buf) = x"
  by (simp add: overlay_def dec_enc)

lemma recv_struct:
  assumes "rx_clean es" "rx_bytes es = enc x @ rest"
  shows "\<exists>es'. recv_n struct_size es = (int struct_size, enc x, es') \<and> rx_clean es' \<and> rx_bytes es' = rest"
proof -
  obtain es' where "recv_n struct_size es =
      (int (min struct_size (length (rx_bytes es))), take struct_size (rx_bytes es), es')"
    "rx_clean es'" "rx_bytes es' = drop struct_size (rx_bytes es)"
    by (rule recv_n_clean [OF assms(1)])
  then show ?thesis using assms(2) enc_length [of x] by auto
qed

end

interpretation hdr: wire_struct header_bytes header_of header_size
proof unfold_locales
  fix h :: ProtocolHeader and rest
  have "take 4 (le_encode 4 n @ bs) = le_encode 4 n" "drop 5 (le_encode 4 n @ b # bs) = bs"
    "drop 7 (le_encode 4 n @ b # le_encode 2 m @ bs) = bs" "take 2 (le_encode 2 m @ bs) = le_encode 2 m"
    "(le_encode 4 n @ b # bs) ! 4 = b" for n m b bs
    by (simp_all add: nth_append)
  then show "header_of (header_bytes h @ rest) = h"
    by (simp add: header_of_def header_bytes_def of_nat_le_decode_unat)
qed (simp add: header_bytes_def header_size_def)

interpretation hsk: wire_struct handshake_bytes handshake_of handshake_size
  by unfold_locales (simp_all add: handshake_bytes_def handshake_of_def handshake_size_def of_nat_le_decode_unat)

interpretation rrq: wire_struct ride_request_bytes ride_request_of ride_request_size
  by unfold_locales (simp_all add: ride_request_bytes_def ride_request_of_def ride_request_size_def of_nat_le_decode_unat)

interpretation djn: wire_struct driver_join_bytes driver_join_of driver_join_size
  by unfold_locales (simp_all add: driver_join_bytes_def driver_join_of_def driver_join_size_def of_nat_le_decode_unat)

section \<open>The checksum\<close>

fun checksum_sum :: "u32 \<Rightarrow> u8 list \<Rightarrow> u32" where
  "checksum_sum s [] = s"
| "checksum_sum s (b # bs) = checksum_sum (s + ucast b) bs"

lemma unat_drop16: "unat (drop_bit 16 (s :: u32)) = unat s div 65536"
  by (subst unat_drop_bit_eq) (simp add: drop_bit_eq_div)

lemma unat_low16: "unat (s AND 0xFFFF :: u32) = unat s mod 65536"
proof -
  have "s AND 0xFFFF = take_bit 16 s"
    by (simp add: take_bit_eq_mask mask_eq_exp_minus_1)
  then show ?thesis by (simp only: unsigned_take_bit_eq) (simp add: take_bit_eq_mod)
qed

lemma unat_fold_step:
  "unat ((s AND 0xFFFF) + drop_bit 16 (s :: u32)) = unat s mod 65536 + unat s div 65536"
proof -
  have "unat s < 2 ^ 32" using unsigned_less [of s, where ?'a = nat] by simp
  then have "unat s mod 65536 + unat s div 65536 < 2 ^ 32" by simp
  then show ?thesis by (simp add: unat_add_lem unat_drop16 unat_low16 unat_word_ariths)
qed

lemma drop16_eq_0: "drop_bit 16 (s :: u32) = 0 \<longleftrightarrow> unat s < 65536"
proof -
  have "drop_bit 16 s = 0 \<longleftrightarrow> unat s div 65536 = 0"
    by (simp only: unat_drop16 flip: unat_eq_0)
  then show ?thesis by (simp add: div_eq_0_iff)
qed

lemma fold_decreases:
  fixes s :: u32
  assumes "drop_bit 16 s \<noteq> 0"
  shows "unat ((s AND 0xFFFF) + drop_bit 16 s) < unat s"
proof -
  have "65536 \<le> unat s" using assms by (simp only: drop16_eq_0 not_less)
  then have "0 < unat s div 65536" by (simp add: div_greater_zero_iff)
  moreover have "unat s = 65536 * (unat s div 65536) + unat s mod 65536"
    by (rule mult_div_mod_eq [symmetric])
  ultimately show ?thesis unfolding unat_fold_step by linarith
qed

function checksum_fold :: "u32 \<Rightarrow> u32" where
  "checksum_fold s = (if drop_bit 16 s \<noteq> 0 then checksum_fold ((s AND 0xFFFF) + drop_bit 16 s) else s)"
  by pat_completeness auto
termination
  by (relation "measure unat") (auto dest: fold_decreases)

declare checksum_fold.simps [simp del]

definition calculate_checksum :: "u8 list \<Rightarrow> u16" where
  "calculate_checksum data = ucast (NOT (checksum_fold (checksum_sum 0 data)))"

text \<open>
  The loop reduces the sum modulo 65535, with representative 65535 instead of 0 for a sum that is
  not 0 (one's complement addition).
\<close>

definition ones_residue :: "nat \<Rightarrow> nat" where
  "ones_residue s = (if s = 0 then 0 else (s - 1) mod 65535 + 1)"

lemma ones_residue_fold: "65536 \<le> s \<Longrightarrow> ones_residue (s mod 65536 + s div 65536) = ones_residue s"
proof -
  assume s: "65536 \<le> s"
  define t where "t = s mod 65536 + s div 65536"
  have "0 < s div 65536" using s by (simp add: div_greater_zero_iff)
  then have "0 < t" by (simp add: t_def)
  have "s = t + 65535 * (s div 65536)"
    using mult_div_mod_eq [of 65536 s] by (simp add: t_def)
  then have "s - 1 = (t - 1) + 65535 * (s div 65536)" using \<open>0 < t\<close> by linarith
  then have "(s - 1) mod 65535 = (t - 1) mod 65535" by (metis mod_mult_self2)
  then show ?thesis using \<open>0 < t\<close> s by (simp add: ones_residue_def t_def)
qed

lemma unat_checksum_fold: "unat (checksum_fold s) = ones_residue (unat s)"
proof (induction s rule: checksum_fold.induct)
  case (1 s)
  show ?case
  proof (cases "drop_bit 16 s = 0")
    case True
    then show ?thesis
      by (simp add: checksum_fold.simps [of s] ones_residue_def drop16_eq_0)
  next
    case False
    with "1.IH" show ?thesis
      by (simp add: checksum_fold.simps [of s] unat_fold_step ones_residue_fold drop16_eq_0)
  qed
qed

definition byte_sum :: "u8 list \<Rightarrow> nat" where
  "byte_sum bs = sum_list (map unat bs)"

lemma byte_sum_simps [simp]: "byte_sum [] = 0" "byte_sum (b # bs) = unat b + byte_sum bs"
  "byte_sum (bs @ cs) = byte_sum bs + byte_sum cs"
  by (simp_all add: byte_sum_def)

lemma byte_sum_bound: "byte_sum bs \<le> 255 * length bs"
proof (induction bs)
  case (Cons b bs)
  have "unat b < 256" using unsigned_less [of b, where ?'a = nat] by simp
  with Cons show ?case by simp
qed simp

lemma unat_checksum_sum: "unat (checksum_sum s bs) = (unat s + byte_sum bs) mod 2 ^ 32"
proof (induction s bs rule: checksum_sum.induct)
  case (2 s b bs)
  have "unat b < 2 ^ 32" using unsigned_less [of b, where ?'a = nat] by simp
  then have "unat (s + ucast b) = (unat s + unat b) mod 2 ^ 32"
    by (simp add: unat_word_ariths unsigned_ucast_eq take_bit_nat_eq_self)
  with 2 show ?case by (simp add: mod_simps ac_simps)
next
  case (1 s)
  have "unat s < 2 ^ 32" using unsigned_less [of s, where ?'a = nat] by simp
  then show ?case by simp
qed

lemma ones_residue_le: "ones_residue s \<le> 65535"
proof -
  have "(s - 1) mod 65535 < 65535" by (rule mod_less_divisor) simp
  moreover have "s \<noteq> 0 \<Longrightarrow> ones_residue s = (s - 1) mod 65535 + 1" by (simp add: ones_residue_def)
  ultimately show ?thesis by (cases "s = 0") (simp add: ones_residue_def, linarith)
qed

text \<open>
  The packet bodies are at most 1024 bytes (protocol buffers); there the 32-bit sum cannot wrap,
  and the checksum is the complement of the one's complement sum of the bytes.
\<close>

lemma unat_complement_u16:
  fixes w :: u32
  assumes "unat w \<le> 65535"
  shows "unat (ucast (NOT w) :: u16) = 65535 - unat w"
proof -
  have "NOT w = - 1 - w" by (simp add: not_eq_complement)
  moreover have "unat (- 1 :: u32) = 4294967295"
    by (simp add: unsigned_minus_1_eq_mask mask_eq_exp_minus_1)
  then have "unat (- 1 - w) = 4294967295 - unat w"
    by (subst unat_sub) simp_all
  ultimately have "unat (ucast (NOT w) :: u16) = (4294967295 - unat w) mod 65536"
    by (simp add: unsigned_ucast_eq take_bit_eq_mod)
  also have "4294967295 - unat w = (65535 - unat w) + 65535 * 65536"
    using assms by simp
  also have "\<dots> mod 65536 = 65535 - unat w"
    unfolding mod_mult_self1 by simp
  finally show ?thesis .
qed

lemma unat_calculate_checksum:
  assumes "length data \<le> 16843009"
  shows "unat (calculate_checksum data) = 65535 - ones_residue (byte_sum data)"
proof -
  have "byte_sum data < 2 ^ 32"
    using byte_sum_bound [of data] assms by simp
  then have "unat (checksum_fold (checksum_sum 0 data)) = ones_residue (byte_sum data)"
    by (simp add: unat_checksum_fold unat_checksum_sum)
  then show ?thesis
    by (simp add: calculate_checksum_def unat_complement_u16 ones_residue_le)
qed

lemma checksum_eq_iff:
  assumes "length a \<le> 16843009" "length b \<le> 16843009"
  shows "calculate_checksum a = calculate_checksum b
    \<longleftrightarrow> ones_residue (byte_sum a) = ones_residue (byte_sum b)"
proof -
  have "calculate_checksum a = calculate_checksum b
    \<longleftrightarrow> unat (calculate_checksum a) = unat (calculate_checksum b)"
    by (rule word_unat_eq_iff)
  also have "\<dots> \<longleftrightarrow> ones_residue (byte_sum a) = ones_residue (byte_sum b)"
    using ones_residue_le [of "byte_sum a"] ones_residue_le [of "byte_sum b"]
    by (simp only: unat_calculate_checksum assms) linarith
  finally show ?thesis .
qed

text \<open>Two sums less than 65535 apart have different residues.\<close>

lemma ones_residue_close:
  assumes "s < t" "t - s < 65535"
  shows "ones_residue s \<noteq> ones_residue t"
proof (cases "s = 0")
  case True
  with assms show ?thesis by (simp add: ones_residue_def)
next
  case False
  show ?thesis
  proof
    assume "ones_residue s = ones_residue t"
    with False assms(1) have "(t - 1) mod 65535 = (s - 1) mod 65535"
      by (simp add: ones_residue_def)
    then have "65535 dvd (t - 1) - (s - 1)"
      using assms(1) by (subst (asm) mod_eq_dvd_iff_nat) auto
    moreover have "(t - 1) - (s - 1) = t - s" using False assms(1) by simp
    ultimately have "65535 dvd t - s" by simp
    with assms show False by (auto dest: dvd_imp_le)
  qed
qed

section \<open>What sender and receiver may rely on\<close>


text \<open>
  C39: the checksum of a packet body is the complement of the one's complement sum of its bytes (the
  32-bit sum does not wrap, the fold ends), so it does not see the order of the bytes.
\<close>

theorem checksum_exact:
  assumes "length data \<le> 1024"
  shows "unat (calculate_checksum data) = 65535 - (if byte_sum data = 0 then 0 else (byte_sum data - 1) mod 65535 + 1)
    \<and> (mset data' = mset data \<longrightarrow> calculate_checksum data' = calculate_checksum data)"
proof
  show "unat (calculate_checksum data) = 65535 - (if byte_sum data = 0 then 0 else (byte_sum data - 1) mod 65535 + 1)"
    using unat_calculate_checksum [of data] assms by (simp add: ones_residue_def)
  show "mset data' = mset data \<longrightarrow> calculate_checksum data' = calculate_checksum data"
  proof
    assume "mset data' = mset data"
    then have "length data' = length data" "byte_sum data' = byte_sum data"
      by (auto simp: byte_sum_def dest: mset_eq_length simp flip: sum_mset_sum_list)
    then show "calculate_checksum data' = calculate_checksum data"
      using checksum_eq_iff [of data' data] assms by simp
  qed
qed

theorem checksum_exact_witness:
  "unat (calculate_checksum [1, 2]) = 65532 \<and> calculate_checksum [2, 1] = calculate_checksum [1, 2]"
  using checksum_exact [of "[1, 2]" "[2, 1]"] by simp

end
