(* ===== verification/Coordinator.thy ===== *)
theory Coordinator
  imports Driver_Status Protocol
begin

text \<open>
  src/server/coordinator.c without its worker pool: saving and loading the shared state,
  \<open>ipc_init\<close>, and \<open>process_driver_join\<close>. A connection is a record of the two directions of the
  socket and the stack buffers of the function that serves it. The save file is missing, too short
  for a \<open>SharedState\<close>, or an image of one.
\<close>

section \<open>Connections\<close>

record Conn =
  rx :: "rx_event list"
  tx :: "tx_event list"
  sent :: "u8 list"
  header_buf :: "u8 list"
  body_buf :: "u8 list"
  session_key :: string
  is_key_established :: bool

definition send_bytes :: "u8 list \<Rightarrow> Conn \<Rightarrow> Conn" where
  "send_bytes bs c = (let (r, out, tx') = send_n bs (tx c) in c\<lparr>tx := tx', sent := sent c @ out\<rparr>)"

lemma send_bytes_frame [simp]:
  "rx (send_bytes bs c) = rx c" "header_buf (send_bytes bs c) = header_buf c"
  "body_buf (send_bytes bs c) = body_buf c" "session_key (send_bytes bs c) = session_key c"
  "is_key_established (send_bytes bs c) = is_key_established c"
  by (simp_all add: send_bytes_def split_beta Let_def)

lemma send_bytes_reliable [simp]: "tx c = [] \<Longrightarrow> send_bytes bs c = c\<lparr>sent := sent c @ bs\<rparr>"
  by (simp add: send_bytes_def)

section \<open>Persistence and start-up\<close>

datatype save_file = NoFile | ShortFile | Image SharedState

text \<open>
  What \<open>open()\<close> and \<open>write()\<close> did: the file cannot be opened and stays as it was; it was opened,
  and so emptied, but not written in full; or it holds the whole state.
\<close>

datatype write_result = CannotOpen | ShortWrite | FullWrite

definition save_state :: "write_result \<Rightarrow> SharedState \<Rightarrow> save_file \<Rightarrow> save_file" where
  "save_state wr s f = (case wr of CannotOpen \<Rightarrow> f | ShortWrite \<Rightarrow> ShortFile | FullWrite \<Rightarrow> Image s)"

text \<open>The loaded flag and the memory afterwards; a short file leaves \<open>garbage\<close> behind.\<close>

definition load_state :: "SharedState \<Rightarrow> save_file \<Rightarrow> SharedState \<Rightarrow> bool \<times> SharedState" where
  "load_state garbage f s =
     (case f of NoFile \<Rightarrow> (False, s) | ShortFile \<Rightarrow> (False, garbage) | Image s' \<Rightarrow> (True, s'))"

definition fresh_driver :: "nat \<Rightarrow> Driver \<Rightarrow> Driver" where
  "fresh_driver i d =
     d\<lparr>driver_id := 1000 + of_nat i, is_available := True,
       d_lat := BASE_LAT + d_of_int (int i) * d_lit (1 / 1000),
       d_lon := BASE_LON + d_of_int (int i) * d_lit (1 / 1000), fuel := 10\<rparr>"

definition init_drivers :: "(nat \<Rightarrow> Driver \<Rightarrow> Driver) \<Rightarrow> SharedState \<Rightarrow> SharedState" where
  "init_drivers f s = fold (\<lambda>i. update_driver i (f i)) [0..<nat (driver_count s)] s"

definition ipc_init :: "SharedState \<Rightarrow> save_file \<Rightarrow> int \<Rightarrow> SharedState" where
  "ipc_init garbage f n =
     (let (loaded, s) = load_state garbage f zero_state in
      if \<not> loaded then
        let n = (if int MAX_DRIVERS < n then int MAX_DRIVERS else n)
        in init_drivers fresh_driver (zero_state\<lparr>driver_count := n\<rparr>)
      else init_drivers (\<lambda>i d. d\<lparr>is_available := True\<rparr>) s)"

text \<open>The process exits when \<open>mmap\<close> fails, and otherwise has the memory filled as above.\<close>

definition ipc_start :: "bool \<Rightarrow> SharedState \<Rightarrow> save_file \<Rightarrow> int \<Rightarrow> SharedState option" where
  "ipc_start mmap_ok garbage f n = (if mmap_ok then Some (ipc_init garbage f n) else None)"

text \<open>
  The pointer \<open>g_shared_state\<close>: \<open>NULL\<close>, into the mapping, or to where the mapping was. \<open>ipc_cleanup\<close>
  unmaps it and sets it to \<open>NULL\<close>.
\<close>

datatype pointer = Null | Mapped SharedState | Dangling

fun ipc_cleanup :: "pointer \<Rightarrow> pointer" where
  "ipc_cleanup Null = Null"
| "ipc_cleanup (Mapped s) = Null"
| "ipc_cleanup Dangling = Null"

section \<open>A driver joins\<close>

definition join_driver :: "u32 \<Rightarrow> SharedState \<Rightarrow> SharedState" where
  "join_driver w s =
     (if driver_count s < int MAX_DRIVERS
      then let idx = nat (driver_count s)
           in update_driver idx (\<lambda>d. d\<lparr>driver_id := w, is_available := True, fuel := 10\<rparr>)
                (s\<lparr>driver_count := driver_count s + 1\<rparr>)
      else s)"

definition join_reply :: ProtocolHeader where
  "join_reply = \<lparr>h_length = 0, h_type = MSG_TYPE_RIDE_RESP, h_opcode = OP_RESPONSE, h_checksum = 0\<rparr>"

definition process_driver_join :: "Conn \<Rightarrow> SharedState \<Rightarrow> Conn \<times> SharedState" where
  "process_driver_join c s =
     (send_bytes (header_bytes join_reply) c, join_driver (join_driver_id (driver_join_of (body_buf c))) s)"

section \<open>Facts\<close>

lemma init_drivers_frame:
  "driver_count (init_drivers f s) = driver_count s \<and> wf_state (init_drivers f s) = wf_state s
   \<and> total_requests_handled (init_drivers f s) = total_requests_handled s
   \<and> total_success_requests (init_drivers f s) = total_success_requests s
   \<and> total_revenue (init_drivers f s) = total_revenue s
   \<and> client_last_seen (init_drivers f s) = client_last_seen s
   \<and> client_req_count (init_drivers f s) = client_req_count s
   \<and> dispatch_mode (init_drivers f s) = dispatch_mode s"
proof -
  have "driver_count (fold (\<lambda>i. update_driver i (f i)) is s) = driver_count s
     \<and> wf_state (fold (\<lambda>i. update_driver i (f i)) is s) = wf_state s
     \<and> total_requests_handled (fold (\<lambda>i. update_driver i (f i)) is s) = total_requests_handled s
     \<and> total_success_requests (fold (\<lambda>i. update_driver i (f i)) is s) = total_success_requests s
     \<and> total_revenue (fold (\<lambda>i. update_driver i (f i)) is s) = total_revenue s
     \<and> client_last_seen (fold (\<lambda>i. update_driver i (f i)) is s) = client_last_seen s
     \<and> client_req_count (fold (\<lambda>i. update_driver i (f i)) is s) = client_req_count s
     \<and> dispatch_mode (fold (\<lambda>i. update_driver i (f i)) is s) = dispatch_mode s" for "is"
    by (induction "is" arbitrary: s) simp_all
  then show ?thesis unfolding init_drivers_def by blast
qed

lemma init_drivers_nth:
  "distinct is \<Longrightarrow> \<forall>i \<in> set is. i < length (drivers s) \<Longrightarrow> j < length (drivers s) \<Longrightarrow>
     length (drivers (fold (\<lambda>i. update_driver i (f i)) is s)) = length (drivers s)
     \<and> drivers (fold (\<lambda>i. update_driver i (f i)) is s) ! j = (if j \<in> set is then f j (drivers s ! j) else drivers s ! j)"
proof (induction "is" arbitrary: s)
  case (Cons i "is")
  have "length (drivers (update_driver i (f i) s)) = length (drivers s)" by (simp add: update_driver_def)
  moreover have "drivers (update_driver i (f i) s) ! j = (if j = i then f i (drivers s ! i) else drivers s ! j)"
    using Cons.prems by (simp add: update_driver_def)
  ultimately show ?case using Cons.IH [of "update_driver i (f i) s"] Cons.prems by auto
qed simp

lemma init_drivers_cell:
  assumes "wf_state s" "j < MAX_DRIVERS"
  shows "drivers (init_drivers f s) ! j = (if j < nat (driver_count s) then f j (drivers s ! j) else drivers s ! j)"
proof -
  have r: "\<forall>i \<in> set [0..<nat (driver_count s)]. i < length (drivers s)" "j < length (drivers s)"
    using assms by (auto simp: wf_state_def)
  show ?thesis
    using init_drivers_nth [OF distinct_upt r, of f] by (simp add: init_drivers_def)
qed

lemma state_ok_nth:
  assumes "wf_state s" "0 \<le> driver_count s" "total_success_requests s = total_requests_handled s"
    and "\<And>j. j < nat (driver_count s) \<Longrightarrow> driver_ok (drivers s ! j)"
    and "\<And>j. nat (driver_count s) \<le> j \<Longrightarrow> j < MAX_DRIVERS \<Longrightarrow> drivers s ! j = zero_driver"
  shows "state_ok s"
  using assms by (auto simp: state_ok_def in_set_conv_nth active_drivers_def wf_state_def)

lemma state_okE:
  assumes "state_ok s"
  shows "j < nat (driver_count s) \<Longrightarrow> driver_ok (drivers s ! j)"
    "nat (driver_count s) \<le> j \<Longrightarrow> j < MAX_DRIVERS \<Longrightarrow> drivers s ! j = zero_driver"
proof -
  note ok = state_okD [OF assms]
  show "driver_ok (drivers s ! j)" if "j < nat (driver_count s)"
    using ok(3) that length_active_drivers [OF ok(1)] by (metis active_drivers_nth nth_mem)
  show "drivers s ! j = zero_driver" if j: "nat (driver_count s) \<le> j" "j < MAX_DRIVERS"
  proof -
    have "length (drivers s) = MAX_DRIVERS" using ok(1) by (simp add: wf_state_def)
    then have "drivers s ! j = drop (nat (driver_count s)) (drivers s) ! (j - nat (driver_count s))"
      "j - nat (driver_count s) < length (drop (nat (driver_count s)) (drivers s))"
      using j by simp_all
    with ok(4) show ?thesis by (metis nth_mem)
  qed
qed

lemma join_driver_ok:
  assumes "state_ok s" shows "state_ok (join_driver w s)"
proof (cases "driver_count s < int MAX_DRIVERS")
  case True
  note ok = state_okD [OF assms] and at = state_okE [OF assms]
  let ?i = "nat (driver_count s)"
  have len: "length (drivers s) = MAX_DRIVERS" "?i < MAX_DRIVERS" using ok(1,2) True by (auto simp: wf_state_def)
  have cell: "drivers (join_driver w s) ! j =
      (if j = ?i then zero_driver\<lparr>driver_id := w, is_available := True, fuel := 10\<rparr> else drivers s ! j)"
    if "j < MAX_DRIVERS" for j
    using that len at(2) [of ?i] True by (simp add: join_driver_def update_driver_def Let_def)
  have count: "driver_count (join_driver w s) = driver_count s + 1"
    using True by (simp add: join_driver_def Let_def)
  have new: "driver_ok (zero_driver\<lparr>driver_id := w, is_available := True, fuel := 10\<rparr>)"
    by (simp add: driver_ok_def one_status_def near_def zero_driver_def)
  show ?thesis
  proof (rule state_ok_nth)
    show "wf_state (join_driver w s)"
      using ok(1) True by (simp add: join_driver_def wf_state_def update_driver_def Let_def)
    show "0 \<le> driver_count (join_driver w s)" using count ok(2) by simp
    show "total_success_requests (join_driver w s) = total_requests_handled (join_driver w s)"
      using ok(5) by (simp add: join_driver_def Let_def)
    fix j assume "j < nat (driver_count (join_driver w s))"
    then have "j < ?i \<or> j = ?i" using count ok(2) by auto
    then show "driver_ok (drivers (join_driver w s) ! j)" using cell [of j] len(2) at(1) [of j] new by auto
  next
    fix j assume "nat (driver_count (join_driver w s)) \<le> j" "j < MAX_DRIVERS"
    then show "drivers (join_driver w s) ! j = zero_driver" using cell [of j] at(2) [of j] count ok(2) by auto
  qed
qed (use assms in \<open>simp add: join_driver_def\<close>)


lemma fresh_driver_ok:
  assumes "i < MAX_DRIVERS" shows "driver_ok (fresh_driver i zero_driver)"
proof -
  have step: "a \<le> b \<Longrightarrow> rat_of (base + d_of_int a * d_lit (1 / 1000)) \<le> rat_of (base + d_of_int b * d_lit (1 / 1000))"
    for base a b
    unfolding rat_of_ops by (intro rnd_mono add_left_mono mult_right_mono rnd_nonneg) simp_all
  have mono: "rat_of (base + d_of_int 0 * d_lit (1 / 1000)) \<le> rat_of (base + d_of_int (int i) * d_lit (1 / 1000))"
    "rat_of (base + d_of_int (int i) * d_lit (1 / 1000)) \<le> rat_of (base + d_of_int 255 * d_lit (1 / 1000))" for base
    using assms by (auto intro!: step simp: MAX_DRIVERS_def simp del: rat_of_ops)
  have hi: "rat_of (BASE_LAT + d_of_int 255 * d_lit (1 / 1000)) \<le> 1000"
    "rat_of (BASE_LON + d_of_int 255 * d_lit (1 / 1000)) \<le> 1000"
    by (simp_all add: BASE_LAT_def BASE_LON_def double_eval)
  have lo: "0 \<le> rat_of (BASE_LAT + d_of_int 0 * d_lit (1 / 1000))" "0 \<le> rat_of (BASE_LON + d_of_int 0 * d_lit (1 / 1000))"
    by (simp_all add: BASE_LAT_def BASE_LON_def rnd_nonneg)
  have "\<bar>rat_of (BASE_LAT + d_of_int (int i) * d_lit (1 / 1000))\<bar> \<le> 1000"
    "\<bar>rat_of (BASE_LON + d_of_int (int i) * d_lit (1 / 1000))\<bar> \<le> 1000"
    using mono [of BASE_LAT] mono [of BASE_LON] hi lo by linarith+
  then show ?thesis
    by (simp add: driver_ok_def one_status_def near_def fresh_driver_def zero_driver_def del: rat_of_ops)
qed

lemma ipc_init_fresh_cell:
  assumes "0 \<le> n" "\<And>s. f \<noteq> Image s"
  shows "driver_count (ipc_init g f n) = min n 256" "wf_state (ipc_init g f n)"
    "total_success_requests (ipc_init g f n) = total_requests_handled (ipc_init g f n)"
    "j < MAX_DRIVERS \<Longrightarrow> drivers (ipc_init g f n) ! j = (if int j < n then fresh_driver j zero_driver else zero_driver)"
proof -
  let ?z = "zero_state\<lparr>driver_count := min n 256\<rparr>"
  have i: "ipc_init g f n = init_drivers fresh_driver ?z"
    using assms(2) by (cases f) (auto simp: ipc_init_def load_state_def min_def MAX_DRIVERS_def)
  have wf: "wf_state ?z" by (simp add: wf_state_def zero_state_def MAX_DRIVERS_def)
  show "driver_count (ipc_init g f n) = min n 256" "wf_state (ipc_init g f n)"
    "total_success_requests (ipc_init g f n) = total_requests_handled (ipc_init g f n)"
    using init_drivers_frame [of fresh_driver ?z] wf by (simp_all add: i zero_state_def)
  show "j < MAX_DRIVERS \<Longrightarrow> drivers (ipc_init g f n) ! j = (if int j < n then fresh_driver j zero_driver else zero_driver)"
    using init_drivers_cell [OF wf, of j fresh_driver] assms(1)
    by (auto simp: i zero_state_def MAX_DRIVERS_def)
qed

lemma fresh_init_ok:
  assumes "0 \<le> n" "f = NoFile \<or> f = ShortFile"
  shows "state_ok (ipc_init garbage f n)"
proof -
  have "\<And>s. f \<noteq> Image s" using assms(2) by auto
  note init = ipc_init_fresh_cell [OF assms(1) this, where g = garbage]
  show ?thesis
    by (rule state_ok_nth) (use init fresh_driver_ok assms(1) in \<open>auto simp: MAX_DRIVERS_def\<close>)
qed

section \<open>Properties\<close>

text \<open>
  a fresh start of the coordinator gives a consistent shared state with at most 256 drivers,
  whatever count was asked for, all of them available with a full tank and numbered from 1000.
\<close>

theorem ipc_init_fresh:
  assumes "0 \<le> n" "f = NoFile \<or> f = ShortFile"
  shows "state_ok (ipc_init garbage f n) \<and> driver_count (ipc_init garbage f n) = min n 256
    \<and> (\<forall>j < nat (min n 256). driver_id (drivers (ipc_init garbage f n) ! j) = 1000 + of_nat j
         \<and> status_of (drivers (ipc_init garbage f n) ! j) = Available \<and> fuel (drivers (ipc_init garbage f n) ! j) = 10)"
proof -
  have ni: "\<And>s. f \<noteq> Image s" using assms(2) by auto
  note init = ipc_init_fresh_cell [OF assms(1) ni, where g = garbage]
  have "state_ok (ipc_init garbage f n)" by (rule fresh_init_ok [OF assms])
  moreover have "driver_id (drivers (ipc_init garbage f n) ! j) = 1000 + of_nat j
         \<and> status_of (drivers (ipc_init garbage f n) ! j) = Available \<and> fuel (drivers (ipc_init garbage f n) ! j) = 10"
    if "j < nat (min n 256)" for j
    using init(4) [of j] that by (simp add: MAX_DRIVERS_def fresh_driver_def zero_driver_def status_of_def)
  ultimately show ?thesis using init(1) by blast
qed

theorem ipc_init_fresh_witness:
  "driver_count (ipc_init zero_state NoFile 1000) = 256 \<and> state_ok (ipc_init zero_state NoFile 1000)"
  using ipc_init_fresh [of 1000 NoFile zero_state] by simp

text \<open>
  restoring a saved state sets \<open>is_available\<close> for every driver but keeps its target, so a driver
  saved on a trip comes back both available and navigating: the restored state is inconsistent.
\<close>

theorem ipc_init_restore_breaks:
  assumes "state_ok s" "i < nat (driver_count s)" "status_of (drivers s ! i) = Navigating"
  shows "let d = drivers (ipc_init garbage (save_state FullWrite s f) n) ! i in is_available d \<and> has_target d \<and> \<not> driver_ok d"
proof -
  note ok = state_okD [OF assms(1)]
  have i: "i < MAX_DRIVERS" using assms(2) ok(1) by (auto simp: wf_state_def)
  have t: "has_target (drivers s ! i)"
    using assms(3) state_okE(1) [OF assms(1,2)] by (simp add: driver_ok_status)
  have "drivers (ipc_init garbage (save_state FullWrite s f) n) ! i = (drivers s ! i)\<lparr>is_available := True\<rparr>"
    using init_drivers_cell [OF ok(1) i, of "\<lambda>i d. d\<lparr>is_available := True\<rparr>"] assms(2)
    by (simp add: ipc_init_def load_state_def save_state_def)
  then show ?thesis using t by (simp add: driver_ok_def one_status_def)
qed

definition one_busy :: SharedState where
  "one_busy = zero_state\<lparr>driver_count := 1, drivers :=
     zero_driver\<lparr>has_target := True, target_lat := BASE_LAT, target_lon := BASE_LON, fuel := 5\<rparr> # replicate 255 zero_driver\<rparr>"

theorem ipc_init_restore_breaks_witness:
  "\<not> driver_ok (drivers (ipc_init zero_state (save_state FullWrite one_busy NoFile) 5) ! 0)"
proof -
  have "state_ok one_busy"
    by (simp add: state_ok_def one_busy_def active_drivers_def wf_state_def zero_state_def MAX_DRIVERS_def)
      (simp add: driver_ok_def one_status_def near_def target_on_map_def zero_driver_def)
  from ipc_init_restore_breaks [OF this, of 0 zero_state NoFile 5] show ?thesis
    by (simp add: one_busy_def status_of_def zero_driver_def Let_def)
qed

text \<open>
  a driver that joins gets the next free entry, available with a full tank, and the state stays
  consistent; when all 256 entries are taken the state is unchanged, and the reply is the same in
  both cases.
\<close>

theorem driver_join_spec:
  assumes "state_ok s" "tx c = []" "process_driver_join c s = (c', s')"
  shows "state_ok s' \<and> sent c' = sent c @ header_bytes join_reply
    \<and> (if driver_count s < 256
       then driver_count s' = driver_count s + 1
         \<and> drivers s' ! nat (driver_count s) = zero_driver\<lparr>driver_id := join_driver_id (driver_join_of (body_buf c)),
             is_available := True, fuel := 10\<rparr>
       else s' = s)"
proof -
  have s': "s' = join_driver (join_driver_id (driver_join_of (body_buf c))) s" "sent c' = sent c @ header_bytes join_reply"
    using assms(2,3) by (auto simp: process_driver_join_def)
  have "drivers s ! nat (driver_count s) = zero_driver" if "driver_count s < 256"
    using state_okE(2) [OF assms(1), of "nat (driver_count s)"] that by (simp add: MAX_DRIVERS_def)
  moreover have "length (drivers s) = 256" using state_okD(1) [OF assms(1)] by (simp add: wf_state_def MAX_DRIVERS_def)
  ultimately show ?thesis
    using s' join_driver_ok [OF assms(1)]
    by (simp add: join_driver_def Let_def MAX_DRIVERS_def update_driver_def)
qed

theorem driver_join_spec_witness:
  "driver_count (snd (process_driver_join
     \<lparr>rx = [], tx = [], sent = [], header_buf = replicate 9 0, body_buf = replicate 1024 7, session_key = [],
      is_key_established = False\<rparr> (ipc_init zero_state NoFile 3))) = 4"
proof -
  let ?c = "\<lparr>rx = [], tx = [], sent = [], header_buf = replicate 9 0, body_buf = replicate 1024 (7::u8), session_key = [],
      is_key_established = False\<rparr>" and ?s = "ipc_init zero_state NoFile 3"
  have ok: "state_ok ?s"
    by (rule state_ok_nth) (use ipc_init_fresh_cell [where n = 3 and f = NoFile and g = zero_state] fresh_driver_ok in \<open>auto simp: MAX_DRIVERS_def\<close>)
  have "driver_count ?s = 3" using ipc_init_fresh_cell(1) [where n = 3 and f = NoFile and g = zero_state] by simp
  with driver_join_spec [OF ok, of ?c "fst (process_driver_join ?c ?s)" "snd (process_driver_join ?c ?s)"]
  show ?thesis by simp
qed

end
