(* ===== verification/Dispatch_Algorithms.thy ===== *)
theory Dispatch_Algorithms
  imports Driver_Status
begin

text \<open>
  src/server/dispatch_algorithms.c: the distance, the nearest-driver search and the VIP search. The
  loops over the first \<open>driver_count\<close> drivers are one recursion over the list of these drivers that
  carries the index, the least distance and the best index so far. The locale \<open>driver_policy\<close>
  states what the ride service needs of a search; both searches are instances.
\<close>

section \<open>Distance\<close>

definition calculate_distance :: "double \<Rightarrow> double \<Rightarrow> double \<Rightarrow> double \<Rightarrow> double" where
  "calculate_distance lat1 lon1 lat2 lon2 = d_sqrt (d_pow2 (lat1 - lat2) + d_pow2 (lon1 - lon2))"

definition VIP_RATING_THRESHOLD :: double where
  "VIP_RATING_THRESHOLD = d_lit (48 / 10)"

definition base_distance :: "Driver \<Rightarrow> double" where
  "base_distance d = calculate_distance BASE_LAT BASE_LON (d_lat d) (d_lon d)"

section \<open>Searches\<close>

definition eligible :: "Driver \<Rightarrow> bool" where
  "eligible d \<longleftrightarrow> is_available d \<and> \<not> is_refueling d \<and> 0 < fuel d"

definition eligible_vip :: "Driver \<Rightarrow> bool" where
  "eligible_vip d \<longleftrightarrow> eligible d \<and> VIP_RATING_THRESHOLD \<le> rating d"

fun nearest_scan :: "(Driver \<Rightarrow> bool) \<Rightarrow> Driver list \<Rightarrow> int \<Rightarrow> double \<Rightarrow> int \<Rightarrow> int" where
  "nearest_scan ok [] i min_dist best_index = best_index"
| "nearest_scan ok (d # ds) i min_dist best_index =
     (if ok d \<and> base_distance d < min_dist then nearest_scan ok ds (i + 1) (base_distance d) i
      else nearest_scan ok ds (i + 1) min_dist best_index)"

definition far_away :: double where
  "far_away = d_lit 1000000"

definition find_driver_basic :: "SharedState \<Rightarrow> int" where
  "find_driver_basic s = nearest_scan eligible (active_drivers s) 0 far_away (- 1)"

definition find_driver_smart :: "SharedState \<Rightarrow> bool \<Rightarrow> int" where
  "find_driver_smart s is_vip =
     (let best_index = nearest_scan eligible_vip (active_drivers s) 0 far_away (- 1)
      in if is_vip \<and> best_index \<noteq> - 1 then best_index else find_driver_basic s)"

section \<open>What a scan finds\<close>

text \<open>\<open>nearest ok ds j\<close>: the first of the drivers that satisfy \<open>ok\<close> at the least distance.\<close>

definition nearest :: "(Driver \<Rightarrow> bool) \<Rightarrow> Driver list \<Rightarrow> nat \<Rightarrow> bool" where
  "nearest ok ds j \<longleftrightarrow> j < length ds \<and> ok (ds ! j) \<and>
     (\<forall>k < length ds. ok (ds ! k) \<longrightarrow> base_distance (ds ! j) \<le> base_distance (ds ! k)
        \<and> (k < j \<longrightarrow> base_distance (ds ! j) < base_distance (ds ! k)))"

lemma nearest_Cons_head:
  "ok d \<Longrightarrow> \<forall>e \<in> set ds. ok e \<longrightarrow> base_distance d \<le> base_distance e \<Longrightarrow> nearest ok (d # ds) 0"
  by (auto simp: nearest_def nth_Cons split: nat.splits)

lemma nearest_Cons_tail:
  "nearest ok ds j \<Longrightarrow> (ok d \<Longrightarrow> base_distance (ds ! j) < base_distance d) \<Longrightarrow> nearest ok (d # ds) (Suc j)"
  by (auto simp: nearest_def nth_Cons less_imp_le split: nat.splits)

lemma nearest_scan_cases:
  "nearest_scan ok ds i m b = r \<Longrightarrow>
     (r = b \<and> (\<forall>d \<in> set ds. ok d \<longrightarrow> m \<le> base_distance d))
     \<or> (\<exists>j. r = i + int j \<and> nearest ok ds j \<and> base_distance (ds ! j) < m)"
proof (induction ok ds i m b rule: nearest_scan.induct)
  case (2 ok d ds i m b)
  show ?case
  proof (cases "ok d \<and> base_distance d < m")
    case True
    with "2.prems" have "nearest_scan ok ds (i + 1) (base_distance d) i = r" by simp
    from "2.IH"(1) [OF True this] show ?thesis
    proof (elim disjE exE conjE)
      assume "r = i" "\<forall>e \<in> set ds. ok e \<longrightarrow> base_distance d \<le> base_distance e"
      then show ?thesis using True nearest_Cons_head [of ok d ds] by (intro disjI2 exI [of _ 0]) simp
    next
      fix j assume "r = i + 1 + int j" "nearest ok ds j" "base_distance (ds ! j) < base_distance d"
      then show ?thesis using True nearest_Cons_tail [of ok ds j d]
        by (intro disjI2 exI [of _ "Suc j"]) auto
    qed
  next
    case False
    with "2.prems" have "nearest_scan ok ds (i + 1) m b = r" by simp
    from "2.IH"(2) [OF False this] show ?thesis
    proof (elim disjE exE conjE)
      assume "r = b" "\<forall>e \<in> set ds. ok e \<longrightarrow> m \<le> base_distance e"
      then show ?thesis using False by auto
    next
      fix j assume j: "r = i + 1 + int j" "nearest ok ds j" "base_distance (ds ! j) < m"
      then have "ok d \<Longrightarrow> base_distance (ds ! j) < base_distance d" using False by auto
      then show ?thesis using j nearest_Cons_tail [of ok ds j d]
        by (intro disjI2 exI [of _ "Suc j"]) auto
    qed
  qed
qed simp

lemma nearest_mono_ok: "nearest ok ds j \<Longrightarrow> j < length ds \<and> ok (ds ! j)"
  by (simp add: nearest_def)

section \<open>The contract of a search\<close>

locale driver_policy =
  fixes pick :: "SharedState \<Rightarrow> int"
  assumes picked: "pick s \<noteq> - 1 \<Longrightarrow> \<exists>i < length (active_drivers s). pick s = int i \<and> eligible (active_drivers s ! i)"
    and missed: "pick s = - 1 \<Longrightarrow> d \<in> set (active_drivers s) \<Longrightarrow> eligible d \<Longrightarrow> far_away \<le> base_distance d"
begin

lemma none_iff:
  assumes "\<forall>d \<in> set (active_drivers s). base_distance d < far_away"
  shows "pick s = - 1 \<longleftrightarrow> (\<forall>d \<in> set (active_drivers s). \<not> eligible d)"
proof
  assume "pick s = - 1"
  then show "\<forall>d \<in> set (active_drivers s). \<not> eligible d"
    using missed assms by (meson leD)
next
  assume none: "\<forall>d \<in> set (active_drivers s). \<not> eligible d"
  show "pick s = - 1"
  proof (rule ccontr)
    assume "pick s \<noteq> - 1"
    from picked [OF this] none show False by (meson nth_mem)
  qed
qed

lemma index:
  assumes "pick s \<noteq> - 1" "wf_state s"
  shows "nat (pick s) < nat (driver_count s)" "nat (pick s) < length (drivers s)"
    "0 \<le> pick s" "eligible (drivers s ! nat (pick s))"
proof -
  obtain i where i: "i < length (active_drivers s)" "pick s = int i" "eligible (active_drivers s ! i)"
    using picked [OF assms(1)] by blast
  with assms(2) show "nat (pick s) < nat (driver_count s)" by (simp add: length_active_drivers)
  show "nat (pick s) < length (drivers s)" using i by (simp add: active_drivers_def)
  show "0 \<le> pick s" using i by simp
  show "eligible (drivers s ! nat (pick s))" using i by (simp add: active_drivers_nth)
qed

end

lemma basic_policy: "find_driver_basic s \<noteq> - 1 \<longleftrightarrow> (\<exists>j. find_driver_basic s = int j \<and> nearest eligible (active_drivers s) j
    \<and> base_distance (active_drivers s ! j) < far_away)"
  "find_driver_basic s = - 1 \<Longrightarrow> d \<in> set (active_drivers s) \<Longrightarrow> eligible d \<Longrightarrow> far_away \<le> base_distance d"
  using nearest_scan_cases [of eligible "active_drivers s" 0 far_away "- 1" "find_driver_basic s"]
  by (auto simp: find_driver_basic_def)

interpretation basic: driver_policy find_driver_basic
proof
  fix s assume "find_driver_basic s \<noteq> - 1"
  then show "\<exists>i < length (active_drivers s). find_driver_basic s = int i \<and> eligible (active_drivers s ! i)"
    unfolding basic_policy(1) by (auto simp: nearest_def)
next
  fix s d assume "find_driver_basic s = - 1" "d \<in> set (active_drivers s)" "eligible d"
  then show "far_away \<le> base_distance d" by (rule basic_policy(2))
qed

lemma smart_cases:
  obtains (vip) j where "is_vip" "find_driver_smart s is_vip = int j" "nearest eligible_vip (active_drivers s) j"
  | (fallback) "find_driver_smart s is_vip = find_driver_basic s"
      "is_vip \<Longrightarrow> \<forall>d \<in> set (active_drivers s). eligible_vip d \<longrightarrow> far_away \<le> base_distance d"
proof -
  let ?r = "nearest_scan eligible_vip (active_drivers s) 0 far_away (- 1)"
  from nearest_scan_cases [OF refl, of eligible_vip "active_drivers s" 0 far_away "- 1"] show thesis
  proof (elim disjE exE conjE)
    assume "?r = - 1" "\<forall>d \<in> set (active_drivers s). eligible_vip d \<longrightarrow> far_away \<le> base_distance d"
    then show thesis by (intro fallback) (simp_all add: find_driver_smart_def)
  next
    fix j assume j: "?r = 0 + int j" "nearest eligible_vip (active_drivers s) j"
    show thesis
    proof (cases is_vip)
      case True
      then show thesis using j by (intro vip [of j]) (simp_all add: find_driver_smart_def)
    next
      case False
      then show thesis by (intro fallback) (simp_all add: find_driver_smart_def)
    qed
  qed
qed

interpretation smart: driver_policy "\<lambda>s. find_driver_smart s is_vip" for is_vip
proof
  fix s assume none: "find_driver_smart s is_vip \<noteq> - 1"
  show "\<exists>i < length (active_drivers s). find_driver_smart s is_vip = int i \<and> eligible (active_drivers s ! i)"
    using basic.picked [of s] none
    by (cases rule: smart_cases [of is_vip s]) (auto simp: nearest_def eligible_vip_def)
next
  fix s d assume "find_driver_smart s is_vip = - 1" "d \<in> set (active_drivers s)" "eligible d"
  then show "far_away \<le> base_distance d"
    using basic.missed [of s d] by (cases rule: smart_cases [of is_vip s]) auto
qed


section \<open>The size of the rounding error\<close>

definition half_ulp :: rat where
  "half_ulp = 1 / 2 ^ 53"

lemma rnd_rel: "\<bar>x\<bar> * (1 - half_ulp) \<le> \<bar>rnd x\<bar>" "\<bar>rnd x\<bar> \<le> \<bar>x\<bar> * (1 + half_ulp)"
proof -
  have "\<bar>rnd x - x\<bar> \<le> \<bar>x\<bar> * half_ulp" using rnd_error [of x] by (simp add: half_ulp_def)
  then show "\<bar>x\<bar> * (1 - half_ulp) \<le> \<bar>rnd x\<bar>" "\<bar>rnd x\<bar> \<le> \<bar>x\<bar> * (1 + half_ulp)"
    by (simp_all add: algebra_simps abs_if split: if_splits)
qed

lemma rnd_rel_nonneg: "0 \<le> x \<Longrightarrow> x * (1 - half_ulp) \<le> rnd x" "0 \<le> x \<Longrightarrow> rnd x \<le> x * (1 + half_ulp)"
  using rnd_rel [of x] rnd_nonneg [of x] by simp_all

lemma half_ulp_range: "0 < half_ulp" "half_ulp < 1"
  by (simp_all add: half_ulp_def)

lemma rnd_square:
  "rnd (rnd x * rnd x) \<le> x * x * (1 + half_ulp) ^ 3" "x * x * (1 - half_ulp) ^ 3 \<le> rnd (rnd x * rnd x)"
proof -
  note h = half_ulp_range
  have "\<bar>rnd x\<bar> * \<bar>rnd x\<bar> \<le> \<bar>x\<bar> * (1 + half_ulp) * (\<bar>x\<bar> * (1 + half_ulp))"
    by (intro mult_mono rnd_rel) (use h in auto)
  then have "rnd x * rnd x * (1 + half_ulp) \<le> x * x * (1 + half_ulp) ^ 2 * (1 + half_ulp)"
    using h by (intro mult_right_mono) (simp_all add: power2_eq_square mult.assoc mult.left_commute)
  moreover have "rnd (rnd x * rnd x) \<le> rnd x * rnd x * (1 + half_ulp)" by (rule rnd_rel_nonneg) simp
  ultimately show "rnd (rnd x * rnd x) \<le> x * x * (1 + half_ulp) ^ 3"
    by (simp add: power2_eq_square power3_eq_cube mult.assoc)
  have "\<bar>x\<bar> * (1 - half_ulp) * (\<bar>x\<bar> * (1 - half_ulp)) \<le> \<bar>rnd x\<bar> * \<bar>rnd x\<bar>"
    by (intro mult_mono rnd_rel) (use h in auto)
  then have "x * x * (1 - half_ulp) ^ 2 * (1 - half_ulp) \<le> rnd x * rnd x * (1 - half_ulp)"
    using h by (intro mult_right_mono) (simp_all add: power2_eq_square mult.assoc mult.left_commute)
  moreover have "rnd x * rnd x * (1 - half_ulp) \<le> rnd (rnd x * rnd x)" by (rule rnd_rel_nonneg) simp
  ultimately show "x * x * (1 - half_ulp) ^ 3 \<le> rnd (rnd x * rnd x)"
    by (simp add: power2_eq_square power3_eq_cube mult.assoc)
qed

lemma rnd_square_sum:
  defines "S \<equiv> \<lambda>x y. rnd (rnd (rnd x * rnd x) + rnd (rnd y * rnd y))"
  shows "S x y \<le> (x * x + y * y) * (1 + half_ulp) ^ 4" "(x * x + y * y) * (1 - half_ulp) ^ 4 \<le> S x y"
proof -
  note h = half_ulp_range
  have nn: "0 \<le> rnd (rnd x * rnd x) + rnd (rnd y * rnd y)" by (intro add_nonneg_nonneg rnd_nonneg) simp_all
  have "rnd (rnd x * rnd x) + rnd (rnd y * rnd y) \<le> (x * x + y * y) * (1 + half_ulp) ^ 3"
    unfolding distrib_right by (intro add_mono rnd_square)
  then have "(rnd (rnd x * rnd x) + rnd (rnd y * rnd y)) * (1 + half_ulp)
      \<le> (x * x + y * y) * (1 + half_ulp) ^ 3 * (1 + half_ulp)"
    using h by (intro mult_right_mono) simp_all
  moreover have "(1 + half_ulp) ^ 4 = (1 + half_ulp) ^ 3 * (1 + half_ulp)" by (simp add: eval_nat_numeral)
  ultimately show "S x y \<le> (x * x + y * y) * (1 + half_ulp) ^ 4"
    unfolding S_def using rnd_rel_nonneg(2) [OF nn] by (simp only: mult.assoc)
  have "(x * x + y * y) * (1 - half_ulp) ^ 3 \<le> rnd (rnd x * rnd x) + rnd (rnd y * rnd y)"
    unfolding distrib_right by (intro add_mono rnd_square)
  then have "(x * x + y * y) * (1 - half_ulp) ^ 3 * (1 - half_ulp)
      \<le> (rnd (rnd x * rnd x) + rnd (rnd y * rnd y)) * (1 - half_ulp)"
    using h by (intro mult_right_mono) simp_all
  moreover have "(1 - half_ulp) ^ 4 = (1 - half_ulp) ^ 3 * (1 - half_ulp)" by (simp add: eval_nat_numeral)
  ultimately show "(x * x + y * y) * (1 - half_ulp) ^ 4 \<le> S x y"
    unfolding S_def using rnd_rel_nonneg(1) [OF nn] by (simp only: mult.assoc)
qed

lemma square_pow4: "(c * a ^ 2) * (c * a ^ 2) = c * c * (a :: rat) ^ 4"
  by (simp add: eval_nat_numeral)

lemma distance_error:
  fixes lat1 lon1 lat2 lon2 :: double
  defines "x \<equiv> rat_of lat1 - rat_of lat2" and "y \<equiv> rat_of lon1 - rat_of lon2"
  assumes "0 \<le> c"
  shows "x * x + y * y \<le> c * c \<Longrightarrow>
      rat_of (calculate_distance lat1 lon1 lat2 lon2) \<le> c * (1 + half_ulp) ^ 2 * (1 + 1 / 2 ^ 52)"
    "c * c \<le> x * x + y * y \<Longrightarrow>
      c * (1 - half_ulp) ^ 2 * (1 - 1 / 2 ^ 52) \<le> rat_of (calculate_distance lat1 lon1 lat2 lon2)"
proof -
  note h = half_ulp_range
  let ?S = "rnd (rnd (rnd x * rnd x) + rnd (rnd y * rnd y))"
  have d: "rat_of (calculate_distance lat1 lon1 lat2 lon2) = fsqrt ?S"
    by (simp add: calculate_distance_def x_def y_def)
  {
    assume "x * x + y * y \<le> c * c"
    then have "(x * x + y * y) * (1 + half_ulp) ^ 4 \<le> c * c * (1 + half_ulp) ^ 4"
      using h by (intro mult_right_mono) simp_all
    then have "?S \<le> (c * (1 + half_ulp) ^ 2) * (c * (1 + half_ulp) ^ 2)"
      unfolding square_pow4 using rnd_square_sum(1) [of x y] by (rule order_trans [rotated])
    moreover have "0 \<le> c * (1 + half_ulp) ^ 2" using assms(3) by simp
    ultimately show "rat_of (calculate_distance lat1 lon1 lat2 lon2) \<le> c * (1 + half_ulp) ^ 2 * (1 + 1 / 2 ^ 52)"
      unfolding d by (intro fsqrt_upper)
  }
  {
    assume "c * c \<le> x * x + y * y"
    then have "c * c * (1 - half_ulp) ^ 4 \<le> (x * x + y * y) * (1 - half_ulp) ^ 4"
      by (intro mult_right_mono) simp_all
    then have "(c * (1 - half_ulp) ^ 2) * (c * (1 - half_ulp) ^ 2) \<le> ?S"
      unfolding square_pow4 using rnd_square_sum(2) [of x y] by (rule order_trans)
    moreover have "0 \<le> c * (1 - half_ulp) ^ 2" using assms(3) by simp
    ultimately show "c * (1 - half_ulp) ^ 2 * (1 - 1 / 2 ^ 52) \<le> rat_of (calculate_distance lat1 lon1 lat2 lon2)"
      unfolding d by (intro fsqrt_lower)
  }
qed


text \<open>A driver anywhere within 1000 degrees is far nearer than the start value of the scans.\<close>

lemma square_bound: "\<bar>x\<bar> \<le> c \<Longrightarrow> x * x \<le> c * (c :: rat)"
  using mult_mono [of "\<bar>x\<bar>" c "\<bar>x\<bar>" c] by simp

lemma near_distance: "near d \<Longrightarrow> base_distance d < far_away"
proof -
  assume n: "near d"
  let ?x = "rat_of BASE_LAT - rat_of (d_lat d)" and ?y = "rat_of BASE_LON - rat_of (d_lon d)"
  have "\<bar>?x\<bar> \<le> 1200" "\<bar>?y\<bar> \<le> 1200" using n base_bounds by (auto simp: near_def)
  from this [THEN square_bound] have "?x * ?x + ?y * ?y \<le> 2000 * 2000" by simp
  from distance_error(1) [OF _ this]
  have "rat_of (base_distance d) \<le> 2000 * (1 + half_ulp) ^ 2 * (1 + 1 / 2 ^ 52)"
    by (simp add: base_distance_def)
  also have "\<dots> < 1000000" by (simp add: half_ulp_def power2_eq_square)
  also have "\<dots> = rat_of far_away" by (simp add: far_away_def double_eval)
  finally show ?thesis by (simp add: less_double_def)
qed

section \<open>Properties\<close>

text \<open>
  the accuracy of \<open>calculate_distance\<close>: for every bound \<open>c\<close> on the true Euclidean distance of
  the two points, from above or from below, the computed distance is bounded by \<open>c\<close> up to a
  relative error of 2^-50.
\<close>

theorem calculate_distance_accuracy:
  fixes lat1 lon1 lat2 lon2 :: double and c :: rat
  assumes "0 \<le> c"
  shows "((rat_of lat1 - rat_of lat2) ^ 2 + (rat_of lon1 - rat_of lon2) ^ 2 \<le> c ^ 2 \<longrightarrow>
      rat_of (calculate_distance lat1 lon1 lat2 lon2) \<le> c * (1 + 1 / 2 ^ 50))
    \<and> (c ^ 2 \<le> (rat_of lat1 - rat_of lat2) ^ 2 + (rat_of lon1 - rat_of lon2) ^ 2 \<longrightarrow>
      c * (1 - 1 / 2 ^ 50) \<le> rat_of (calculate_distance lat1 lon1 lat2 lon2))"
proof -
  have up: "c * (1 + half_ulp) ^ 2 * (1 + 1 / 2 ^ 52) \<le> c * (1 + 1 / 2 ^ 50)"
    unfolding mult.assoc by (intro mult_left_mono assms) (simp add: half_ulp_def power2_eq_square)
  have low: "c * (1 - 1 / 2 ^ 50) \<le> c * (1 - half_ulp) ^ 2 * (1 - 1 / 2 ^ 52)"
    unfolding mult.assoc by (intro mult_left_mono assms) (simp add: half_ulp_def power2_eq_square)
  show ?thesis
    using distance_error [OF assms, of lat1 lat2 lon1 lon2] up low
    by (auto simp: power2_eq_square intro: order_trans)
qed

theorem calculate_distance_accuracy_witness:
  "rat_of (calculate_distance (Dbl 3) (Dbl 4) (Dbl 0) (Dbl 0)) \<le> 5 * (1 + 1 / 2 ^ 50)
   \<and> 5 * (1 - 1 / 2 ^ 50) \<le> rat_of (calculate_distance (Dbl 3) (Dbl 4) (Dbl 0) (Dbl 0))"
  using calculate_distance_accuracy [of 5 "Dbl 3" "Dbl 0" "Dbl 4" "Dbl 0"] by simp


definition two_drivers :: SharedState where
  "two_drivers = zero_state\<lparr>driver_count := 2, drivers :=
     [zero_driver\<lparr>driver_id := 1001, d_lat := BASE_LAT, d_lon := BASE_LON, is_available := True, fuel := 0, rating := d_lit 4\<rparr>,
      zero_driver\<lparr>driver_id := 1002, d_lat := BASE_LAT, d_lon := BASE_LON, is_available := True, fuel := 10, rating := d_lit 5\<rparr>]\<rparr>"

lemma two_drivers_active:
  "active_drivers two_drivers =
     [zero_driver\<lparr>driver_id := 1001, d_lat := BASE_LAT, d_lon := BASE_LON, is_available := True, fuel := 0, rating := d_lit 4\<rparr>,
      zero_driver\<lparr>driver_id := 1002, d_lat := BASE_LAT, d_lon := BASE_LON, is_available := True, fuel := 10, rating := d_lit 5\<rparr>]"
  by (simp add: active_drivers_def two_drivers_def)

lemma two_drivers_near: "d \<in> set (active_drivers two_drivers) \<Longrightarrow> near d"
  using base_bounds by (auto simp: two_drivers_active near_def)


lemma smart_vip_first:
  "if is_vip \<and> (\<exists>d \<in> set (active_drivers s). eligible_vip d \<and> base_distance d < far_away)
   then \<exists>j. find_driver_smart s is_vip = int j \<and> nearest eligible_vip (active_drivers s) j
   else find_driver_smart s is_vip = find_driver_basic s"
proof -
  let ?r = "nearest_scan eligible_vip (active_drivers s) 0 far_away (- 1)"
  have r: "?r = - 1 \<and> (\<forall>d \<in> set (active_drivers s). eligible_vip d \<longrightarrow> far_away \<le> base_distance d)
      \<or> (\<exists>j. ?r = int j \<and> nearest eligible_vip (active_drivers s) j \<and> base_distance (active_drivers s ! j) < far_away)"
    using nearest_scan_cases [OF refl, of eligible_vip "active_drivers s" 0 far_away "- 1"] by simp
  show ?thesis
  proof (cases "is_vip \<and> (\<exists>d \<in> set (active_drivers s). eligible_vip d \<and> base_distance d < far_away)")
    case True
    then obtain j where j: "?r = int j" "nearest eligible_vip (active_drivers s) j"
      using r by (meson leD)
    with True have "find_driver_smart s is_vip = int j" by (simp add: find_driver_smart_def)
    with True j(2) show ?thesis by auto
  next
    case False
    have "is_vip \<Longrightarrow> ?r = - 1" using r False by (auto simp: nearest_def)
    then have "find_driver_smart s is_vip = find_driver_basic s" by (cases is_vip) (simp_all add: find_driver_smart_def)
    then show ?thesis by (simp only: if_not_P [OF False])
  qed
qed

text \<open>
  C27: \<open>find_driver_smart\<close>: a VIP gets the nearest of the eligible drivers rated 4.8 or better when
  there is one (within 1000000), and everybody else gets the answer of the basic search.
\<close>

theorem find_driver_smart_vip_first:
  "if is_vip \<and> (\<exists>d \<in> set (active_drivers s). eligible d \<and> d_lit (48 / 10) \<le> rating d \<and> base_distance d < far_away)
   then \<exists>j. find_driver_smart s is_vip = int j \<and> nearest (\<lambda>d. eligible d \<and> d_lit (48 / 10) \<le> rating d) (active_drivers s) j
   else find_driver_smart s is_vip = find_driver_basic s"
  using smart_vip_first [of is_vip s] unfolding eligible_vip_def [abs_def] VIP_RATING_THRESHOLD_def by (simp only: conj_assoc)

theorem find_driver_smart_vip_first_witness:
  "find_driver_smart two_drivers True = 1"
proof -
  have thr: "VIP_RATING_THRESHOLD \<le> d_lit 5"
    by (simp add: VIP_RATING_THRESHOLD_def less_eq_double_def rnd_mono)
  then have e: "eligible_vip (active_drivers two_drivers ! 1)" "\<not> eligible_vip (active_drivers two_drivers ! 0)"
    by (simp_all add: two_drivers_active eligible_vip_def eligible_def zero_driver_def)
  have len: "length (active_drivers two_drivers) = 2" by (simp add: two_drivers_active)
  have vip: "eligible_vip = (\<lambda>d. eligible d \<and> VIP_RATING_THRESHOLD \<le> rating d)" by (rule ext) (simp add: eligible_vip_def)
  have mem: "active_drivers two_drivers ! 1 \<in> set (active_drivers two_drivers)" by (simp add: len)
  then have "\<exists>d \<in> set (active_drivers two_drivers). eligible_vip d \<and> base_distance d < far_away"
    using e(1) near_distance [OF two_drivers_near [OF mem]] by blast
  then obtain j where j: "find_driver_smart two_drivers True = int j" "nearest eligible_vip (active_drivers two_drivers) j"
    using find_driver_smart_vip_first [of True two_drivers, folded VIP_RATING_THRESHOLD_def] unfolding vip by (simp add: conj_assoc) blast
  then have "j = 1" using e len by (auto simp: nearest_def less_2_cases_iff)
  with j show ?thesis by simp
qed

end
