(* ===== verification/Ride_Service.thy ===== *)
theory Ride_Service
  imports Dispatch_Algorithms
begin

text \<open>
  src/server/ride_service.c: \<open>handle_ride_request_logic\<close>. The mutex makes the search and the update
  one step on the shared state. The result is the return code, the string \<open>snprintf\<close> leaves in the
  buffer, the generator after the two draws of a destination, and the new state. The log lines are
  not modelled.
\<close>

section \<open>Formatting\<close>

text \<open>
  \<open>%.kf\<close>: the exact value rounded to \<open>k\<close> decimals, ties to even, as glibc prints it; \<open>snprintf\<close>
  keeps \<open>n - 1\<close> characters of the text.
\<close>

definition show_fixed :: "nat \<Rightarrow> double \<Rightarrow> string" where
  "show_fixed k x =
     (let n = nat (rne (\<bar>rat_of x\<bar> * 10 ^ k))
      in (if rat_of x < 0 then ''-'' else []) @ show_nat (n div 10 ^ k) @ ''.'' @ pad_digits k n)"

definition snprintf :: "nat \<Rightarrow> string \<Rightarrow> string" where
  "snprintf n s = take (n - 1) s"

section \<open>The request\<close>

definition no_driver_text :: string where
  "no_driver_text = ''Error: No drivers available.''"

definition confirm_text :: "Driver \<Rightarrow> double \<Rightarrow> int \<Rightarrow> string" where
  "confirm_text d away mode =
     ''Ride Confirmed! Driver ID: '' @ show_int (sint (driver_id d)) @ '' (Rating: '' @ show_fixed 1 (rating d)
     @ '', Dist: '' @ show_fixed 4 away @ '') [Mode: '' @ (if mode = 1 then ''SMART'' else ''BASIC'') @ '']''"

definition is_vip_client :: "int \<Rightarrow> bool" where
  "is_vip_client client_id \<longleftrightarrow> client_id \<le> 10"

definition pick_driver :: "SharedState \<Rightarrow> bool \<Rightarrow> int" where
  "pick_driver s is_vip = (if dispatch_mode s = 0 then find_driver_basic s else find_driver_smart s is_vip)"

definition target_coord :: "double \<Rightarrow> int \<Rightarrow> double" where
  "target_coord base r = base + d_of_int r * d_lit (1 / 10000)"

definition dispatch_driver :: "int \<Rightarrow> int \<Rightarrow> Driver \<Rightarrow> Driver" where
  "dispatch_driver r1 r2 d =
     d\<lparr>is_available := False, rides_count := rides_count d + 1, fuel := fuel d - 1, has_target := True,
       target_lat := target_coord BASE_LAT r1, target_lon := target_coord BASE_LON r2\<rparr>"

definition ride_fare :: "bool \<Rightarrow> double" where
  "ride_fare is_vip = d_lit 100 + (if is_vip then d_lit 50 else d_lit 0)"

definition count_ride :: "int \<Rightarrow> SharedState \<Rightarrow> SharedState" where
  "count_ride fare s =
     s\<lparr>total_requests_handled := total_requests_handled s + 1,
       total_success_requests := total_success_requests s + 1,
       total_revenue := total_revenue s + fare\<rparr>"

definition handle_ride_request_logic ::
  "int \<Rightarrow> nat \<Rightarrow> rng \<Rightarrow> SharedState \<Rightarrow> int \<times> string \<times> rng \<times> SharedState" where
  "handle_ride_request_logic client_id buffer_len r s =
     (let is_vip = is_vip_client client_id;
          best_driver_index = pick_driver s is_vip
      in if best_driver_index \<noteq> - 1 then
           let i = nat best_driver_index;
               (r1, r) = rand_mod 90 r;
               (r2, r) = rand_mod 180 r;
               s = update_driver i (dispatch_driver r1 r2) s;
               d = drivers s ! i;
               away = calculate_distance BASE_LAT BASE_LON (d_lat d) (d_lon d);
               s = count_ride (d_trunc (ride_fare is_vip)) s
           in (0, snprintf buffer_len (confirm_text d away (dispatch_mode s)), r, s)
         else (- 1, snprintf buffer_len no_driver_text, r, s))"

section \<open>Facts\<close>

lemma ride_fare_trunc: "d_trunc (ride_fare True) = 150" "d_trunc (ride_fare False) = 100"
  by (simp_all add: ride_fare_def d_trunc_def double_eval)

lemma target_coord_ends:
  "to_cell BASE_LAT (target_coord BASE_LAT 89) = 17" "to_cell BASE_LON (target_coord BASE_LON 179) = 35"
  by (simp_all add: to_cell_def target_coord_def BASE_LAT_def BASE_LON_def SCALE_FACTOR_def d_trunc_def double_eval)

lemma target_coord_mono: "a \<le> b \<Longrightarrow> target_coord base a \<le> target_coord base b"
  by (auto simp: target_coord_def less_eq_double_def intro!: rnd_mono add_left_mono mult_right_mono rnd_nonneg)

lemma target_coord_range:
  assumes "0 \<le> r"
  shows "r \<le> 89 \<Longrightarrow> 0 \<le> to_cell BASE_LAT (target_coord BASE_LAT r) \<and> to_cell BASE_LAT (target_coord BASE_LAT r) < MAP_HEIGHT"
    "r \<le> 179 \<Longrightarrow> 0 \<le> to_cell BASE_LON (target_coord BASE_LON r) \<and> to_cell BASE_LON (target_coord BASE_LON r) < MAP_WIDTH"
proof -
  have mono: "a \<le> b \<Longrightarrow> to_cell base (target_coord base a) \<le> to_cell base (target_coord base b)" for base a b
    by (intro to_cell_mono target_coord_mono)
  have zero: "to_cell base (target_coord base 0) = to_cell base (base + 0)" for base
    by (simp add: to_cell_def target_coord_def d_trunc_def)
  have lo: "to_cell BASE_LAT (BASE_LAT + 0) = 0" "to_cell BASE_LON (BASE_LON + 0) = 0"
    by (simp_all add: to_cell_def d_trunc_def BASE_LAT_def BASE_LON_def)
  from target_coord_ends(1) show "r \<le> 89 \<Longrightarrow> 0 \<le> to_cell BASE_LAT (target_coord BASE_LAT r) \<and> to_cell BASE_LAT (target_coord BASE_LAT r) < MAP_HEIGHT"
    using mono [of 0 r BASE_LAT] mono [of r 89 BASE_LAT] lo zero [of BASE_LAT] assms by (simp add: MAP_HEIGHT_def)
  from target_coord_ends(2) show "r \<le> 179 \<Longrightarrow> 0 \<le> to_cell BASE_LON (target_coord BASE_LON r) \<and> to_cell BASE_LON (target_coord BASE_LON r) < MAP_WIDTH"
    using mono [of 0 r BASE_LON] mono [of r 179 BASE_LON] lo zero [of BASE_LON] assms by (simp add: MAP_WIDTH_def)
qed

interpretation dispatched: driver_contract "\<lambda>d. eligible d \<and> r1 \<in> {0..89} \<and> r2 \<in> {0..179}" "dispatch_driver r1 r2"
  for r1 r2
  by unfold_locales
    (auto simp: driver_ok_def one_status_def eligible_def dispatch_driver_def near_def target_on_map_def
      in_map_def target_coord_range status_of_def)

interpretation ride: driver_policy "\<lambda>s. pick_driver s is_vip" for is_vip
proof
  fix s assume p: "pick_driver s is_vip \<noteq> - 1"
  then show "\<exists>i < length (active_drivers s). pick_driver s is_vip = int i \<and> eligible (active_drivers s ! i)"
    using basic.picked [of s] smart.picked [of s is_vip] by (auto simp: pick_driver_def)
next
  fix s d assume "pick_driver s is_vip = - 1" "d \<in> set (active_drivers s)" "eligible d"
  then show "far_away \<le> base_distance d"
    using basic.missed [of s d] smart.missed [of s is_vip d] by (auto simp: pick_driver_def split: if_splits)
qed

text \<open>The two outcomes with the draws named.\<close>

lemma ride_request_fail:
  "pick_driver s (is_vip_client c) = - 1 \<Longrightarrow>
     handle_ride_request_logic c n r s = (- 1, snprintf n no_driver_text, r, s)"
  by (simp add: handle_ride_request_logic_def)

definition ride_state :: "int \<Rightarrow> rng \<Rightarrow> SharedState \<Rightarrow> SharedState" where
  "ride_state c r s = count_ride (if is_vip_client c then 150 else 100)
     (update_driver (nat (pick_driver s (is_vip_client c)))
        (dispatch_driver (fst (rand_mod 90 r)) (fst (rand_mod 180 (snd (rand_mod 90 r))))) s)"

lemma ride_request_ok:
  assumes "pick_driver s (is_vip_client c) \<noteq> - 1" "wf_state s"
  shows "handle_ride_request_logic c n r s =
    (let d = drivers s ! nat (pick_driver s (is_vip_client c))
     in (0, snprintf n (confirm_text d (base_distance d) (dispatch_mode s)), snd (rand_mod 180 (snd (rand_mod 90 r))),
         ride_state c r s))"
proof -
  have i: "nat (pick_driver s (is_vip_client c)) < length (drivers s)"
    using ride.index(2) [OF assms] .
  have t: "confirm_text (dispatch_driver r1 r2 d) away mode = confirm_text d away mode" for r1 r2 d away mode
    by (simp add: confirm_text_def dispatch_driver_def)
  have p: "d_lat (dispatch_driver r1 r2 d) = d_lat d" "d_lon (dispatch_driver r1 r2 d) = d_lon d" for r1 r2 d
    by (simp_all add: dispatch_driver_def)
  have m: "dispatch_mode (count_ride f s) = dispatch_mode s" for f s by (simp add: count_ride_def)
  have f: "d_trunc (ride_fare v) = (if v then 150 else 100)" for v
    by (cases v) (simp_all add: ride_fare_trunc)
  have dr: "drivers (update_driver j g s) ! j = g (drivers s ! j)" if "j < length (drivers s)" for j g
    using that by (simp add: update_driver_def)
  show ?thesis
    using assms(1) by (simp add: handle_ride_request_logic_def ride_state_def split_beta Let_def dr [OF i] t p f m
        base_distance_def)
qed

lemma ride_request_cases:
  assumes "wf_state s"
  obtains (fail) "pick_driver s (is_vip_client c) = - 1"
      "handle_ride_request_logic c n r s = (- 1, snprintf n no_driver_text, r, s)"
  | (ok) i where "pick_driver s (is_vip_client c) = int i" "i < nat (driver_count s)" "i < length (drivers s)"
      "eligible (drivers s ! i)"
      "handle_ride_request_logic c n r s =
         (0, snprintf n (confirm_text (drivers s ! i) (base_distance (drivers s ! i)) (dispatch_mode s)),
          snd (rand_mod 180 (snd (rand_mod 90 r))), ride_state c r s)"
proof (cases "pick_driver s (is_vip_client c) = - 1")
  case True
  then show thesis using fail ride_request_fail by blast
next
  case False
  note i = ride.index [OF False assms]
  have "pick_driver s (is_vip_client c) = int (nat (pick_driver s (is_vip_client c)))" using i(3) by simp
  from ok [OF this i(1,2,4)] ride_request_ok [OF False assms, of n r] show thesis by (simp add: Let_def)
qed

lemma draw_ranges:
  "fst (rand_mod 90 r) \<in> {0..89}" "fst (rand_mod 180 r) \<in> {0..179}"
  using rand_mod_bounds [of 90 r] rand_mod_bounds [of 180 r] by simp_all

lemma count_ride_ok: "state_ok s \<Longrightarrow> state_ok (count_ride f s)"
  by (simp add: state_ok_def count_ride_def wf_state_def active_drivers_def)

lemma ride_request_state_ok:
  assumes "state_ok s"
  shows "state_ok (snd (snd (snd (handle_ride_request_logic c n r s))))"
  using state_okD(1) [OF assms]
proof (cases rule: ride_request_cases [where c = c and n = n and r = r])
  case fail
  then show ?thesis using assms by simp
next
  case (ok i)
  have "state_ok (ride_state c r s)"
    unfolding ride_state_def ok(1) nat_int
    by (intro count_ride_ok dispatched.update_state_ok assms ok(2)) (use ok(4) draw_ranges in blast)
  then show ?thesis using ok(5) by simp
qed


section \<open>Sequences of requests\<close>

text \<open>The drivers dispatched by a sequence of requests, in the order of the lock.\<close>

fun ride_picks :: "int list \<Rightarrow> rng \<Rightarrow> SharedState \<Rightarrow> int list" where
  "ride_picks [] r s = []"
| "ride_picks (c # cs) r s =
     (let (res, text, r', s') = handle_ride_request_logic c 256 r s
      in if res = 0 then pick_driver s (is_vip_client c) # ride_picks cs r' s' else ride_picks cs r' s')"

lemma ride_state_simps [simp]:
  "wf_state (ride_state c r s) = wf_state s" "driver_count (ride_state c r s) = driver_count s"
  by (simp_all add: ride_state_def count_ride_def update_driver_def wf_state_def)

lemma ride_state_eligible:
  assumes "pick_driver s (is_vip_client c) = int i" "i < length (drivers s)"
  shows "eligible (drivers (ride_state c r s) ! j) \<longleftrightarrow> j \<noteq> i \<and> eligible (drivers s ! j)"
  using assms by (simp add: ride_state_def count_ride_def update_driver_def nth_list_update eligible_def
      dispatch_driver_def)

lemma ride_picks_facts:
  "wf_state s \<Longrightarrow> distinct (ride_picks cs r s)
     \<and> (\<forall>p \<in> set (ride_picks cs r s). \<exists>i. p = int i \<and> i < nat (driver_count s) \<and> eligible (drivers s ! i))"
proof (induction cs arbitrary: r s)
  case (Cons c cs)
  from Cons.prems show ?case
  proof (cases rule: ride_request_cases [where c = c and n = 256 and r = r])
    case fail
    then have "ride_picks (c # cs) r s = ride_picks cs r s" by simp
    then show ?thesis using Cons by simp
  next
    case (ok i)
    let ?r = "snd (rand_mod 180 (snd (rand_mod 90 r)))"
    have p: "ride_picks (c # cs) r s = int i # ride_picks cs ?r (ride_state c r s)"
      by (simp only: ride_picks.simps ok(1,5)) simp
    have IH: "distinct (ride_picks cs ?r (ride_state c r s))"
      "\<forall>p \<in> set (ride_picks cs ?r (ride_state c r s)). \<exists>j. p = int j \<and> j < nat (driver_count s)
         \<and> j \<noteq> i \<and> eligible (drivers s ! j)"
      using Cons.IH [of "ride_state c r s" ?r] Cons.prems ride_state_eligible [OF ok(1,3), of r] by auto
    then show ?thesis unfolding p using ok(2,4) by fastforce
  qed
qed simp

section \<open>Properties\<close>

text \<open>
  C6: the ride request, on every branch: when some active driver is available, not refueling and has
  fuel, one such driver is sent to a random destination on the map, loses one unit of fuel, gains one
  ride, the counters and the revenue go up, and the answer names that driver; when there is none the
  answer is the error text, the return code -1 and the shared state is untouched.
\<close>

theorem ride_request_spec:
  assumes "state_ok s"
  shows "if \<exists>d \<in> set (active_drivers s). eligible d
    then \<exists>i r1 r2 r'. i < nat (driver_count s) \<and> eligible (drivers s ! i) \<and> r1 \<in> {0..89} \<and> r2 \<in> {0..179}
      \<and> handle_ride_request_logic c n r s =
          (0, snprintf n (confirm_text (drivers s ! i) (base_distance (drivers s ! i)) (dispatch_mode s)), r',
           s\<lparr>drivers := (drivers s)[i := (drivers s ! i)\<lparr>is_available := False,
                 rides_count := rides_count (drivers s ! i) + 1, fuel := fuel (drivers s ! i) - 1, has_target := True,
                 target_lat := target_coord BASE_LAT r1, target_lon := target_coord BASE_LON r2\<rparr>],
             total_requests_handled := total_requests_handled s + 1,
             total_success_requests := total_success_requests s + 1,
             total_revenue := total_revenue s + (if c \<le> 10 then 150 else 100)\<rparr>)
    else handle_ride_request_logic c n r s = (- 1, snprintf n no_driver_text, r, s)"
proof -
  have new: "count_ride (if is_vip_client c then 150 else 100) (update_driver i (dispatch_driver r1 r2) s) =
      s\<lparr>drivers := (drivers s)[i := (drivers s ! i)\<lparr>is_available := False,
           rides_count := rides_count (drivers s ! i) + 1, fuel := fuel (drivers s ! i) - 1, has_target := True,
           target_lat := target_coord BASE_LAT r1, target_lon := target_coord BASE_LON r2\<rparr>],
        total_requests_handled := total_requests_handled s + 1, total_success_requests := total_success_requests s + 1,
        total_revenue := total_revenue s + (if c \<le> 10 then 150 else 100)\<rparr>" for i r1 r2
    by (simp add: count_ride_def update_driver_def dispatch_driver_def is_vip_client_def)
  have "\<forall>d \<in> set (active_drivers s). base_distance d < far_away"
    using state_okD(3) [OF assms] near_distance by (auto simp: driver_ok_def)
  note none = ride.none_iff [OF this, of "is_vip_client c"]
  from state_okD(1) [OF assms] show ?thesis
  proof (cases rule: ride_request_cases [where c = c and n = n and r = r])
    case fail
    with none have "\<not> (\<exists>d \<in> set (active_drivers s). eligible d)" by blast
    then show ?thesis using fail(2) by (simp only: if_False)
  next
    case (ok i)
    with none have "\<exists>d \<in> set (active_drivers s). eligible d" by force
    then show ?thesis
      using ok(2,4) draw_ranges unfolding ok(5) ride_state_def ok(1) nat_int new by (simp only: if_True) blast
  qed
qed

lemma two_drivers_ok: "state_ok (two_drivers\<lparr>drivers := take 2 (drivers two_drivers) @ replicate 254 zero_driver\<rparr>)"
proof -
  let ?s = "two_drivers\<lparr>drivers := take 2 (drivers two_drivers) @ replicate 254 zero_driver\<rparr>"
  have a: "active_drivers ?s = active_drivers two_drivers"
    by (simp add: active_drivers_def two_drivers_def)
  have "\<forall>d \<in> set (active_drivers two_drivers). driver_ok d"
    using two_drivers_near by (auto simp: two_drivers_active driver_ok_def one_status_def zero_driver_def)
  then show ?thesis unfolding state_ok_def a
    by (simp add: two_drivers_def wf_state_def zero_state_def MAX_DRIVERS_def)
qed

theorem ride_request_spec_witness:
  "fst (handle_ride_request_logic 5 256 (sconst 0)
     (two_drivers\<lparr>drivers := take 2 (drivers two_drivers) @ replicate 254 zero_driver\<rparr>)) = 0"
proof -
  let ?s = "two_drivers\<lparr>drivers := take 2 (drivers two_drivers) @ replicate 254 zero_driver\<rparr>"
  have "active_drivers ?s = active_drivers two_drivers"
    by (simp add: active_drivers_def two_drivers_def)
  then have "\<exists>d \<in> set (active_drivers ?s). eligible d"
    by (simp add: two_drivers_active eligible_def zero_driver_def)
  with ride_request_spec [OF two_drivers_ok, of 5 256 "sconst 0"] show ?thesis by auto
qed

text \<open>
  \<open>handle_ride_request_logic\<close> preserves the invariant of the shared state: array bounds, one
  status and a legal tank for every active driver, targets on the map, untouched unused entries, and
  as many successes as handled requests (a failed request is not counted).
\<close>

theorem ride_request_preserves:
  assumes "state_ok s" "handle_ride_request_logic c n r s = (res, text, r', s')"
  shows "state_ok s'"
  using ride_request_state_ok [OF assms(1), of c n r] assms(2) by simp

theorem ride_request_preserves_witness:
  "state_ok (snd (snd (snd (handle_ride_request_logic 5 256 (sconst 0)
     (two_drivers\<lparr>drivers := take 2 (drivers two_drivers) @ replicate 254 zero_driver\<rparr>)))))"
  by (rule ride_request_preserves [OF two_drivers_ok, of 5 256 "sconst 0"]) (rule prod_eqI, simp_all)+

text \<open>
  C7: no driver is dispatched twice: in any sequence of requests that no map update interrupts, the
  dispatched drivers are distinct, and each was available with fuel at the start.
\<close>

theorem no_double_dispatch:
  assumes "state_ok s"
  shows "distinct (ride_picks cs r s)
     \<and> (\<forall>p \<in> set (ride_picks cs r s). \<exists>i. p = int i \<and> i < nat (driver_count s) \<and> eligible (drivers s ! i))"
  by (rule ride_picks_facts [OF state_okD(1) [OF assms]])

theorem no_double_dispatch_witness:
  "distinct (ride_picks [1, 2, 3] (sconst 0)
     (two_drivers\<lparr>drivers := take 2 (drivers two_drivers) @ replicate 254 zero_driver\<rparr>))"
  using no_double_dispatch [OF two_drivers_ok, of "[1, 2, 3]" "sconst 0"] by blast

text \<open>
  who is a VIP: the \<open>uint32_t\<close> client id of a request is passed as an \<open>int\<close> and compared with
  10, so besides the ids 1 to 10 also id 0 and every id from 2^31 on counts as a VIP.
\<close>

theorem vip_ids:
  "is_vip_client (sint (w :: u32)) \<longleftrightarrow> uint w \<le> 10 \<or> 2 ^ 31 \<le> uint w"
  using uint_lt2p [of w] by (auto simp: is_vip_client_def sint_u32)

text \<open>
  a server started in a mode other than 0 and 1 searches like the smart mode but reports the
  basic one.
\<close>

theorem other_modes_mislabelled:
  assumes "dispatch_mode s \<noteq> 0" "dispatch_mode s \<noteq> 1"
  shows "pick_driver s vip = find_driver_smart s vip
    \<and> (\<exists>pre. confirm_text d away (dispatch_mode s) = pre @ ''[Mode: BASIC]'')"
  using assms by (simp add: pick_driver_def confirm_text_def)

theorem other_modes_mislabelled_witness:
  "pick_driver (zero_state\<lparr>dispatch_mode := 2\<rparr>) True = find_driver_smart (zero_state\<lparr>dispatch_mode := 2\<rparr>) True"
  using other_modes_mislabelled [of "zero_state\<lparr>dispatch_mode := 2\<rparr>" True zero_driver 0] by simp

end
