(* ===== verification/RC4.thy ===== *)
theory RC4
  imports RH_Prelude
begin

text \<open>
  The RC4 cipher \<open>rc4_crypt\<close> of src/common/net_wrapper.c and the interface its callers rely on.
  The key is the C string the caller passes, as a list of bytes. A key byte is read as a
  \<open>char\<close>, which is signed on x86, and the running index is a signed \<open>int\<close>; \<open>%\<close> truncates
  toward zero. An empty key divides by zero and a negative index reads before the state array:
  both are undefined behaviour and the result is \<open>None\<close>.
\<close>

section \<open>The cipher\<close>

type_synonym sbox = "u8 list"

definition sbox_init :: sbox where
  "sbox_init = map of_nat [0..<256]"

text \<open>\<open>temp = S[i]; S[i] = S[j]; S[j] = temp\<close>\<close>

definition swap_at :: "nat \<Rightarrow> nat \<Rightarrow> 'a list \<Rightarrow> 'a list" where
  "swap_at i j S = S[i := S ! j, j := S ! i]"

definition ksa_step :: "u8 list \<Rightarrow> nat \<Rightarrow> int \<times> sbox \<Rightarrow> (int \<times> sbox) option" where
  "ksa_step key i st =
     (let j = (fst st + uint (snd st ! i) + c_char (key ! (i mod length key))) smod 256
      in if j < 0 then None else Some (j, swap_at i (nat j) (snd st)))"

fun ksa_loop :: "u8 list \<Rightarrow> nat list \<Rightarrow> int \<times> sbox \<Rightarrow> (int \<times> sbox) option" where
  "ksa_loop key [] st = Some st"
| "ksa_loop key (i # is) st = (case ksa_step key i st of None \<Rightarrow> None | Some st' \<Rightarrow> ksa_loop key is st')"

definition ksa :: "u8 list \<Rightarrow> sbox option" where
  "ksa key = (if key = [] then None
              else case ksa_loop key [0..<256] (0, sbox_init) of None \<Rightarrow> None | Some st \<Rightarrow> Some (snd st))"

fun prga :: "nat \<Rightarrow> nat \<Rightarrow> sbox \<Rightarrow> u8 list \<Rightarrow> u8 list" where
  "prga i j S [] = []"
| "prga i j S (d # ds) =
     (let i' = (i + 1) mod 256;
          j' = (j + unat (S ! i')) mod 256;
          S' = swap_at i' j' S;
          k = S' ! ((unat (S' ! i') + unat (S' ! j')) mod 256)
      in (d XOR k) # prga i' j' S' ds)"

definition rc4_crypt :: "u8 list \<Rightarrow> u8 list \<Rightarrow> u8 list option" where
  "rc4_crypt data key = (case ksa key of None \<Rightarrow> None | Some S \<Rightarrow> Some (prga 0 0 S data))"

section \<open>The state array stays a permutation of the bytes\<close>

definition is_sbox :: "sbox \<Rightarrow> bool" where
  "is_sbox S \<longleftrightarrow> mset S = mset sbox_init"

lemma length_sbox_init [simp]: "length sbox_init = 256"
  by (simp add: sbox_init_def)

lemma is_sbox_length: "is_sbox S \<Longrightarrow> length S = 256"
  unfolding is_sbox_def by (drule mset_eq_length) simp

lemma length_swap_at [simp]: "length (swap_at i j S) = length S"
  by (simp add: swap_at_def)

lemma mset_swap_at: "i < length S \<Longrightarrow> j < length S \<Longrightarrow> mset (swap_at i j S) = mset S"
  by (simp add: swap_at_def mset_swap)

lemma is_sbox_swap: "is_sbox S \<Longrightarrow> i < 256 \<Longrightarrow> j < 256 \<Longrightarrow> is_sbox (swap_at i j S)"
  using is_sbox_length [of S] by (simp add: is_sbox_def mset_swap_at)

text \<open>A key whose bytes are ASCII is read as non-negative \<open>char\<close>s.\<close>

definition ascii_key :: "u8 list \<Rightarrow> bool" where
  "ascii_key key \<longleftrightarrow> key \<noteq> [] \<and> (\<forall>b \<in> set key. 0 < unat b \<and> unat b < 128)"

lemma ksa_step_sbox:
  assumes "ascii_key key" "is_sbox S" "0 \<le> j" "i < 256"
  obtains j' S' where "ksa_step key i (j, S) = Some (j', S')" "is_sbox S'" "0 \<le> j'"
proof -
  define j' where "j' = (j + uint (S ! i) + c_char (key ! (i mod length key))) smod 256"
  have "key ! (i mod length key) \<in> set key"
    using assms(1) by (simp add: ascii_key_def)
  then have "0 \<le> c_char (key ! (i mod length key))"
    using assms(1) by (auto simp: ascii_key_def c_char_def)
  then have "j' = (j + uint (S ! i) + c_char (key ! (i mod length key))) mod 256"
    unfolding j'_def using assms(3) by (intro smod_nonneg) auto
  then have "0 \<le> j'" "j' < 256" by simp_all
  with assms(2,4) show thesis
    by (intro that [of j' "swap_at i (nat j') S"])
      (simp_all add: ksa_step_def j'_def [symmetric] is_sbox_swap Let_def)
qed

lemma ksa_loop_sbox:
  assumes "ascii_key key" "is_sbox S" "0 \<le> j" "set is \<subseteq> {..<256}"
  shows "\<exists>j' S'. ksa_loop key is (j, S) = Some (j', S') \<and> is_sbox S'"
  using assms(2-4)
proof (induction "is" arbitrary: j S)
  case (Cons i "is")
  then have "i < 256" by simp
  then obtain j1 S1 where s: "ksa_step key i (j, S) = Some (j1, S1)" "is_sbox S1" "0 \<le> j1"
    by (rule ksa_step_sbox [OF assms(1) Cons.prems(1,2)])
  with Cons.IH [OF s(2,3)] Cons.prems show ?case by simp
qed simp

lemma ksa_ascii:
  assumes "ascii_key key"
  obtains S where "ksa key = Some S" "is_sbox S"
proof -
  obtain j S where "ksa_loop key [0..<256] (0, sbox_init) = Some (j, S)" "is_sbox S"
    using ksa_loop_sbox [OF assms, of sbox_init 0 "[0..<256]"] by (auto simp: is_sbox_def atLeast0LessThan)
  with assms show thesis by (intro that [of S]) (auto simp: ksa_def ascii_key_def)
qed

text \<open>The keystream does not depend on the data: the output is the data XORed with it.\<close>

fun keystream :: "nat \<Rightarrow> nat \<Rightarrow> sbox \<Rightarrow> nat \<Rightarrow> u8 list" where
  "keystream i j S 0 = []"
| "keystream i j S (Suc n) =
     (let i' = (i + 1) mod 256; j' = (j + unat (S ! i')) mod 256; S' = swap_at i' j' S
      in S' ! ((unat (S' ! i') + unat (S' ! j')) mod 256) # keystream i' j' S' n)"

lemma length_keystream [simp]: "length (keystream i j S n) = n"
  by (induction n arbitrary: i j S) (simp_all add: Let_def)

lemma prga_keystream: "prga i j S d = map2 (XOR) d (keystream i j S (length d))"
  by (induction d arbitrary: i j S) (simp_all add: Let_def)

lemma length_prga [simp]: "length (prga i j S d) = length d"
  by (simp add: prga_keystream)

lemma xor_self_cancel: "(a XOR b) XOR b = (a :: 'a::len word)"
  by (simp add: xor.assoc)

lemma map2_xor_twice:
  "length ks = length d \<Longrightarrow> map2 (XOR) (map2 (XOR) d ks) ks = (d :: 'a::len word list)"
  by (induction d ks rule: list_induct2') (auto simp: xor_self_cancel)

lemma prga_involutive: "prga i j S (prga i j S d) = d"
  by (simp add: prga_keystream map2_xor_twice)

section \<open>The interface the protocol code relies on\<close>

text \<open>
  What the dispatcher and the client need of a cipher: with a good key it is defined, keeps the
  length, and applying it twice gives the data back.
\<close>

locale stream_cipher =
  fixes crypt :: "u8 list \<Rightarrow> 'k \<Rightarrow> u8 list option"
    and key_ok :: "'k \<Rightarrow> bool"
  assumes crypt_total: "key_ok k \<Longrightarrow> \<exists>c. crypt d k = Some c"
    and crypt_length: "crypt d k = Some c \<Longrightarrow> length c = length d"
    and crypt_twice: "crypt d k = Some c \<Longrightarrow> crypt c k = Some d"
begin

lemma crypt_inject: "crypt d k = Some c \<Longrightarrow> crypt d' k = Some c \<Longrightarrow> d = d'"
  by (metis crypt_twice option.inject)

lemma crypt_round_trip:
  assumes "key_ok k"
  shows "\<exists>c. crypt d k = Some c \<and> length c = length d \<and> crypt c k = Some d"
  using crypt_total [OF assms, of d] crypt_length crypt_twice by blast

lemma crypt_surj: "key_ok k \<Longrightarrow> \<exists>d. crypt d k = Some c"
  using crypt_round_trip by blast

end

interpretation rc4: stream_cipher rc4_crypt ascii_key
proof unfold_locales
  show "\<exists>c. rc4_crypt d k = Some c" if "ascii_key k" for k d
    using that by (rule ksa_ascii) (simp add: rc4_crypt_def)
qed (auto simp: rc4_crypt_def prga_involutive split: option.splits)

text \<open>
  C35: RC4 round trip: with a key of ASCII characters, as the session keys are, encryption is defined,
  keeps the length, and decrypting with the same key gives the message back.
\<close>

theorem rc4_round_trip:
  assumes "ascii_key k"
  shows "\<exists>c. rc4_crypt d k = Some c \<and> length c = length d \<and> rc4_crypt c k = Some d"
  using assms by (rule rc4.crypt_round_trip)

theorem rc4_round_trip_witness:
  "\<exists>c. rc4_crypt [1, 2, 3] [75, 69, 89] = Some c \<and> length c = 3 \<and> rc4_crypt c [75, 69, 89] = Some [1, 2, 3]"
  using rc4_round_trip [of "[75, 69, 89]" "[1, 2, 3]"] by (simp add: ascii_key_def numeral_3_eq_3)

end
