(* ===== verification/DH_Crypto.thy ===== *)
theory DH_Crypto
  imports RC4
begin

text \<open>
  src/common/dh_crypto.c: modular exponentiation on \<open>long long\<close>, the Diffie-Hellman keys over the
  Mersenne prime 2^31 - 1, and the session key string. A product that leaves the range of
  \<open>long long\<close> is undefined behaviour, as is a remainder by zero: the result is then \<open>None\<close>. The
  remainder \<open>%\<close> truncates toward zero, so a negative public key gives negative residues.
\<close>

section \<open>Modular exponentiation\<close>

definition DH_PRIME :: int where "DH_PRIME = 2147483647"
definition DH_GENERATOR :: int where "DH_GENERATOR = 16807"

definition ll_mul :: "int \<Rightarrow> int \<Rightarrow> int option" where
  "ll_mul a b = (if int64_range (a * b) then Some (a * b) else None)"

function power_mod_loop :: "int \<Rightarrow> int \<Rightarrow> int \<Rightarrow> int \<Rightarrow> int option" where
  "power_mod_loop res base ex m =
     (if 0 < ex
      then case (if ex smod 2 = 1 then map_option (\<lambda>p. p smod m) (ll_mul res base) else Some res) of
             None \<Rightarrow> None
           | Some res' \<Rightarrow>
               (case ll_mul base base of
                  None \<Rightarrow> None
                | Some q \<Rightarrow> power_mod_loop res' (q smod m) (ex div 2) m)
      else Some res)"
  by pat_completeness auto
termination
  by (relation "measure (\<lambda>(res, base, ex, m). nat ex)") auto

declare power_mod_loop.simps [simp del]

definition power_mod :: "int \<Rightarrow> int \<Rightarrow> int \<Rightarrow> int option" where
  "power_mod base ex m = (if m = 0 then None else power_mod_loop 1 (base smod m) ex m)"

section \<open>Truncated residues\<close>

lemma smod_sgn_abs: "(a :: int) smod m = sgn a * (\<bar>a\<bar> mod \<bar>m\<bar>)"
  by (rule smod_int_alt_def)

lemma abs_smod_less: "0 < m \<Longrightarrow> \<bar>a smod m\<bar> < (m :: int)"
  by (simp add: smod_sgn_abs abs_mult abs_sgn_eq)

lemma smod_mult_left: "0 < m \<Longrightarrow> (a smod m * b) smod m = (a * b) smod (m :: int)"
proof -
  assume m: "0 < m"
  define t where "t = \<bar>a\<bar> mod \<bar>m\<bar>"
  have "a smod m = sgn a * t" "0 \<le> t" using m by (simp_all add: smod_sgn_abs t_def)
  then have "sgn (a smod m) = sgn a \<or> a smod m = 0"
    by (cases "t = 0") (simp_all add: sgn_mult)
  moreover have "\<bar>a smod m * b\<bar> mod m = \<bar>a * b\<bar> mod m"
    using m by (cases "a = 0") (auto simp: smod_sgn_abs abs_mult abs_sgn_eq mod_mult_left_eq)
  ultimately show ?thesis
    using m by (auto simp: smod_sgn_abs [of "a smod m * b"] smod_sgn_abs [of "a * b"] sgn_mult)
qed

lemma smod_mult_right: "0 < m \<Longrightarrow> (a * (b smod m)) smod m = (a * b) smod (m :: int)"
  using smod_mult_left [of m b a] by (simp add: mult.commute)

lemma smod_power: "0 < m \<Longrightarrow> (b * (a smod m) ^ n) smod m = (b * a ^ n) smod (m :: int)"
proof (induction n arbitrary: b)
  case (Suc n)
  have "(b * (a smod m) ^ Suc n) smod m = ((b * (a smod m)) * (a smod m) ^ n) smod m"
    by (simp add: mult.assoc)
  also have "\<dots> = ((b * (a smod m)) * a ^ n) smod m" using Suc by blast
  also have "\<dots> = ((b * a ^ n) * (a smod m)) smod m" by (simp add: ac_simps)
  also have "\<dots> = ((b * a ^ n) * a) smod m" by (rule smod_mult_right [OF Suc.prems])
  also have "\<dots> = (b * a ^ Suc n) smod m" by (simp add: ac_simps)
  finally show ?case .
qed simp

lemma smod_less_id: "0 \<le> (a :: int) \<Longrightarrow> a < m \<Longrightarrow> a smod m = a"
  by (simp add: smod_nonneg)

lemma smod_abs_less_id: "\<bar>a :: int\<bar> < m \<Longrightarrow> a smod m = a"
  by (auto simp: smod_sgn_abs mult_sgn_abs)

section \<open>Exponentiation by squaring computes the power\<close>

lemma ll_mul_small: "\<bar>a\<bar> < 2 ^ 31 \<Longrightarrow> \<bar>b\<bar> < 2 ^ 31 \<Longrightarrow> ll_mul a b = Some (a * b)"
proof -
  assume "\<bar>a\<bar> < 2 ^ 31" "\<bar>b\<bar> < 2 ^ 31"
  then have "\<bar>a * b\<bar> \<le> 2 ^ 31 * 2 ^ 31"
    unfolding abs_mult by (intro mult_mono) auto
  then show ?thesis by (auto simp: ll_mul_def int64_range_def abs_le_iff)
qed

lemma power_halves:
  assumes "0 < ex"
  shows "(base :: int) ^ nat ex = (if ex smod 2 = 1 then base else 1) * (base * base) ^ nat (ex div 2)"
proof -
  define n where "n = nat ex"
  have e: "ex = int n" using assms by (simp add: n_def)
  have "ex smod 2 = 1 \<longleftrightarrow> odd n" unfolding e by (simp add: smod_nonneg) presburger
  moreover have "nat (ex div 2) = n div 2" unfolding e by (simp add: nat_div_distrib)
  moreover have "base ^ n = (if odd n then base else 1) * (base * base) ^ (n div 2)"
    by (auto simp flip: power2_eq_square power_mult power_Suc)
  ultimately show ?thesis by (simp add: n_def)
qed

lemma power_mod_loop_correct:
  assumes "1 < m" "m \<le> 2 ^ 31" "\<bar>res\<bar> < m" "\<bar>base\<bar> < m" "0 \<le> ex"
  shows "power_mod_loop res base ex m = Some ((res * base ^ nat ex) smod m)"
  using assms
proof (induction res base ex m rule: power_mod_loop.induct)
  case (1 res base ex m)
  have m: "0 < m" "\<bar>base\<bar> < 2 ^ 31" "\<bar>res\<bar> < 2 ^ 31" using "1.prems" by linarith+
  define r where "r = (if ex smod 2 = 1 then (res * base) smod m else res)"
  have r: "(if ex smod 2 = 1 then map_option (\<lambda>p. p smod m) (ll_mul res base) else Some res) = Some r"
    using ll_mul_small [OF m(3,2)] by (simp add: r_def)
  have rm: "\<bar>r\<bar> < m" using "1.prems" abs_smod_less [OF m(1)] by (simp add: r_def)
  note sq = ll_mul_small [OF m(2,2)]
  show ?case
  proof (cases "0 < ex")
    case True
    let ?h = "nat (ex div 2)"
    have "power_mod_loop res base ex m = power_mod_loop r ((base * base) smod m) (ex div 2) m"
      by (simp only: power_mod_loop.simps [of res base ex m] True r sq option.case if_True)
    also have "\<dots> = Some ((r * ((base * base) smod m) ^ ?h) smod m)"
      using "1.IH" [OF True r sq] "1.prems" rm abs_smod_less [OF m(1)] True by simp
    also have "(r * ((base * base) smod m) ^ ?h) smod m = (r * (base * base) ^ ?h) smod m"
      by (rule smod_power [OF m(1)])
    also have "\<dots> = (res * base ^ nat ex) smod m"
      using smod_mult_left [OF m(1), of "res * base" "(base * base) ^ ?h"]
      by (simp add: r_def power_halves [OF True] mult.assoc)
    finally show ?thesis .
  next
    case False
    with "1.prems" have "ex = 0" by simp
    with "1.prems" show ?thesis
      by (simp add: power_mod_loop.simps [of res base 0 m] smod_abs_less_id)
  qed
qed

lemma power_mod_correct:
  assumes "1 < m" "m \<le> 2 ^ 31" "0 \<le> ex"
  shows "power_mod base ex m = Some ((base ^ nat ex) smod m)"
proof -
  have "power_mod base ex m = Some ((1 * (base smod m) ^ nat ex) smod m)"
    using assms power_mod_loop_correct [of m 1 "base smod m" ex] abs_smod_less [of m base]
    by (simp add: power_mod_def)
  then show ?thesis using smod_power [of m 1 base "nat ex"] assms by simp
qed

section \<open>Diffie-Hellman keys\<close>

definition generate_private_key :: "rng \<Rightarrow> int \<times> rng" where
  "generate_private_key r = (fst (rand_mod 100000 r) + 1, snd (rand_mod 100000 r))"

definition calculate_public_key :: "int \<Rightarrow> int option" where
  "calculate_public_key private_key = power_mod DH_GENERATOR private_key DH_PRIME"

definition calculate_shared_secret :: "int \<Rightarrow> int \<Rightarrow> int option" where
  "calculate_shared_secret other_public_key my_private_key =
     power_mod other_public_key my_private_key DH_PRIME"

lemma generate_private_key_range:
  "generate_private_key r = (k, r') \<Longrightarrow> 1 \<le> k \<and> k \<le> 100000"
  using rand_mod_bounds [of 100000 r] by (auto simp: generate_private_key_def)

text \<open>
  What a key exchange owes its two users: each side's public key is defined and is a valid
  public key, the shared secret is a valid secret, and both sides compute the same one.
\<close>

locale key_agreement =
  fixes pub :: "int \<Rightarrow> int option" and shared :: "int \<Rightarrow> int \<Rightarrow> int option"
    and priv_ok :: "int \<Rightarrow> bool" and pub_ok :: "int \<Rightarrow> bool" and secret_ok :: "int \<Rightarrow> bool"
  assumes pub_defined: "priv_ok a \<Longrightarrow> \<exists>p. pub a = Some p \<and> pub_ok p"
    and shared_defined: "pub_ok p \<Longrightarrow> priv_ok a \<Longrightarrow> \<exists>s. shared p a = Some s \<and> secret_ok s"
    and shared_commute: "priv_ok a \<Longrightarrow> priv_ok b \<Longrightarrow> pub a = Some pa \<Longrightarrow> pub b = Some pb \<Longrightarrow>
      shared pb a = shared pa b"
begin

lemma agreement:
  assumes "priv_ok a" "priv_ok b"
  shows "\<exists>pa pb s. pub a = Some pa \<and> pub b = Some pb \<and> shared pb a = Some s \<and> shared pa b = Some s
    \<and> pub_ok pa \<and> pub_ok pb \<and> secret_ok s"
proof -
  obtain pa pb where p: "pub a = Some pa" "pub_ok pa" "pub b = Some pb" "pub_ok pb"
    using pub_defined assms by metis
  obtain s where "shared pb a = Some s" "secret_ok s"
    using shared_defined [OF p(4) assms(1)] by blast
  with shared_commute [OF assms p(1,3)] p show ?thesis by metis
qed

end

definition dh_residue :: "int \<Rightarrow> bool" where
  "dh_residue x \<longleftrightarrow> 0 \<le> x \<and> x < DH_PRIME"

definition dh_priv :: "int \<Rightarrow> bool" where
  "dh_priv a \<longleftrightarrow> 1 \<le> a \<and> a \<le> 100000"

lemma power_mod_prime:
  "0 \<le> ex \<Longrightarrow> power_mod base ex DH_PRIME = Some ((base ^ nat ex) smod DH_PRIME)"
  by (rule power_mod_correct) (simp_all add: DH_PRIME_def)

lemma DH_PRIME_pos: "0 < DH_PRIME"
  by (simp add: DH_PRIME_def)

lemma power_mod_prime_nonneg:
  "0 \<le> base \<Longrightarrow> 0 \<le> ex \<Longrightarrow> power_mod base ex DH_PRIME = Some ((base ^ nat ex) mod DH_PRIME)"
  by (simp add: power_mod_prime smod_nonneg DH_PRIME_pos)

interpretation dh: key_agreement calculate_public_key calculate_shared_secret dh_priv dh_residue dh_residue
proof unfold_locales
  fix a b pa pb
  assume ab: "dh_priv a" "dh_priv b"
    and p: "calculate_public_key a = Some pa" "calculate_public_key b = Some pb"
  have "pa = DH_GENERATOR ^ nat a mod DH_PRIME" "pb = DH_GENERATOR ^ nat b mod DH_PRIME"
    using p ab by (simp_all add: calculate_public_key_def dh_priv_def power_mod_prime_nonneg DH_GENERATOR_def)
  then have "pb ^ nat a mod DH_PRIME = pa ^ nat b mod DH_PRIME" "0 \<le> pa" "0 \<le> pb"
    by (simp_all add: power_mod mult.commute DH_PRIME_pos flip: power_mult)
  with ab show "calculate_shared_secret pb a = calculate_shared_secret pa b"
    by (simp add: calculate_shared_secret_def power_mod_prime_nonneg dh_priv_def)
qed (auto simp: calculate_public_key_def calculate_shared_secret_def dh_priv_def dh_residue_def
  power_mod_prime_nonneg DH_GENERATOR_def DH_PRIME_pos)

section \<open>The session key string\<close>

text \<open>\<open>snprintf(output_buffer, len, ...)\<close> keeps at most \<open>len - 1\<close> characters.\<close>

definition derive_session_key :: "int \<Rightarrow> nat \<Rightarrow> string" where
  "derive_session_key shared_secret len =
     take (len - 1) (''KEY_'' @ show_int shared_secret @ ''_SECURE'')"

lemma derive_session_key_64:
  assumes "int64_range s"
  shows "derive_session_key s 64 = ''KEY_'' @ show_int s @ ''_SECURE''"
proof -
  have "\<bar>s\<bar> < 10 ^ 19" using assms by (auto simp: int64_range_def abs_less_iff)
  then have "length (show_int s) \<le> 20" using length_show_int [of s 19] by simp
  then show ?thesis by (simp add: derive_session_key_def)
qed

lemma derive_session_key_ascii:
  assumes "int64_range s"
  shows "ascii_key (c_bytes (derive_session_key s 64))"
proof -
  have "0 < (of_char c :: nat) \<and> of_char c < (128 :: nat)" if "c \<in> set (show_int s)" for c
    using set_show_int [OF that] by auto
  then show ?thesis
    by (auto simp: derive_session_key_64 [OF assms] ascii_key_def c_bytes_def)
qed

lemma derive_session_key_inject:
  assumes "int64_range s" "int64_range t"
  shows "derive_session_key s 64 = derive_session_key t 64 \<longleftrightarrow> s = t"
  by (simp add: derive_session_key_64 assms show_int_inject)

lemma dh_residue_int64: "dh_residue s \<Longrightarrow> int64_range s"
  by (simp add: dh_residue_def int64_range_def DH_PRIME_def)

section \<open>What the handshake relies on\<close>



text \<open>
  C36: the two ends of a handshake derive the same session key: for any two keys they draw, both public
  keys and both secrets are computed without overflow, the secrets agree and lie below the prime, and the
  key strings fit their buffers of 64 bytes in full.
\<close>

theorem handshake_agrees:
  assumes "generate_private_key r1 = (a, r1')" "generate_private_key r2 = (b, r2')"
  shows "\<exists>pa pb s. calculate_public_key a = Some pa \<and> calculate_public_key b = Some pb
    \<and> calculate_shared_secret pb a = Some s \<and> calculate_shared_secret pa b = Some s
    \<and> s \<in> {0..<DH_PRIME} \<and> derive_session_key s 64 = ''KEY_'' @ show_int s @ ''_SECURE''"
proof -
  have "dh_priv a" "dh_priv b" using assms by (auto dest: generate_private_key_range simp: dh_priv_def)
  then obtain pa pb s where "calculate_public_key a = Some pa" "calculate_public_key b = Some pb"
    "calculate_shared_secret pb a = Some s" "calculate_shared_secret pa b = Some s" "dh_residue s"
    using dh.agreement by metis
  moreover from \<open>dh_residue s\<close> have "s \<in> {0..<DH_PRIME}" by (simp add: dh_residue_def)
  moreover have "derive_session_key s 64 = ''KEY_'' @ show_int s @ ''_SECURE''"
    by (rule derive_session_key_64 [OF dh_residue_int64 [OF \<open>dh_residue s\<close>]])
  ultimately show ?thesis by blast
qed

theorem handshake_agrees_witness:
  "\<exists>pa pb s. calculate_public_key 1 = Some pa \<and> calculate_public_key 8 = Some pb
    \<and> calculate_shared_secret pb 1 = Some s \<and> calculate_shared_secret pa 8 = Some s
    \<and> s \<in> {0..<DH_PRIME} \<and> derive_session_key s 64 = ''KEY_'' @ show_int s @ ''_SECURE''"
proof (rule handshake_agrees)
  show "generate_private_key (0 ## sconst 0) = (1, sconst 0)"
    by (simp add: generate_private_key_def rand_mod_def c_rand_def)
  show "generate_private_key (7 ## sconst 0) = (8, sconst 0)"
    by (simp add: generate_private_key_def rand_mod_def c_rand_def)
qed

end
