(* ===== verification/Dispatcher.thy ===== *)
theory Dispatcher
  imports Coordinator Ride_Service DH_Crypto
begin

text \<open>
  src/server/dispatcher.c: the worker's side of a connection. \<open>handle_client\<close> is the loop over
  packets, split as the code is: reading a packet into the two stack buffers, the handshake, the
  ride request, the driver join. The buffers are not initialised, so their first contents are part
  of the connection; a short header leaves the old bytes in place. Between its two critical sections
  a request lets other processes run: \<open>env\<close> is what they do to the shared state. A step that is
  undefined behaviour ends in \<open>Crash\<close>: the worker process is gone.
\<close>

section \<open>State of a worker\<close>

record Worker =
  shared :: SharedState
  gen :: rng

datatype step = Continue Conn Worker | Break Conn Worker | Crash Conn Worker

datatype outcome = Returned | Crashed

definition recv_header :: "Conn \<Rightarrow> int \<times> Conn" where
  "recv_header c =
     (let (n, bs, rx') = recv_n header_size (rx c)
      in (n, c\<lparr>rx := rx', header_buf := overlay bs (header_buf c)\<rparr>))"

definition recv_body :: "nat \<Rightarrow> Conn \<Rightarrow> int \<times> Conn" where
  "recv_body len c =
     (let (n, bs, rx') = recv_n len (rx c)
      in (n, c\<lparr>rx := rx', body_buf := overlay bs (body_buf c)\<rparr>))"

text \<open>The first part of the loop body: \<open>None\<close> for each of the three breaks.\<close>

definition read_packet :: "Conn \<Rightarrow> ProtocolHeader option \<times> Conn" where
  "read_packet c =
     (let (bytes_read, c) = recv_header c in
      if bytes_read \<le> 0 then (None, c)
      else let header = header_of (header_buf c) in
        if 1024 < h_length header then (None, c)
        else if 0 < h_length header then
          let (bytes_read, c) = recv_body (unat (h_length header)) c
          in if bytes_read \<noteq> uint (h_length header) then (None, c) else (Some header, c)
        else (Some header, c))"

section \<open>Replies\<close>

text \<open>
  Where the message to send lives: the stack buffer of the caller, or a string literal, which is
  in read-only memory. RC4 encrypts in place.
\<close>

datatype storage = StackBuffer | StringLiteral

definition response_header :: "u8 list \<Rightarrow> u16 \<Rightarrow> ProtocolHeader" where
  "response_header msg opcode =
     \<lparr>h_length = of_nat (length msg), h_type = MSG_TYPE_RIDE_RESP, h_opcode = opcode,
      h_checksum = calculate_checksum msg\<rparr>"

definition send_response_packet :: "storage \<Rightarrow> u8 list \<Rightarrow> u16 \<Rightarrow> string option \<Rightarrow> Conn \<Rightarrow> Conn option" where
  "send_response_packet st msg opcode key c =
     (let resp_header = response_header msg opcode in
      case (case key of
              None \<Rightarrow> Some msg
            | Some k \<Rightarrow> if st = StringLiteral \<and> msg \<noteq> [] then None else rc4_crypt msg (c_bytes k)) of
        None \<Rightarrow> None
      | Some out \<Rightarrow> Some (send_bytes out (send_bytes (header_bytes resp_header) c)))"

definition blocked_text :: string where
  "blocked_text = ''Error: Blocked.''"

definition process_ride_request_wrapper ::
  "(SharedState \<Rightarrow> SharedState) \<Rightarrow> int \<Rightarrow> string option \<Rightarrow> Conn \<Rightarrow> Worker \<Rightarrow> step" where
  "process_ride_request_wrapper env now key c w =
     (let req = ride_request_of (body_buf c);
          client_id = sint (req_client_id req);
          (blocked, s) = check_and_update_rate_limit client_id now (shared w)
      in if blocked then
           (case send_response_packet StringLiteral (c_bytes blocked_text) OP_RESPONSE key c of
              None \<Rightarrow> Crash c (w\<lparr>shared := s\<rparr>)
            | Some c' \<Rightarrow> Break c' (w\<lparr>shared := s\<rparr>))
         else
           let (res, resp_msg, r, s) = handle_ride_request_logic client_id 256 (gen w) (env s)
           in (case send_response_packet StackBuffer (c_bytes resp_msg) OP_RESPONSE key c of
                 None \<Rightarrow> Crash c (w\<lparr>shared := s, gen := r\<rparr>)
               | Some c' \<Rightarrow> Break c' (w\<lparr>shared := s, gen := r\<rparr>)))"

section \<open>The handshake\<close>

definition handshake_header :: ProtocolHeader where
  "handshake_header =
     \<lparr>h_length = of_nat handshake_size, h_type = MSG_TYPE_HANDSHAKE_ACK, h_opcode = OP_HANDSHAKE, h_checksum = 0\<rparr>"

definition handle_handshake :: "Conn \<Rightarrow> Worker \<Rightarrow> step" where
  "handle_handshake c w =
     (let client_pub = sint (public_key (handshake_of (body_buf c)));
          (srv_priv, r) = generate_private_key (gen w);
          w = w\<lparr>gen := r\<rparr>
      in case (calculate_public_key srv_priv, calculate_shared_secret client_pub srv_priv) of
           (Some srv_pub, Some secret) \<Rightarrow>
             let c = c\<lparr>session_key := derive_session_key secret 64, is_key_established := True\<rparr>
             in Continue (send_bytes (handshake_bytes \<lparr>public_key = word_of_int srv_pub\<rparr>)
                            (send_bytes (header_bytes handshake_header) c)) w
         | _ \<Rightarrow> Crash c w)"

section \<open>The loop\<close>

definition handle_join :: "ProtocolHeader \<Rightarrow> Conn \<Rightarrow> Worker \<Rightarrow> step" where
  "handle_join header c w =
     (if h_opcode header = OP_DRIVER_JOIN
      then let (c, s) = process_driver_join c (shared w) in Break c (w\<lparr>shared := s\<rparr>)
      else Continue c w)"

definition handle_ride :: "(SharedState \<Rightarrow> SharedState) \<Rightarrow> int \<Rightarrow> ProtocolHeader \<Rightarrow> Conn \<Rightarrow> Worker \<Rightarrow> step" where
  "handle_ride env now header c w =
     (if \<not> is_key_established c then Break c w
      else case rc4_crypt (take (unat (h_length header)) (body_buf c)) (c_bytes (session_key c)) of
             None \<Rightarrow> Crash c w
           | Some plain \<Rightarrow>
               let c = c\<lparr>body_buf := overlay plain (body_buf c)\<rparr> in
               if calculate_checksum plain \<noteq> h_checksum header then Break c w
               else if h_opcode header = OP_REQ_RIDE
                 then process_ride_request_wrapper env now (Some (session_key c)) c w
               else handle_join header c w)"

definition handle_packet :: "(SharedState \<Rightarrow> SharedState) \<Rightarrow> int \<Rightarrow> ProtocolHeader \<Rightarrow> Conn \<Rightarrow> Worker \<Rightarrow> step" where
  "handle_packet env now header c w =
     (if h_type header = MSG_TYPE_HANDSHAKE then handle_handshake c w
      else if h_type header = MSG_TYPE_RIDE_REQ then handle_ride env now header c w
      else handle_join header c w)"

lemma read_packet_progress: "read_packet c = (Some h, c') \<Longrightarrow> rx_size (rx c') < rx_size (rx c)"
proof -
  assume p: "read_packet c = (Some h, c')"
  obtain n bs rx1 where r1: "recv_n header_size (rx c) = (n, bs, rx1)" by (cases "recv_n header_size (rx c)")
  let ?c = "c\<lparr>rx := rx1, header_buf := overlay bs (header_buf c)\<rparr>"
  let ?h = "header_of (header_buf ?c)"
  obtain n' bs' rx2 where r2: "recv_n (unat (h_length ?h)) rx1 = (n', bs', rx2)"
    by (cases "recv_n (unat (h_length ?h)) rx1")
  have "0 < n" using p r1 by (auto simp: read_packet_def recv_header_def split: if_splits)
  with recv_n_progress [OF r1] have "rx_size rx1 < rx_size (rx c)" by simp
  moreover have "rx c' = rx1 \<or> rx c' = rx2"
    using p r1 r2 by (auto simp: read_packet_def recv_header_def recv_body_def Let_def split: if_splits)
  ultimately show ?thesis using recv_n_size [OF r2] by auto
qed

lemma process_join_frame: "process_driver_join c s = (c', s') \<Longrightarrow> rx c' = rx c"
  by (auto simp: process_driver_join_def)

lemma handle_packet_continue: "handle_packet env now h c w = Continue c' w' \<Longrightarrow> rx c' = rx c"
  by (auto simp: handle_packet_def handle_handshake_def handle_ride_def handle_join_def
      process_ride_request_wrapper_def Let_def split_beta split: if_splits option.splits)

function handle_client :: "(SharedState \<Rightarrow> SharedState) \<Rightarrow> int \<Rightarrow> Conn \<Rightarrow> Worker \<Rightarrow> outcome \<times> Conn \<times> Worker" where
  "handle_client env now c w =
     (case read_packet c of
        (None, c) \<Rightarrow> (Returned, c, w)
      | (Some header, c) \<Rightarrow>
          (case handle_packet env now header c w of
             Continue c w \<Rightarrow> handle_client env now c w
           | Break c w \<Rightarrow> (Returned, c, w)
           | Crash c w \<Rightarrow> (Crashed, c, w)))"
  by pat_completeness auto
termination
  by (relation "measure (\<lambda>(env, now, c, w). rx_size (rx c))")
    (auto dest!: sym [where s = "(_, _)"] read_packet_progress handle_packet_continue)

declare handle_client.simps [simp del]


section \<open>The buffers stay within their arrays\<close>

definition conn_ok :: "Conn \<Rightarrow> bool" where
  "conn_ok c \<longleftrightarrow> length (header_buf c) = header_size \<and> length (body_buf c) = 1024"

lemma recv_loop_length:
  "recv_loop n nleft acc es = (r, bs, es') \<Longrightarrow> length bs \<le> length acc + nleft"
proof (induction n nleft acc es arbitrary: r bs es' rule: recv_loop.induct)
  case (1 n nleft acc es)
  obtain rr es1 where c: "c_read nleft es = (rr, es1)" by (cases "c_read nleft es")
  show ?case
  proof (cases "nleft = 0")
    case False
    show ?thesis
    proof (cases rr)
      case (RdBytes cs)
      then show ?thesis
        using False c c_read_length [of nleft es cs es1] "1.prems" "1.IH"(1) [OF False c [symmetric] RdBytes]
        by (fastforce simp: recv_loop.simps [of n nleft] split: if_splits)
    next
      case RdIntr
      then show ?thesis
        using False c "1.prems" "1.IH"(2) [OF False c [symmetric] RdIntr]
        by (fastforce simp: recv_loop.simps [of n nleft])
    next
      case RdErr
      then show ?thesis using False c "1.prems" by (simp add: recv_loop.simps [of n nleft])
    qed
  qed (use "1.prems" in simp)
qed

lemma recv_n_length: "recv_n n es = (r, bs, es') \<Longrightarrow> length bs \<le> n"
  using recv_loop_length [of n n "[]" es r bs es'] by (simp add: recv_n_def)

lemma read_packet_ok:
  assumes "conn_ok c" "read_packet c = (h, c')"
  shows "conn_ok c'" "session_key c' = session_key c" "is_key_established c' = is_key_established c"
    "sent c' = sent c" "tx c' = tx c" "h = Some hh \<Longrightarrow> unat (h_length hh) \<le> 1024"
proof -
  obtain n bs rx1 where r1: "recv_n header_size (rx c) = (n, bs, rx1)" by (cases "recv_n header_size (rx c)")
  let ?c = "c\<lparr>rx := rx1, header_buf := overlay bs (header_buf c)\<rparr>"
  let ?h = "header_of (header_buf ?c)"
  obtain n' bs' rx2 where r2: "recv_n (unat (h_length ?h)) rx1 = (n', bs', rx2)"
    by (cases "recv_n (unat (h_length ?h)) rx1")
  have l1: "length bs \<le> header_size" by (rule recv_n_length [OF r1])
  have le: "unat (h_length ?h) \<le> 1024" if "\<not> 1024 < h_length ?h"
    using that by (simp add: word_less_nat_alt)
  have l2: "length bs' \<le> 1024" if "\<not> 1024 < h_length ?h"
    using recv_n_length [OF r2] le [OF that] by simp
  note defs = read_packet_def recv_header_def recv_body_def Let_def conn_ok_def
  show "conn_ok c'" using assms r1 r2 l1 l2 by (auto simp: defs length_overlay split: if_splits)
  show "session_key c' = session_key c" "is_key_established c' = is_key_established c"
    "sent c' = sent c" "tx c' = tx c"
    using assms(2) r1 r2 by (auto simp: defs split: if_splits)
  show "h = Some hh \<Longrightarrow> unat (h_length hh) \<le> 1024"
    using assms(2) r1 r2 le by (auto simp: defs split: if_splits)
qed

lemma rc4_length: "rc4_crypt d k = Some c \<Longrightarrow> length c = length d"
  by (rule rc4.crypt_length)

definition step_conn :: "step \<Rightarrow> Conn" where
  "step_conn st = (case st of Continue c w \<Rightarrow> c | Break c w \<Rightarrow> c | Crash c w \<Rightarrow> c)"

definition step_worker :: "step \<Rightarrow> Worker" where
  "step_worker st = (case st of Continue c w \<Rightarrow> w | Break c w \<Rightarrow> w | Crash c w \<Rightarrow> w)"

lemma step_simps [simp]:
  "step_conn (Continue c w) = c" "step_conn (Break c w) = c" "step_conn (Crash c w) = c"
  "step_worker (Continue c w) = w" "step_worker (Break c w) = w" "step_worker (Crash c w) = w"
  by (simp_all add: step_conn_def step_worker_def)

lemma conn_ok_send [simp]: "conn_ok (send_bytes bs c) = conn_ok c"
  by (simp add: conn_ok_def)

lemma send_response_frame:
  "send_response_packet st msg opcode key c = Some c' \<Longrightarrow>
     rx c' = rx c \<and> header_buf c' = header_buf c \<and> body_buf c' = body_buf c"
  by (auto simp: send_response_packet_def Let_def split: option.splits if_splits)

lemma wrapper_conn: "conn_ok c \<Longrightarrow> conn_ok (step_conn (process_ride_request_wrapper env now key c w))"
  by (auto simp: process_ride_request_wrapper_def Let_def split_beta conn_ok_def
      dest!: send_response_frame split: option.splits)

lemma handle_packet_conn:
  assumes "conn_ok c" "unat (h_length h) \<le> 1024"
  shows "conn_ok (step_conn (handle_packet env now h c w))"
proof -
  have join: "conn_ok (step_conn (handle_join h c w))" if "conn_ok c" for c
    using that by (auto simp: handle_join_def process_driver_join_def)
  have hs: "conn_ok (step_conn (handle_handshake c w))"
    using assms(1) by (auto simp: handle_handshake_def Let_def split_beta conn_ok_def split: option.splits)
  have "conn_ok (step_conn (handle_ride env now h c w))"
  proof (cases "rc4_crypt (take (unat (h_length h)) (body_buf c)) (c_bytes (session_key c))")
    case (Some plain)
    have "length plain \<le> 1024" using rc4_length [OF Some] assms(2) by simp
    then have ok: "conn_ok (c\<lparr>body_buf := overlay plain (body_buf c)\<rparr>)"
      using assms(1) by (simp add: conn_ok_def length_overlay)
    show ?thesis
      using Some assms(1) ok join [OF ok] wrapper_conn [OF ok] by (simp add: handle_ride_def Let_def)
  qed (use assms(1) in \<open>simp add: handle_ride_def\<close>)
  then show ?thesis using join [OF assms(1)] hs by (simp add: handle_packet_def)
qed

section \<open>Invariants of the shared state\<close>

text \<open>
  What a worker does to the shared memory is made of three critical sections. A predicate that each
  of them keeps, and that the other processes keep in between, holds again when \<open>handle_client\<close> ends.
\<close>

locale shared_invariant =
  fixes inv :: "SharedState \<Rightarrow> bool"
  assumes limit_keeps: "inv s \<Longrightarrow> inv (snd (check_and_update_rate_limit c now s))"
    and ride_keeps: "inv s \<Longrightarrow> inv (snd (snd (snd (handle_ride_request_logic c n r s))))"
    and join_keeps: "inv s \<Longrightarrow> inv (join_driver d s)"
begin

lemma wrapper_keeps:
  assumes "inv (shared w)" "\<And>s. inv s \<Longrightarrow> inv (env s)"
  shows "inv (shared (step_worker (process_ride_request_wrapper env now key c w)))"
proof -
  let ?id = "sint (req_client_id (ride_request_of (body_buf c)))"
  let ?s = "snd (check_and_update_rate_limit ?id now (shared w))"
  have s: "inv ?s" by (rule limit_keeps [OF assms(1)])
  have "inv (snd (snd (snd (handle_ride_request_logic ?id 256 (gen w) (env ?s)))))"
    by (rule ride_keeps [OF assms(2) [OF s]])
  with s show ?thesis
    by (auto simp: process_ride_request_wrapper_def Let_def split_beta split: option.splits)
qed

lemma packet_keeps:
  assumes "inv (shared w)" "\<And>s. inv s \<Longrightarrow> inv (env s)"
  shows "inv (shared (step_worker (handle_packet env now h c w)))"
proof -
  have join: "inv (shared (step_worker (handle_join h c w)))" for c
    using assms(1) join_keeps by (auto simp: handle_join_def process_driver_join_def)
  have "inv (shared (step_worker (handle_handshake c w)))"
    using assms(1) by (auto simp: handle_handshake_def Let_def split_beta split: option.splits)
  then show ?thesis
    using assms join wrapper_keeps [OF assms]
    by (auto simp: handle_packet_def handle_ride_def Let_def split: option.splits)
qed

lemma client_keeps:
  assumes env: "\<And>s. inv s \<Longrightarrow> inv (env s)"
  shows "inv (shared w) \<Longrightarrow> handle_client env now c w = (res, c', w') \<Longrightarrow> inv (shared w')"
proof (induction "rx_size (rx c)" arbitrary: c w res c' w' rule: less_induct)
  case less
  obtain h c1 where p: "read_packet c = (h, c1)" by (cases "read_packet c")
  note step = less.prems(2) p handle_client.simps [of env now c]
  show ?case
  proof (cases h)
    case None
    then show ?thesis using less.prems(1) step by simp
  next
    case (Some header)
    note keeps = packet_keeps [of w env now header c1, OF less.prems(1) env]
    show ?thesis
    proof (cases "handle_packet env now header c1 w")
      case (Continue c2 w2)
      have "rx_size (rx c2) < rx_size (rx c)"
        using read_packet_progress [of c header c1] p Some handle_packet_continue [OF Continue] by simp
      then show ?thesis using less.hyps [of c2 w2] keeps step Some Continue by simp
    qed (use keeps step Some in auto)
  qed
qed

end

lemma rate_limit_state_ok: "state_ok s \<Longrightarrow> state_ok (snd (check_and_update_rate_limit c now s))"
  by (simp add: state_ok_def rate_limit_wf)

interpretation consistent: shared_invariant state_ok
  by unfold_locales (simp_all add: rate_limit_state_ok ride_request_state_ok join_driver_ok)

text \<open>The stack buffers keep their size along the loop.\<close>

lemma handle_client_conn_ok:
  "conn_ok c \<Longrightarrow> handle_client env now c w = (res, c', w') \<Longrightarrow> conn_ok c'"
proof (induction "rx_size (rx c)" arbitrary: c w res c' w' rule: less_induct)
  case less
  obtain h c1 where p: "read_packet c = (h, c1)" by (cases "read_packet c")
  note ok1 = read_packet_ok [OF less.prems(1) p]
  note step = less.prems(2) p handle_client.simps [of env now c]
  show ?case
  proof (cases h)
    case None
    then show ?thesis using step ok1(1) by simp
  next
    case (Some header)
    have ok2: "conn_ok (step_conn (handle_packet env now header c1 w))"
      by (rule handle_packet_conn [OF ok1(1) ok1(6) [OF Some]])
    show ?thesis
    proof (cases "handle_packet env now header c1 w")
      case (Continue c2 w2)
      have "rx_size (rx c2) < rx_size (rx c)"
        using read_packet_progress [of c header c1] p Some handle_packet_continue [OF Continue] by simp
      then show ?thesis using less.hyps [of c2 w2] ok2 step Some Continue by simp
    qed (use ok2 step Some in auto)
  qed
qed

section \<open>Packets on a clean stream\<close>

text \<open>A fresh connection: the buffers hold whatever the stack held.\<close>

definition new_conn :: "rx_event list \<Rightarrow> u8 list \<Rightarrow> u8 list \<Rightarrow> Conn" where
  "new_conn es hb bb = \<lparr>rx = es, tx = [], sent = [], header_buf = hb, body_buf = bb, session_key = [],
     is_key_established = False\<rparr>"

text \<open>A packet on a stream that delivers is read in full, and the rest of the stream is still there.\<close>

context byte_stream
begin

lemma read_packet:
  assumes "holds (rx c) (header_bytes h @ body @ rest)"
    and "length body = unat (h_length h)" "length body \<le> 1024"
  obtains es where "holds es rest"
    "read_packet c = (Some h, c\<lparr>rx := es, header_buf := overlay (header_bytes h) (header_buf c),
       body_buf := overlay body (body_buf c)\<rparr>)"
proof -
  obtain es1 where r1: "recv_n header_size (rx c) = (int header_size, header_bytes h, es1)" "holds es1 (body @ rest)"
    by (rule recv [OF assms(1)]) (simp add: hdr.enc_length)
  obtain es2 where r2: "recv_n (unat (h_length h)) es1 = (uint (h_length h), body, es2)" "holds es2 rest"
    by (rule recv [OF r1(2) assms(2)]) simp
  have le: "\<not> 1024 < h_length h" using assms(2,3) by (simp add: word_less_nat_alt)
  show thesis
  proof (cases "h_length h = 0")
    case True
    then have "body = []" "es2 = es1" using assms(2) r2(1) by (simp_all add: recv_n_def)
    then show thesis
      using r1(1) r2(2) True le by (intro that [of es1])
        (simp_all add: read_packet_def recv_header_def hdr.dec_overlay header_size_def)
  next
    case False
    then show thesis
      using r1(1) r2 le by (intro that [of es2])
        (simp_all add: read_packet_def recv_header_def recv_body_def hdr.dec_overlay header_size_def word_gt_0)
  qed
qed

lemma client_packet:
  assumes "holds (rx c) (header_bytes h @ body @ rest)"
    and "length body = unat (h_length h)" "length body \<le> 1024"
  obtains es where "holds es rest"
    "handle_client env now c w =
       (case handle_packet env now h (c\<lparr>rx := es, header_buf := overlay (header_bytes h) (header_buf c),
               body_buf := overlay body (body_buf c)\<rparr>) w of
          Continue c w \<Rightarrow> handle_client env now c w
        | Break c w \<Rightarrow> (Returned, c, w) | Crash c w \<Rightarrow> (Crashed, c, w))"
  by (rule read_packet [OF assms]) (auto simp: handle_client.simps [of env now c])

end

lemma read_packet_clean:
  assumes "rx_clean (rx c)" "rx_bytes (rx c) = header_bytes h @ body @ rest"
    and "length body = unat (h_length h)" "length body \<le> 1024"
  obtains es where "rx_clean es" "rx_bytes es = rest"
    "read_packet c = (Some h, c\<lparr>rx := es, header_buf := overlay (header_bytes h) (header_buf c),
       body_buf := overlay body (body_buf c)\<rparr>)"
proof -
  have "closed_after (rx c) (header_bytes h @ body @ rest)" using assms(1,2) by (simp add: closed_after_def)
  then show thesis by (rule closed.read_packet [OF _ assms(3,4)]) (rule that; simp add: closed_after_def)
qed

lemma handle_client_packet:
  assumes "rx_clean (rx c)" "rx_bytes (rx c) = header_bytes h @ body @ rest"
    and "length body = unat (h_length h)" "length body \<le> 1024"
  obtains es where "rx_clean es" "rx_bytes es = rest"
    "handle_client env now c w =
       (case handle_packet env now h (c\<lparr>rx := es, header_buf := overlay (header_bytes h) (header_buf c),
               body_buf := overlay body (body_buf c)\<rparr>) w of
          Continue c w \<Rightarrow> handle_client env now c w
        | Break c w \<Rightarrow> (Returned, c, w) | Crash c w \<Rightarrow> (Crashed, c, w))"
proof -
  have "closed_after (rx c) (header_bytes h @ body @ rest)" using assms(1,2) by (simp add: closed_after_def)
  then show thesis by (rule closed.client_packet [OF _ assms(3,4)]) (rule that; simp add: closed_after_def)
qed

text \<open>The handshake always succeeds, whatever value the client sends as its public key.\<close>

lemma shared_secret_range:
  assumes "dh_priv a" obtains sec where "calculate_shared_secret x a = Some sec" "int64_range sec"
proof -
  have "calculate_shared_secret x a = Some ((x ^ nat a) smod DH_PRIME)"
    using assms by (simp add: calculate_shared_secret_def power_mod_prime dh_priv_def)
  moreover have "\<bar>(x ^ nat a) smod DH_PRIME\<bar> < DH_PRIME" by (rule abs_smod_less [OF DH_PRIME_pos])
  then have "int64_range ((x ^ nat a) smod DH_PRIME)" by (auto simp: int64_range_def DH_PRIME_def abs_less_iff)
  ultimately show thesis by (rule that)
qed

lemma private_key_priv: "generate_private_key r = (a, r') \<Longrightarrow> dh_priv a"
  using generate_private_key_range by (simp add: dh_priv_def)

lemma handle_handshake_total:
  assumes "generate_private_key (gen w) = (b, r)"
  obtains p sec where "calculate_public_key b = Some p" "dh_residue p"
    "calculate_shared_secret (sint (public_key (handshake_of (body_buf c)))) b = Some sec" "int64_range sec"
    "handle_handshake c w = Continue
       (send_bytes (handshake_bytes \<lparr>public_key = word_of_int p\<rparr>) (send_bytes (header_bytes handshake_header)
          (c\<lparr>session_key := derive_session_key sec 64, is_key_established := True\<rparr>))) (w\<lparr>gen := r\<rparr>)"
proof -
  have b: "dh_priv b" by (rule private_key_priv [OF assms])
  obtain p where p: "calculate_public_key b = Some p" "dh_residue p" using dh.pub_defined [OF b] by blast
  obtain sec where "calculate_shared_secret (sint (public_key (handshake_of (body_buf c)))) b = Some sec" "int64_range sec"
    by (rule shared_secret_range [OF b])
  with p show thesis by (intro that [of p sec]) (simp_all add: handle_handshake_def assms)
qed


lemma zero_state_ok: "state_ok zero_state"
  by (simp add: state_ok_def active_drivers_def wf_zero_state) (simp add: zero_state_def)

definition idle_worker :: "SharedState \<Rightarrow> Worker" where
  "idle_worker s = \<lparr>shared = s, gen = sconst 0\<rparr>"

lemma conn_ok_new: "length hb = 9 \<Longrightarrow> length bb = 1024 \<Longrightarrow> conn_ok (new_conn es hb bb)"
  by (simp add: conn_ok_def new_conn_def header_size_def)

section \<open>Properties\<close>

text \<open>
  C17: whatever bytes arrive in whatever chunks, and whatever consistent changes other processes make
  between its critical sections, \<open>handle_client\<close> leaves the shared state consistent and the two stack
  buffers at their size: no packet writes past the 1024 bytes of the body.
\<close>

theorem handle_client_safe:
  assumes "\<And>s. state_ok s \<Longrightarrow> state_ok (env s)" "state_ok (shared w)" "conn_ok c"
    and "handle_client env now c w = (res, c', w')"
  shows "state_ok (shared w') \<and> conn_ok c'"
  using consistent.client_keeps [of env, OF assms(1,2,4)] handle_client_conn_ok [OF assms(3,4)] by simp

theorem handle_client_safe_witness:
  "state_ok (shared (snd (snd (handle_client id 0
     (new_conn [Data (replicate 50 255)] (replicate 9 0) (replicate 1024 0)) (idle_worker zero_state)))))"
proof -
  let ?c = "new_conn [Data (replicate 50 255)] (replicate 9 0) (replicate 1024 0)" and ?w = "idle_worker zero_state"
  obtain res c' w' where r: "handle_client id 0 ?c ?w = (res, c', w')" by (cases "handle_client id 0 ?c ?w")
  have "state_ok (shared ?w)" by (simp add: idle_worker_def zero_state_ok)
  from handle_client_safe [OF _ this conn_ok_new r] r show ?thesis by simp
qed

text \<open>
  C23: no service without a handshake: a ride request as the first packet of a connection ends it with
  nothing sent and the worker's state untouched, whatever the packet holds.
\<close>

theorem no_handshake_no_ride:
  assumes "rx_clean es" "rx_bytes es = header_bytes h @ body @ rest" "h_type h = MSG_TYPE_RIDE_REQ"
    and "length body = unat (h_length h)" "length body \<le> 1024"
  shows "\<exists>c'. handle_client env now (new_conn es hb bb) w = (Returned, c', w) \<and> sent c' = []"
proof -
  let ?c = "new_conn es hb bb"
  have c: "rx_clean (rx ?c)" "rx_bytes (rx ?c) = header_bytes h @ body @ rest" using assms(1,2) by (simp_all add: new_conn_def)
  obtain es' where "handle_client env now ?c w =
       (case handle_packet env now h (?c\<lparr>rx := es', header_buf := overlay (header_bytes h) (header_buf ?c),
               body_buf := overlay body (body_buf ?c)\<rparr>) w of
          Continue c w \<Rightarrow> handle_client env now c w
        | Break c w \<Rightarrow> (Returned, c, w) | Crash c w \<Rightarrow> (Crashed, c, w))"
    by (rule handle_client_packet [OF c assms(4,5)])
  then show ?thesis
    using assms(3) by (simp add: handle_packet_def handle_ride_def new_conn_def protocol_consts)
qed

theorem no_handshake_no_ride_witness:
  "\<exists>c'. handle_client id 100 (new_conn
       [Data (header_bytes \<lparr>h_length = 0, h_type = MSG_TYPE_RIDE_REQ, h_opcode = OP_REQ_RIDE, h_checksum = 0xFFFF\<rparr>)]
       (replicate 9 0) (replicate 1024 0)) (idle_worker zero_state) = (Returned, c', idle_worker zero_state) \<and> sent c' = []"
  by (rule no_handshake_no_ride [where body = "[]" and rest = "[]"
        and h = "\<lparr>h_length = 0, h_type = MSG_TYPE_RIDE_REQ, h_opcode = OP_REQ_RIDE, h_checksum = 0xFFFF\<rparr>"])
    (simp_all add: rx_clean_def header_bytes_def)

lemma rc4_tamper:
  assumes "rc4_crypt c k = Some d" "i < length c" "b \<noteq> c ! i"
  obtains b' where "rc4_crypt (c[i := b]) k = Some (d[i := b'])" "b' \<noteq> d ! i"
proof -
  obtain S where S: "ksa k = Some S" "d = prga 0 0 S c"
    using assms(1) by (auto simp: rc4_crypt_def split: option.splits)
  let ?ks = "keystream 0 0 S (length c)"
  have d: "d = map2 (XOR) c ?ks" using S(2) by (simp add: prga_keystream)
  have "prga 0 0 S (c[i := b]) = map2 (XOR) (c[i := b]) ?ks" by (simp add: prga_keystream)
  also have "\<dots> = d[i := b XOR ?ks ! i]"
    using assms(2) by (intro nth_equalityI) (auto simp: d nth_list_update)
  finally have "rc4_crypt (c[i := b]) k = Some (d[i := b XOR ?ks ! i])" using S(1) by (simp add: rc4_crypt_def)
  moreover have "b XOR ?ks ! i \<noteq> d ! i"
  proof
    assume "b XOR ?ks ! i = d ! i"
    then have "(b XOR ?ks ! i) XOR ?ks ! i = (c ! i XOR ?ks ! i) XOR ?ks ! i" using assms(2) by (simp add: d)
    with assms(3) show False by (simp only: xor_self_cancel)
  qed
  ultimately show thesis by (rule that)
qed

lemma byte_sum_update:
  "i < length xs \<Longrightarrow> byte_sum (xs[i := b]) + unat (xs ! i) = byte_sum xs + unat b"
proof (induction xs arbitrary: i)
  case (Cons x xs)
  then show ?case by (cases i) auto
qed simp

lemma checksum_one_byte:
  assumes "i < length xs" "b \<noteq> xs ! i" "length xs \<le> 16843009"
  shows "calculate_checksum (xs[i := b]) \<noteq> calculate_checksum xs"
proof -
  have u: "unat b < 256" "unat (xs ! i) < 256"
    using unsigned_less [of b, where ?'a = nat] unsigned_less [of "xs ! i", where ?'a = nat] by simp_all
  have "unat b \<noteq> unat (xs ! i)" using assms(2) by (simp add: word_unat_eq_iff)
  then have ne: "byte_sum (xs[i := b]) \<noteq> byte_sum xs" using byte_sum_update [OF assms(1), of b] by auto
  have close: "byte_sum (xs[i := b]) - byte_sum xs < 65535" "byte_sum xs - byte_sum (xs[i := b]) < 65535"
    using byte_sum_update [OF assms(1), of b] u by linarith+
  have "ones_residue (byte_sum (xs[i := b])) \<noteq> ones_residue (byte_sum xs)"
    using ones_residue_close [of "byte_sum xs" "byte_sum (xs[i := b])"]
      ones_residue_close [of "byte_sum (xs[i := b])" "byte_sum xs"] ne close by (metis nat_neq_iff)
  then show ?thesis using checksum_eq_iff [of "xs[i := b]" xs] assms(3) by simp
qed

text \<open>
  C24: integrity: when one byte of the ciphertext of a ride request is changed on the way, the
  decrypted request no longer matches the checksum of the header, and the packet ends the connection
  without a reply and without a change of the shared state.
\<close>

theorem tampered_request_rejected:
  assumes "h_type h = MSG_TYPE_RIDE_REQ" "is_key_established c" "length body = unat (h_length h)" "length body \<le> 1024"
    and "rc4_crypt body (c_bytes (session_key c)) = Some plain" "h_checksum h = calculate_checksum plain"
    and "i < length body" "b \<noteq> body ! i" "body_buf c = overlay (body[i := b]) old"
  shows "\<exists>c'. handle_packet env now h c w = Break c' w \<and> sent c' = sent c"
proof -
  obtain b' where t: "rc4_crypt (body[i := b]) (c_bytes (session_key c)) = Some (plain[i := b'])" "b' \<noteq> plain ! i"
    by (rule rc4_tamper [OF assms(5,7,8)])
  have len: "length plain = length body" using rc4_length [OF assms(5)] .
  have "take (unat (h_length h)) (body_buf c) = body[i := b]"
    using assms(3,9) take_overlay [of "body[i := b]" old] by simp
  moreover have "calculate_checksum (plain[i := b']) \<noteq> h_checksum h"
    using checksum_one_byte [of i plain b'] assms(4,6,7) t(2) len by simp
  ultimately show ?thesis
    using assms(1,2) t(1) by (simp add: handle_packet_def handle_ride_def protocol_consts Let_def)
qed


definition session_conn :: "string \<Rightarrow> u8 list \<Rightarrow> Conn" where
  "session_conn key bb = \<lparr>rx = [], tx = [], sent = [], header_buf = replicate 9 0, body_buf = bb, session_key = key,
     is_key_established = True\<rparr>"

definition ride_header :: "u32 \<Rightarrow> u16 \<Rightarrow> ProtocolHeader" where
  "ride_header len cs = \<lparr>h_length = len, h_type = MSG_TYPE_RIDE_REQ, h_opcode = OP_REQ_RIDE, h_checksum = cs\<rparr>"

lemma demo_key: "ascii_key (c_bytes (derive_session_key 1 64))"
  by (rule derive_session_key_ascii) (simp add: int64_range_def)

theorem tampered_request_rejected_witness:
  "\<exists>plain c'. rc4_crypt (replicate 24 0) (c_bytes (derive_session_key 1 64)) = Some plain
     \<and> handle_packet id 100 (ride_header 24 (calculate_checksum plain))
         (session_conn (derive_session_key 1 64) (overlay ((replicate 24 0)[3 := 1]) [])) (idle_worker zero_state)
       = Break c' (idle_worker zero_state) \<and> sent c' = []"
proof -
  obtain plain where p: "rc4_crypt (replicate 24 0) (c_bytes (derive_session_key 1 64)) = Some plain"
    using rc4.crypt_total [OF demo_key] by blast
  from tampered_request_rejected [of "ride_header 24 (calculate_checksum plain)"
      "session_conn (derive_session_key 1 64) (overlay ((replicate 24 0)[3 := 1]) [])" "replicate 24 0" plain 3 1 "[]"
      id 100 "idle_worker zero_state"] p
  show ?thesis by (simp add: ride_header_def session_conn_def)
qed

lemma blocked_wrapper:
  assumes "fst (check_and_update_rate_limit (sint (req_client_id (ride_request_of (body_buf c)))) now (shared w))"
  shows "process_ride_request_wrapper env now (Some k) c w =
    Crash c (w\<lparr>shared := snd (check_and_update_rate_limit (sint (req_client_id (ride_request_of (body_buf c)))) now (shared w))\<rparr>)"
  using assms by (simp add: process_ride_request_wrapper_def Let_def split_beta send_response_packet_def
      blocked_text_def c_bytes_def)

lemma handle_packet_ride:
  assumes "h_type h = MSG_TYPE_RIDE_REQ" "h_opcode h = OP_REQ_RIDE" "is_key_established c"
    and "rc4_crypt (take (unat (h_length h)) (body_buf c)) (c_bytes (session_key c)) = Some plain"
    and "h_checksum h = calculate_checksum plain"
  shows "handle_packet env now h c w =
    process_ride_request_wrapper env now (Some (session_key c)) (c\<lparr>body_buf := overlay plain (body_buf c)\<rparr>) w"
  using assms by (simp add: handle_packet_def handle_ride_def protocol_consts Let_def)

text \<open>
  the rate limiter kills the worker. The reply to a blocked request is the string literal
  "Error: Blocked.", which \<open>send_response_packet\<close> encrypts in place: a write to read-only memory. So
  every authentic request beyond the third of its client in a second ends in a crash of the process
  that serves it, and the client never receives a reply.
\<close>

theorem blocked_request_crashes:
  assumes "h_type h = MSG_TYPE_RIDE_REQ" "h_opcode h = OP_REQ_RIDE" "is_key_established c"
    and "rc4_crypt (take (unat (h_length h)) (body_buf c)) (c_bytes (session_key c)) = Some plain"
    and "h_checksum h = calculate_checksum plain" "wf_state (shared w)"
    and "cid = sint (req_client_id (ride_request_of (overlay plain (body_buf c))))" "limited_id cid"
    and "3 \<le> seen_in cid now (shared w)"
  shows "\<exists>c' w'. handle_packet env now h c w = Crash c' w' \<and> sent c' = sent c"
proof -
  let ?c = "c\<lparr>body_buf := overlay plain (body_buf c)\<rparr>"
  have cid: "cid = sint (req_client_id (ride_request_of (body_buf ?c)))" using assms(7) by simp
  have "fst (check_and_update_rate_limit cid now (shared w))"
    using rate_limit_self(1) [OF assms(6,8)] assms(9) by simp
  from blocked_wrapper [OF this [unfolded cid]] show ?thesis
    using handle_packet_ride [OF assms(1-5)] by simp
qed

definition flooded :: SharedState where
  "flooded = zero_state\<lparr>client_last_seen := (replicate 2000 0)[7 := 100], client_req_count := (replicate 2000 0)[7 := 3]\<rparr>"

definition demo_request :: RideRequestData where
  "demo_request = \<lparr>req_client_id = 7, req_type = 1, req_lat = 0, req_lon = 0\<rparr>"

theorem blocked_request_crashes_witness:
  "\<exists>cipher c' w'. rc4_crypt cipher (c_bytes (derive_session_key 1 64)) = Some (ride_request_bytes demo_request)
     \<and> handle_packet id 100 (ride_header 24 (calculate_checksum (ride_request_bytes demo_request)))
         (session_conn (derive_session_key 1 64) cipher) (idle_worker flooded) = Crash c' w' \<and> sent c' = []"
proof -
  obtain cipher where c: "rc4_crypt cipher (c_bytes (derive_session_key 1 64)) = Some (ride_request_bytes demo_request)"
    using rc4.crypt_surj [OF demo_key] by blast
  have len: "length cipher = 24"
    using rc4_length [OF c] rrq.enc_length [of demo_request] by (simp add: ride_request_size_def)
  have id: "sint (req_client_id (ride_request_of (overlay (ride_request_bytes demo_request) cipher))) = 7"
    by (simp add: rrq.dec_overlay demo_request_def)
  have "wf_state flooded" "seen_in 7 100 flooded = 3" "limited_id 7"
    by (simp_all add: flooded_def wf_state_def zero_state_def MAX_CLIENTS_def seen_in_def limited_id_def)
  with blocked_request_crashes [of "ride_header 24 (calculate_checksum (ride_request_bytes demo_request))"
      "session_conn (derive_session_key 1 64) cipher" "ride_request_bytes demo_request" "idle_worker flooded" 7 100 id]
    c len id
  have "\<exists>c' w'. handle_packet id 100 (ride_header 24 (calculate_checksum (ride_request_bytes demo_request)))
         (session_conn (derive_session_key 1 64) cipher) (idle_worker flooded) = Crash c' w' \<and> sent c' = []"
    by (simp add: ride_header_def session_conn_def idle_worker_def)
  with c show ?thesis by blast
qed

text \<open>
  a ride request of length 0 with the checksum of the empty message (0xFFFF) passes the integrity
  check, and the request served is whatever an earlier packet left in the body buffer, in clear: the
  checksum does not cover the data that is used.
\<close>

theorem empty_request_uses_old_body:
  assumes "is_key_established c" "ascii_key (c_bytes (session_key c))"
  shows "handle_packet env now (ride_header 0 0xFFFF) c w =
    process_ride_request_wrapper env now (Some (session_key c)) c w"
proof -
  obtain d where "rc4_crypt [] (c_bytes (session_key c)) = Some d" "length d = 0"
    using rc4.crypt_round_trip [OF assms(2), of "[]"] by auto
  then have "rc4_crypt [] (c_bytes (session_key c)) = Some []" by simp
  moreover have "calculate_checksum [] = 0xFFFF"
    using unat_calculate_checksum [of "[]"] by (simp add: word_unat_eq_iff ones_residue_def)
  ultimately show ?thesis
    using handle_packet_ride [of "ride_header 0 0xFFFF" c "[]" env now w] assms(1) by (simp add: ride_header_def)
qed

theorem empty_request_uses_old_body_witness:
  "handle_packet id 100 (ride_header 0 0xFFFF)
     (session_conn (derive_session_key 1 64) (ride_request_bytes demo_request)) (idle_worker flooded) =
   process_ride_request_wrapper id 100 (Some (derive_session_key 1 64))
     (session_conn (derive_session_key 1 64) (ride_request_bytes demo_request)) (idle_worker flooded)"
  using empty_request_uses_old_body [of "session_conn (derive_session_key 1 64) (ride_request_bytes demo_request)"
      id 100 "idle_worker flooded"] demo_key by (simp add: session_conn_def)

end
