(* ===== verification/Client_Core.thy ===== *)
theory Client_Core
  imports Dispatcher
begin

text \<open>
  src/client/client_core.c: the client's side of a connection, \<open>perform_dh_handshake\<close> and
  \<open>perform_ride_request\<close>, and what the two sides achieve together. The socket is the
  \<open>Conn\<close> record of the server model; \<open>jh\<close> and \<open>jb\<close> are what the uninitialised stack structs
  hold before \<open>recv_n\<close> fills them. Undefined behaviour gives \<open>None\<close>. The hex dumps it
  prints for client 1 and the clock are in \<open>Client_Clock\<close>; the driver number \<open>sscanf\<close> stores in a
  variable nobody reads is left out.
\<close>

section \<open>The client\<close>

definition c_send :: "u8 list \<Rightarrow> Conn \<Rightarrow> int \<times> Conn" where
  "c_send bs c = (let (r, out, tx') = send_n bs (tx c) in (r, c\<lparr>tx := tx', sent := sent c @ out\<rparr>))"

definition c_recv :: "nat \<Rightarrow> u8 list \<Rightarrow> Conn \<Rightarrow> int \<times> u8 list \<times> Conn" where
  "c_recv n buf c = (let (r, bs, rx') = recv_n n (rx c) in (r, overlay bs buf, c\<lparr>rx := rx'\<rparr>))"

definition hello_header :: ProtocolHeader where
  "hello_header =
     \<lparr>h_length = of_nat handshake_size, h_type = MSG_TYPE_HANDSHAKE, h_opcode = OP_HANDSHAKE, h_checksum = 0\<rparr>"

text \<open>The result is the return code and the key string when it is 0.\<close>

definition perform_dh_handshake :: "rng \<Rightarrow> u8 list \<Rightarrow> u8 list \<Rightarrow> Conn \<Rightarrow> (int \<times> string \<times> rng \<times> Conn) option" where
  "perform_dh_handshake r jh jb c =
     (let (my_priv, r) = generate_private_key r in
      case calculate_public_key my_priv of
        None \<Rightarrow> None
      | Some my_pub \<Rightarrow>
          let (n, c) = c_send (header_bytes hello_header) c in
          if n \<le> 0 then Some (- 1, [], r, c) else
          let (n, c) = c_send (handshake_bytes \<lparr>public_key = word_of_int my_pub\<rparr>) c in
          if n \<le> 0 then Some (- 1, [], r, c) else
          let (n, resp_header, c) = c_recv header_size jh c in
          if n \<le> 0 then Some (- 1, [], r, c) else
          if h_type (header_of resp_header) \<noteq> MSG_TYPE_HANDSHAKE_ACK then Some (- 1, [], r, c) else
          let (n, resp_body, c) = c_recv handshake_size jb c in
          if n \<le> 0 then Some (- 1, [], r, c) else
          (case calculate_shared_secret (sint (public_key (handshake_of resp_body))) my_priv of
             None \<Rightarrow> None
           | Some shared_secret \<Rightarrow> Some (0, derive_session_key shared_secret 64, r, c)))"

text \<open>The bit patterns of the doubles 25.0330 and 121.5654.\<close>

definition LAT_BITS :: u64 where "LAT_BITS = 0x40390872B020C49C"
definition LON_BITS :: u64 where "LON_BITS = 0x405E642F837B4A23"

definition make_request :: "int \<Rightarrow> RideRequestData" where
  "make_request client_id = \<lparr>req_client_id = word_of_int client_id, req_type = (if client_id \<le> 10 then 1 else 0),
     req_lat = LAT_BITS, req_lon = LON_BITS\<rparr>"

text \<open>\<open>strstr\<close> on a buffer: the needle occurs before the first NUL.\<close>

fun contains :: "u8 list \<Rightarrow> u8 list \<Rightarrow> bool" where
  "contains pat [] = (pat = [])"
| "contains pat (x # xs) = (take (length pat) (x # xs) = pat \<or> contains pat xs)"

definition strstr :: "u8 list \<Rightarrow> string \<Rightarrow> bool" where
  "strstr buf pat = contains (c_bytes pat) (takeWhile (\<lambda>b. b \<noteq> 0) buf)"

definition parse_reply :: "u8 list \<Rightarrow> int" where
  "parse_reply msg = (if strstr msg ''Ride Confirmed!'' then 0 else if strstr msg ''Blocked.'' then - 2 else - 1)"

definition write_text :: "string \<Rightarrow> u8 list \<Rightarrow> u8 list" where
  "write_text s buf = overlay (c_bytes s @ [0]) buf"

text \<open>The result is the return code and the message buffer.\<close>

definition receive_reply :: "string \<Rightarrow> u8 list \<Rightarrow> u8 list \<Rightarrow> Conn \<Rightarrow> (int \<times> u8 list \<times> Conn) option" where
  "receive_reply key jh msg c =
     (let (n, resp, c) = c_recv header_size jh c;
          resp_header = header_of resp;
          len = unat (h_length resp_header)
      in if n \<le> 0 then Some (- 1, msg, c)
         else if 0 < len \<and> len < 1024 then
           let (n, msg, c) = c_recv len msg c in
           if n \<le> 0 then Some (- 1, msg, c)
           else let msg = msg[len := 0] in
             (case rc4_crypt (take len msg) (c_bytes key) of
                None \<Rightarrow> None
              | Some plain \<Rightarrow>
                  let msg = overlay plain msg in
                  if calculate_checksum plain \<noteq> h_checksum resp_header
                  then Some (- 1, write_text ''Checksum Mismatch'' msg, c)
                  else Some (parse_reply msg, msg, c))
         else Some (- 1, msg, c))"

definition perform_ride_request ::
  "int \<Rightarrow> rng \<Rightarrow> u8 list \<Rightarrow> u8 list \<Rightarrow> u8 list \<Rightarrow> Conn \<Rightarrow> (int \<times> u8 list \<times> rng \<times> Conn) option" where
  "perform_ride_request client_id r jh jb msg c =
     (case perform_dh_handshake r jh jb c of
        None \<Rightarrow> None
      | Some (res, key, r, c) \<Rightarrow>
          if res < 0 then Some (- 1, write_text ''Handshake Failed'' msg, r, c)
          else let body = ride_request_bytes (make_request client_id);
                   req_header = \<lparr>h_length = of_nat ride_request_size, h_type = MSG_TYPE_RIDE_REQ,
                     h_opcode = OP_REQ_RIDE, h_checksum = calculate_checksum body\<rparr>
               in (case rc4_crypt body (c_bytes key) of
                     None \<Rightarrow> None
                   | Some cipher \<Rightarrow>
                       let (n, c) = c_send (header_bytes req_header) c in
                       if n \<le> 0 then Some (- 1, msg, r, c) else
                       let (n, c) = c_send cipher c in
                       if n \<le> 0 then Some (- 1, msg, r, c) else
                       (case receive_reply key jh msg c of
                          None \<Rightarrow> None
                        | Some (res, msg, c) \<Rightarrow> Some (res, msg, r, c))))"

section \<open>The server's half of a session\<close>

definition request_header :: "int \<Rightarrow> ProtocolHeader" where
  "request_header client_id = ride_header (of_nat ride_request_size) (calculate_checksum (ride_request_bytes (make_request client_id)))"

definition client_stream :: "int \<Rightarrow> int \<Rightarrow> u8 list \<Rightarrow> u8 list" where
  "client_stream my_pub client_id cipher =
     (header_bytes hello_header @ handshake_bytes \<lparr>public_key = word_of_int my_pub\<rparr>)
     @ (header_bytes (request_header client_id) @ cipher)"

definition server_stream :: "int \<Rightarrow> u8 list \<Rightarrow> u8 list \<Rightarrow> u8 list" where
  "server_stream srv_pub text cipher =
     (header_bytes handshake_header @ handshake_bytes \<lparr>public_key = word_of_int srv_pub\<rparr>)
     @ (header_bytes (response_header text OP_RESPONSE) @ cipher)"

lemma residue_word: "dh_residue p \<Longrightarrow> sint (word_of_int p :: u64) = p"
  by (simp add: dh_residue_def DH_PRIME_def int_word_sint mod_pos_pos_trivial)

lemma c_send_reliable [simp]: "tx c = [] \<Longrightarrow> c_send bs c = (int (length bs), c\<lparr>sent := sent c @ bs\<rparr>)"
  by (simp add: c_send_def)

lemma response_length: "length msg < 1024 \<Longrightarrow> unat (h_length (response_header msg opcode)) = length msg"
  by (simp add: response_header_def unat_of_nat take_bit_nat_eq_self)

text \<open>What the worker answers in a session of a handshake and an authentic ride request.\<close>

definition served :: "(SharedState \<Rightarrow> SharedState) \<Rightarrow> int \<Rightarrow> int \<Rightarrow> rng \<Rightarrow> SharedState \<Rightarrow> int \<times> string \<times> rng \<times> SharedState" where
  "served env now client_id r s =
     handle_ride_request_logic client_id 256 r (env (snd (check_and_update_rate_limit client_id now s)))"

lemma word_request: "sint (req_client_id (make_request client_id)) = client_id" if "int32_range client_id"
  using that by (simp add: make_request_def int32_range_def int_word_sint mod_pos_pos_trivial)

lemma ride_response_facts:
  assumes "handle_ride_request_logic client_id 256 r s = (res, text, r', s')" "wf_state s"
  shows "text \<noteq> []" "length text < 256"
    "res = 0 \<Longrightarrow> \<exists>tail. text = ''Ride Confirmed!'' @ tail" "res \<noteq> 0 \<Longrightarrow> res = - 1 \<and> text = no_driver_text"
  using assms(2)
  by (cases rule: ride_request_cases [where c = client_id and n = 256 and r = r];
      use assms(1) in \<open>auto simp: snprintf_def confirm_text_def no_driver_text_def\<close>)+

text \<open>
  The worker's half of a session up to the request: after the handshake and an authentic request the
  outcome is that of the request wrapper.
\<close>

definition hello_reply :: "int \<Rightarrow> u8 list" where
  "hello_reply srv_pub = header_bytes handshake_header @ handshake_bytes \<lparr>public_key = word_of_int srv_pub\<rparr>"

definition finish :: "step \<Rightarrow> outcome \<times> Conn \<times> Worker" where
  "finish st = (case st of Continue c w \<Rightarrow> (Returned, c, w) | Break c w \<Rightarrow> (Returned, c, w) | Crash c w \<Rightarrow> (Crashed, c, w))"

lemma wrapper_not_continue: "process_ride_request_wrapper env now key c w \<noteq> Continue c' w'"
  by (auto simp: process_ride_request_wrapper_def Let_def split_beta split: option.splits)

context byte_stream
begin

lemma session_hello:
  assumes es: "holds es ((header_bytes hello_header @ handshake_bytes \<lparr>public_key = word_of_int my_pub\<rparr>) @ rest)"
    and priv: "generate_private_key (gen w) = (b, r)" "calculate_public_key b = Some srv_pub"
    and sec: "dh_residue my_pub" "calculate_shared_secret my_pub b = Some s"
  obtains c where "holds (rx c) rest" "tx c = []" "sent c = hello_reply srv_pub" "is_key_established c"
    "session_key c = derive_session_key s 64"
    "handle_client env now (new_conn es hb bb) w = handle_client env now c (w\<lparr>gen := r\<rparr>)"
proof -
  let ?hello = "handshake_bytes \<lparr>public_key = word_of_int my_pub\<rparr>"
  have len: "length ?hello = 8" using hsk.enc_length by (simp add: handshake_size_def)
  have "holds (rx (new_conn es hb bb)) (header_bytes hello_header @ ?hello @ rest)"
    "length ?hello = unat (h_length hello_header)" "length ?hello \<le> 1024"
    using es len by (simp_all add: new_conn_def hello_header_def handshake_size_def)
  then obtain es1 where s1: "holds es1 rest"
    "handle_client env now (new_conn es hb bb) w =
       (case handle_packet env now hello_header ((new_conn es hb bb)\<lparr>rx := es1,
               header_buf := overlay (header_bytes hello_header) (header_buf (new_conn es hb bb)),
               body_buf := overlay ?hello (body_buf (new_conn es hb bb))\<rparr>) w of
          Continue c w \<Rightarrow> handle_client env now c w
        | Break c w \<Rightarrow> (Returned, c, w) | Crash c w \<Rightarrow> (Crashed, c, w))"
    by (rule client_packet)
  let ?c1 = "(new_conn es hb bb)\<lparr>rx := es1, header_buf := overlay (header_bytes hello_header) hb, body_buf := overlay ?hello bb\<rparr>"
  let ?c2 = "?c1\<lparr>session_key := derive_session_key s 64, is_key_established := True, sent := hello_reply srv_pub\<rparr>"
  have "handle_packet env now hello_header ?c1 w = Continue ?c2 (w\<lparr>gen := r\<rparr>)"
    using priv sec by (simp add: handle_packet_def hello_header_def handle_handshake_def new_conn_def hsk.dec_overlay
        residue_word hello_reply_def)
  with s1 show thesis by (intro that [of ?c2]) (simp_all add: new_conn_def)
qed

lemma session_to_request:
  assumes es: "holds es (client_stream my_pub client_id cipher)"
    and priv: "generate_private_key (gen w) = (b, r)" "calculate_public_key b = Some srv_pub"
    and sec: "dh_residue my_pub" "calculate_shared_secret my_pub b = Some s"
    and enc: "rc4_crypt cipher (c_bytes (derive_session_key s 64)) = Some (ride_request_bytes (make_request client_id))"
  obtains c where "tx c = []" "sent c = hello_reply srv_pub" "ride_request_of (body_buf c) = make_request client_id"
    "handle_client env now (new_conn es hb bb) w =
       finish (process_ride_request_wrapper env now (Some (derive_session_key s 64)) c (w\<lparr>gen := r\<rparr>))"
proof -
  let ?key = "derive_session_key s 64" and ?plain = "ride_request_bytes (make_request client_id)"
  have len: "length cipher = 24"
    using rrq.enc_length [of "make_request client_id"] rc4_length [OF enc] by (simp add: ride_request_size_def)
  obtain c2 where c2: "holds (rx c2) (header_bytes (request_header client_id) @ cipher)" "tx c2 = []"
    "sent c2 = hello_reply srv_pub" "is_key_established c2" "session_key c2 = ?key"
    "handle_client env now (new_conn es hb bb) w = handle_client env now c2 (w\<lparr>gen := r\<rparr>)"
    by (rule session_hello [OF es [unfolded client_stream_def] priv sec])
  have "holds (rx c2) (header_bytes (request_header client_id) @ cipher @ [])"
    "length cipher = unat (h_length (request_header client_id))" "length cipher \<le> 1024"
    using c2(1) len by (simp_all add: request_header_def ride_header_def ride_request_size_def)
  then obtain es2 where s2: "handle_client env now c2 (w\<lparr>gen := r\<rparr>) =
       (case handle_packet env now (request_header client_id) (c2\<lparr>rx := es2,
               header_buf := overlay (header_bytes (request_header client_id)) (header_buf c2),
               body_buf := overlay cipher (body_buf c2)\<rparr>) (w\<lparr>gen := r\<rparr>) of
          Continue c w \<Rightarrow> handle_client env now c w
        | Break c w \<Rightarrow> (Returned, c, w) | Crash c w \<Rightarrow> (Crashed, c, w))"
    by (rule client_packet)
  let ?c3 = "c2\<lparr>rx := es2, header_buf := overlay (header_bytes (request_header client_id)) (header_buf c2),
               body_buf := overlay cipher (body_buf c2)\<rparr>"
  let ?c4 = "?c3\<lparr>body_buf := overlay ?plain (body_buf ?c3)\<rparr>"
  have "take (unat (h_length (request_header client_id))) (body_buf ?c3) = cipher"
    using len take_overlay [of cipher] by (simp add: request_header_def ride_header_def ride_request_size_def)
  then have pk: "handle_packet env now (request_header client_id) ?c3 (w\<lparr>gen := r\<rparr>) =
      process_ride_request_wrapper env now (Some ?key) ?c4 (w\<lparr>gen := r\<rparr>)"
    using handle_packet_ride [of "request_header client_id" ?c3 ?plain env now "w\<lparr>gen := r\<rparr>"] enc c2(4,5)
    by (simp add: request_header_def ride_header_def)
  have "handle_client env now (new_conn es hb bb) w =
      finish (process_ride_request_wrapper env now (Some ?key) ?c4 (w\<lparr>gen := r\<rparr>))"
    unfolding c2(6) s2 pk finish_def
    using wrapper_not_continue [of env now "Some ?key" ?c4 "w\<lparr>gen := r\<rparr>"]
    by (auto split: step.splits)
  moreover have "tx ?c4 = []" "sent ?c4 = hello_reply srv_pub" "ride_request_of (body_buf ?c4) = make_request client_id"
    using c2(2,3) by (simp_all add: rrq.dec_overlay)
  ultimately show thesis by (rule that [rotated -1])
qed

lemma server_session:
  assumes es: "holds es (client_stream my_pub client_id cipher)"
    and cid: "int32_range client_id"
    and priv: "generate_private_key (gen w) = (b, r)" "calculate_public_key b = Some srv_pub"
    and sec: "dh_residue my_pub" "calculate_shared_secret my_pub b = Some s" "int64_range s"
    and enc: "rc4_crypt cipher (c_bytes (derive_session_key s 64)) = Some (ride_request_bytes (make_request client_id))"
    and pass: "\<not> fst (check_and_update_rate_limit client_id now (shared w))"
    and ride: "served env now client_id r (shared w) = (res, text, r', s')"
    and out: "rc4_crypt (c_bytes text) (c_bytes (derive_session_key s 64)) = Some out"
  obtains c' where "handle_client env now (new_conn es hb bb) w = (Returned, c', w\<lparr>shared := s', gen := r'\<rparr>)"
    "sent c' = server_stream srv_pub (c_bytes text) out"
proof -
  obtain c where c: "tx c = []" "sent c = hello_reply srv_pub" "ride_request_of (body_buf c) = make_request client_id"
    "handle_client env now (new_conn es hb bb) w =
       finish (process_ride_request_wrapper env now (Some (derive_session_key s 64)) c (w\<lparr>gen := r\<rparr>))"
    by (rule session_to_request [OF es priv sec(1,2) enc])
  have "process_ride_request_wrapper env now (Some (derive_session_key s 64)) c (w\<lparr>gen := r\<rparr>) =
      Break (c\<lparr>sent := server_stream srv_pub (c_bytes text) out\<rparr>) (w\<lparr>shared := s', gen := r'\<rparr>)"
    using pass ride out c(1-3)
    by (simp add: process_ride_request_wrapper_def word_request [OF cid] served_def split_beta Let_def
        send_response_packet_def server_stream_def hello_reply_def)
  with c(4) show thesis
    by (intro that [of "c\<lparr>sent := server_stream srv_pub (c_bytes text) out\<rparr>"]) (simp_all add: finish_def)
qed

lemma blocked_session:
  assumes es: "holds es (client_stream my_pub client_id cipher)"
    and cid: "int32_range client_id"
    and priv: "generate_private_key (gen w) = (b, r)" "calculate_public_key b = Some srv_pub"
    and sec: "dh_residue my_pub" "calculate_shared_secret my_pub b = Some s"
    and enc: "rc4_crypt cipher (c_bytes (derive_session_key s 64)) = Some (ride_request_bytes (make_request client_id))"
    and block: "fst (check_and_update_rate_limit client_id now (shared w))"
  obtains c' where "handle_client env now (new_conn es hb bb) w =
      (Crashed, c', w\<lparr>shared := snd (check_and_update_rate_limit client_id now (shared w)), gen := r\<rparr>)"
    "sent c' = hello_reply srv_pub"
proof -
  obtain c where c: "tx c = []" "sent c = hello_reply srv_pub" "ride_request_of (body_buf c) = make_request client_id"
    "handle_client env now (new_conn es hb bb) w =
       finish (process_ride_request_wrapper env now (Some (derive_session_key s 64)) c (w\<lparr>gen := r\<rparr>))"
    by (rule session_to_request [OF es priv sec enc])
  have "fst (check_and_update_rate_limit (sint (req_client_id (ride_request_of (body_buf c)))) now (shared (w\<lparr>gen := r\<rparr>)))"
    using block c(3) word_request [OF cid] by simp
  from blocked_wrapper [OF this, of env "derive_session_key s 64"] c show thesis
    by (intro that [of c]) (simp_all add: finish_def word_request [OF cid])
qed

end

section \<open>The client's half of a session\<close>

lemma header_length [simp]: "length (header_bytes h) = header_size"
  by (rule hdr.enc_length)

lemma handshake_length [simp]: "length (handshake_bytes h) = handshake_size"
  by (rule hsk.enc_length)

lemma sizes_pos [simp]: "0 < header_size" "0 < handshake_size"
  by (simp_all add: header_size_def handshake_size_def)

lemma sizes_not_0 [simp]: "header_size \<noteq> 0" "handshake_size \<noteq> 0"
  by (simp_all add: header_size_def handshake_size_def)

lemma request_after_handshake:
  assumes "tx c = []" "sent c = []"
    and "perform_dh_handshake r jh jb c = Some (0, key, r', c\<lparr>rx := es,
       sent := sent c @ header_bytes hello_header @ handshake_bytes \<lparr>public_key = word_of_int my_pub\<rparr>\<rparr>)"
    and enc: "rc4_crypt (ride_request_bytes (make_request client_id)) (c_bytes key) = Some cipher"
  shows "perform_ride_request client_id r jh jb msg c =
     map_option (\<lambda>(res, m, c'). (res, m, r', c')) (receive_reply key jh msg (c\<lparr>rx := es, sent := client_stream my_pub client_id cipher\<rparr>))"
proof -
  let ?c2 = "c\<lparr>rx := es, sent := client_stream my_pub client_id cipher\<rparr>"
  have "0 < length cipher"
    using rc4_length [OF enc] rrq.enc_length [of "make_request client_id"] by (simp add: ride_request_size_def)
  moreover have "c_send cipher (c\<lparr>rx := es, sent := header_bytes hello_header
      @ handshake_bytes \<lparr>public_key = word_of_int my_pub\<rparr> @ header_bytes (request_header client_id)\<rparr>)
    = (int (length cipher), ?c2)"
    using assms(1,2) by (simp add: client_stream_def)
  ultimately show ?thesis
    using assms
    by (simp add: perform_ride_request_def request_header_def ride_header_def Let_def del: c_send_reliable)
      (simp add: c_send_reliable split: option.split)
qed

context byte_stream
begin

lemma c_recv:
  assumes "holds (rx c) (bs @ rest)" "length bs = n"
  obtains es where "c_recv n buf c = (int n, overlay bs buf, c\<lparr>rx := es\<rparr>)" "holds es rest"
  by (rule recv [OF assms]) (auto simp: c_recv_def)

lemma client_handshake:
  assumes rx: "holds (rx c)
      ((header_bytes handshake_header @ handshake_bytes \<lparr>public_key = word_of_int srv_pub\<rparr>) @ rest)" and tx: "tx c = []"
    and priv: "generate_private_key r = (a, r')" "calculate_public_key a = Some my_pub"
    and sec: "dh_residue srv_pub" "calculate_shared_secret srv_pub a = Some s"
  obtains es where "holds es rest"
    "perform_dh_handshake r jh jb c = Some (0, derive_session_key s 64, r', c\<lparr>rx := es,
       sent := sent c @ header_bytes hello_header @ handshake_bytes \<lparr>public_key = word_of_int my_pub\<rparr>\<rparr>)"
proof -
  let ?c1 = "c\<lparr>sent := sent c @ header_bytes hello_header @ handshake_bytes \<lparr>public_key = word_of_int my_pub\<rparr>\<rparr>"
  have "holds (rx ?c1) (header_bytes handshake_header @ handshake_bytes \<lparr>public_key = word_of_int srv_pub\<rparr> @ rest)"
    using rx by simp
  then obtain es1 where e1: "c_recv header_size jh ?c1 = (int header_size, overlay (header_bytes handshake_header) jh,
      ?c1\<lparr>rx := es1\<rparr>)" "holds es1 (handshake_bytes \<lparr>public_key = word_of_int srv_pub\<rparr> @ rest)"
    by (rule c_recv) simp_all
  then have "holds (rx (?c1\<lparr>rx := es1\<rparr>)) (handshake_bytes \<lparr>public_key = word_of_int srv_pub\<rparr> @ rest)" by simp
  then obtain es2 where e2: "c_recv handshake_size jb (?c1\<lparr>rx := es1\<rparr>) = (int handshake_size,
      overlay (handshake_bytes \<lparr>public_key = word_of_int srv_pub\<rparr>) jb, ?c1\<lparr>rx := es2\<rparr>)" "holds es2 rest"
    by (rule c_recv) simp_all
  show thesis
    using tx priv sec e1(1) e2 by (intro that [of es2])
      (simp_all add: perform_dh_handshake_def hdr.dec_overlay hsk.dec_overlay residue_word handshake_header_def)
qed

lemma client_reply:
  assumes rx: "holds (rx c) (header_bytes (response_header text OP_RESPONSE) @ out)"
    and msg_ok: "text \<noteq> []" "length text < 1024" and dec: "rc4_crypt out (c_bytes key) = Some text"
  obtains es where "receive_reply key jh msg c =
     (let m = overlay text ((overlay out msg)[length text := 0]) in Some (parse_reply m, m, c\<lparr>rx := es\<rparr>))"
proof -
  have len: "length out = length text" using rc4_length [OF dec] by simp
  obtain es1 where e1: "c_recv header_size jh c = (int header_size,
      overlay (header_bytes (response_header text OP_RESPONSE)) jh, c\<lparr>rx := es1\<rparr>)" "holds es1 out"
    by (rule c_recv [OF rx]) simp_all
  then have "holds (rx (c\<lparr>rx := es1\<rparr>)) (out @ [])" by simp
  then obtain es2 where e2: "c_recv (length text) msg (c\<lparr>rx := es1\<rparr>) = (int (length text), overlay out msg, c\<lparr>rx := es2\<rparr>)"
    by (rule c_recv) (simp_all add: len)
  have "take (length text) ((overlay out msg)[length text := 0]) = out"
    using len take_overlay [of out msg] by simp
  moreover have "unat (h_length (response_header text OP_RESPONSE)) = length text"
    by (rule response_length [OF msg_ok(2)])
  ultimately show thesis
    using e1(1) e2 msg_ok dec by (intro that [of es2])
      (simp add: receive_reply_def hdr.dec_overlay Let_def response_header_def)
qed

lemma client_session:
  assumes rx: "holds (rx c) (server_stream srv_pub text out)" and tx: "tx c = []" "sent c = []"
    and priv: "generate_private_key r = (a, r')" "calculate_public_key a = Some my_pub"
    and sec: "dh_residue srv_pub" "calculate_shared_secret srv_pub a = Some s"
    and enc: "rc4_crypt (ride_request_bytes (make_request client_id)) (c_bytes (derive_session_key s 64)) = Some cipher"
    and msg_ok: "text \<noteq> []" "length text < 1024" and dec: "rc4_crypt out (c_bytes (derive_session_key s 64)) = Some text"
  obtains c' where "perform_ride_request client_id r jh jb msg c =
     (let m = overlay text ((overlay out msg)[length text := 0]) in Some (parse_reply m, m, r', c'))"
    "sent c' = client_stream my_pub client_id cipher"
proof -
  let ?key = "derive_session_key s 64"
  let ?reply = "header_bytes (response_header text OP_RESPONSE) @ out"
  have "holds (rx c) ((header_bytes handshake_header @ handshake_bytes \<lparr>public_key = word_of_int srv_pub\<rparr>) @ ?reply)"
    using rx by (simp add: server_stream_def)
  then obtain es1 where h: "holds es1 ?reply"
    "perform_dh_handshake r jh jb c = Some (0, ?key, r', c\<lparr>rx := es1,
       sent := sent c @ header_bytes hello_header @ handshake_bytes \<lparr>public_key = word_of_int my_pub\<rparr>\<rparr>)"
    by (rule client_handshake [OF _ tx(1) priv sec])
  let ?c2 = "c\<lparr>rx := es1, sent := client_stream my_pub client_id cipher\<rparr>"
  have "holds (rx ?c2) ?reply" using h(1) by simp
  then obtain es2 where rep: "receive_reply ?key jh msg ?c2 =
     (let m = overlay text ((overlay out msg)[length text := 0]) in Some (parse_reply m, m, ?c2\<lparr>rx := es2\<rparr>))"
    by (rule client_reply [OF _ msg_ok dec])
  have "perform_ride_request client_id r jh jb msg c =
     (let m = overlay text ((overlay out msg)[length text := 0]) in Some (parse_reply m, m, r', ?c2\<lparr>rx := es2\<rparr>))"
    using request_after_handshake [OF tx h(2) enc] rep by (simp add: Let_def)
  moreover have "sent (?c2\<lparr>rx := es2\<rparr>) = client_stream my_pub client_id cipher" by simp
  ultimately show thesis by (rule that)
qed

end

section \<open>The reply is understood\<close>

lemma contains_prefix: "contains pat (pat @ xs)"
  by (cases "pat @ xs") (auto simp: append_eq_Cons_conv)

lemma parse_reply_confirmed:
  "parse_reply (c_bytes (''Ride Confirmed!'' @ tail) @ rest) = 0"
proof -
  have nz: "\<And>b. b \<in> set (c_bytes ''Ride Confirmed!'') \<Longrightarrow> b \<noteq> 0" by (auto simp: c_bytes_def)
  have app: "c_bytes (a @ b) = c_bytes a @ c_bytes b" for a b by (simp add: c_bytes_def)
  have "takeWhile (\<lambda>b. b \<noteq> 0) (c_bytes (''Ride Confirmed!'' @ tail) @ rest)
      = c_bytes ''Ride Confirmed!'' @ takeWhile (\<lambda>b. b \<noteq> 0) (c_bytes tail @ rest)"
    unfolding app append_assoc by (rule takeWhile_append2) (rule nz)
  then show ?thesis unfolding parse_reply_def strstr_def by (simp only: contains_prefix if_True)
qed

lemma parse_reply_no_driver: "parse_reply (c_bytes no_driver_text @ 0 # rest) = - 1"
  by (simp add: parse_reply_def strstr_def no_driver_text_def c_bytes_def)

lemma reply_buffer:
  assumes "length out = length text" "length text < length msg"
  shows "\<exists>rest. overlay text ((overlay out msg)[length text := 0]) = text @ 0 # rest"
proof -
  have "length text < length ((overlay out msg)[length text := 0])" using assms by (simp add: overlay_def)
  then have "drop (length text) ((overlay out msg)[length text := 0])
      = (overlay out msg)[length text := 0] ! length text # drop (Suc (length text)) ((overlay out msg)[length text := 0])"
    by (rule Cons_nth_drop_Suc [symmetric])
  also have "(overlay out msg)[length text := 0] ! length text = 0"
    using assms by (intro nth_list_update_eq) (simp add: overlay_def)
  finally show ?thesis by (simp add: overlay_def)
qed

lemma served_reply:
  assumes "wf_state (env (snd (check_and_update_rate_limit client_id now s)))"
    and "served env now client_id r s = (res, text, r', s')" and "length (c_bytes text) < length msg"
    and "length out = length (c_bytes text)"
  shows "parse_reply (overlay (c_bytes text) ((overlay out msg)[length (c_bytes text) := 0])) = res"
proof -
  obtain rest where m: "overlay (c_bytes text) ((overlay out msg)[length (c_bytes text) := 0]) = c_bytes text @ 0 # rest"
    using reply_buffer [OF assms(4,3)] by blast
  note f = ride_response_facts [OF assms(2) [unfolded served_def] assms(1)]
  show ?thesis
  proof (cases "res = 0")
    case True
    then obtain tail where "text = ''Ride Confirmed!'' @ tail" using f(3) by blast
    then show ?thesis using True parse_reply_confirmed unfolding m by simp
  next
    case False
    then show ?thesis using f(4) parse_reply_no_driver unfolding m by simp
  qed
qed

section \<open>Both sides of a session\<close>

text \<open>The keys of a session: both sides have one and the same, and RC4 is defined with it.\<close>

lemma session_keys:
  assumes "generate_private_key r1 = (a, r1')" "generate_private_key r2 = (b, r2')"
  obtains pa pb s where "calculate_public_key a = Some pa" "calculate_public_key b = Some pb"
    "calculate_shared_secret pb a = Some s" "calculate_shared_secret pa b = Some s"
    "dh_residue pa" "dh_residue pb" "int64_range s" "ascii_key (c_bytes (derive_session_key s 64))"
proof -
  have priv: "dh_priv a" "dh_priv b" using private_key_priv assms by blast+
  obtain pa pb s where k: "calculate_public_key a = Some pa" "calculate_public_key b = Some pb"
    "calculate_shared_secret pb a = Some s" "calculate_shared_secret pa b = Some s"
    "dh_residue pa" "dh_residue pb" "dh_residue s"
    using dh.agreement [OF priv] by blast
  have "int64_range s" by (rule dh_residue_int64 [OF k(7)])
  with k show thesis by (intro that [of pa pb s]) (simp_all add: derive_session_key_ascii)
qed

text \<open>What both sides compute from the two private keys, and the encrypted request.\<close>

definition secrets :: "int \<Rightarrow> int \<Rightarrow> int \<Rightarrow> int \<Rightarrow> int \<Rightarrow> int \<Rightarrow> u8 list \<Rightarrow> bool" where
  "secrets client_id a b pa pb s cipher \<longleftrightarrow>
     calculate_public_key a = Some pa \<and> calculate_public_key b = Some pb
     \<and> calculate_shared_secret pb a = Some s \<and> calculate_shared_secret pa b = Some s
     \<and> dh_residue pa \<and> dh_residue pb \<and> int64_range s \<and> ascii_key (c_bytes (derive_session_key s 64))
     \<and> rc4_crypt (ride_request_bytes (make_request client_id)) (c_bytes (derive_session_key s 64)) = Some cipher"

lemma secretsD:
  assumes "secrets client_id a b pa pb s cipher"
  shows "calculate_public_key a = Some pa" "calculate_public_key b = Some pb"
    "calculate_shared_secret pb a = Some s" "calculate_shared_secret pa b = Some s"
    "dh_residue pa" "dh_residue pb" "int64_range s" "ascii_key (c_bytes (derive_session_key s 64))"
    "rc4_crypt (ride_request_bytes (make_request client_id)) (c_bytes (derive_session_key s 64)) = Some cipher"
  using assms by (simp_all add: secrets_def)

context byte_stream
begin

lemma session_sides:
  assumes "state_ok (shared w)" "\<And>s. state_ok s \<Longrightarrow> state_ok (env s)" "int32_range client_id"
    and "\<not> fst (check_and_update_rate_limit client_id now (shared w))"
    and "generate_private_key (gen w) = (b, rs)" "generate_private_key rc = (a, rc')"
    and "served env now client_id rs (shared w) = (res, reply, rs', s')"
  obtains pa pb s cipher out where "secrets client_id a b pa pb s cipher"
    "\<forall>es hb bb. holds es (client_stream pa client_id cipher) \<longrightarrow>
       (\<exists>c'. handle_client env now (new_conn es hb bb) w = (Returned, c', w\<lparr>shared := s', gen := rs'\<rparr>)
          \<and> sent c' = server_stream pb (c_bytes reply) out)"
    "\<forall>es jh jb msg. holds es (server_stream pb (c_bytes reply) out) \<and> length msg = 1024 \<longrightarrow>
       (\<exists>m c'. perform_ride_request client_id rc jh jb msg (new_conn es [] []) = Some (res, m, rc', c')
          \<and> sent c' = client_stream pa client_id cipher \<and> take (length reply) m = c_bytes reply)"
proof -
  obtain pa pb s where k: "calculate_public_key a = Some pa" "calculate_public_key b = Some pb"
    "calculate_shared_secret pb a = Some s" "calculate_shared_secret pa b = Some s"
    "dh_residue pa" "dh_residue pb" "int64_range s" "ascii_key (c_bytes (derive_session_key s 64))"
    by (rule session_keys [OF assms(6,5)])
  let ?key = "c_bytes (derive_session_key s 64)" and ?text = "c_bytes reply"
  obtain cipher where cipher: "rc4_crypt (ride_request_bytes (make_request client_id)) ?key = Some cipher"
    "rc4_crypt cipher ?key = Some (ride_request_bytes (make_request client_id))"
    using rc4.crypt_round_trip [OF k(8)] by blast
  obtain out where out: "rc4_crypt ?text ?key = Some out" "length out = length ?text" "rc4_crypt out ?key = Some ?text"
    using rc4.crypt_round_trip [OF k(8), of ?text] by blast
  have wf: "wf_state (env (snd (check_and_update_rate_limit client_id now (shared w))))"
    by (rule state_okD(1) [OF assms(2) [OF rate_limit_state_ok [OF assms(1)]]])
  note f = ride_response_facts [OF assms(7) [unfolded served_def] wf]
  have ne: "?text \<noteq> []" "length ?text < 1024" using f(1,2) by (auto simp: c_bytes_def)
  show thesis
  proof (rule that [of pa pb s cipher out])
    show "secrets client_id a b pa pb s cipher" using k cipher(1) by (simp add: secrets_def)
  next
    have "\<exists>c'. handle_client env now (new_conn es hb bb) w = (Returned, c', w\<lparr>shared := s', gen := rs'\<rparr>)
      \<and> sent c' = server_stream pb ?text out" if "holds es (client_stream pa client_id cipher)" for es hb bb
      by (rule server_session [OF that assms(3,5) k(2,5,4,7) cipher(2) assms(4,7) out(1)]) blast
    then show "\<forall>es hb bb. holds es (client_stream pa client_id cipher) \<longrightarrow>
       (\<exists>c'. handle_client env now (new_conn es hb bb) w = (Returned, c', w\<lparr>shared := s', gen := rs'\<rparr>)
          \<and> sent c' = server_stream pb ?text out)" by blast
  next
    show "\<forall>es jh jb msg. holds es (server_stream pb ?text out) \<and> length msg = 1024 \<longrightarrow>
       (\<exists>m c'. perform_ride_request client_id rc jh jb msg (new_conn es [] []) = Some (res, m, rc', c')
          \<and> sent c' = client_stream pa client_id cipher \<and> take (length reply) m = ?text)"
    proof (intro allI impI, elim conjE)
      fix es jh jb and msg :: "u8 list"
      assume es: "holds es (server_stream pb ?text out)" and msg: "length msg = 1024"
      let ?m = "overlay ?text ((overlay out msg)[length ?text := 0])"
      have c: "holds (rx (new_conn es [] [])) (server_stream pb ?text out)"
        "tx (new_conn es [] []) = []" "sent (new_conn es [] []) = []"
        using es by (simp_all add: new_conn_def)
      obtain c' where "perform_ride_request client_id rc jh jb msg (new_conn es [] []) =
          (let m = ?m in Some (parse_reply m, m, rc', c'))" "sent c' = client_stream pa client_id cipher"
        by (rule client_session [OF c assms(6) k(1,6,3) cipher(1) ne out(3)])
      moreover have "parse_reply ?m = res" by (rule served_reply [OF wf assms(7) _ out(2)]) (use ne msg in simp)
      moreover have "take (length reply) ?m = ?text" using take_overlay [of ?text] by simp
      ultimately show "\<exists>m c'. perform_ride_request client_id rc jh jb msg (new_conn es [] []) = Some (res, m, rc', c')
          \<and> sent c' = client_stream pa client_id cipher \<and> take (length reply) m = ?text" by (auto simp: Let_def)
    qed
  qed
qed

end

section \<open>Properties\<close>

text \<open>
  a session, end to end: for every pair of private keys, every cut of the two byte streams into
  chunks and every contents of the uninitialised buffers, there is one pair of streams on which the
  client and the worker agree. The worker serves the request of that client once, and the client
  returns the worker's return code (0 with a driver, -1 without) and holds the worker's text.
\<close>

theorem session_end_to_end:
  assumes "state_ok (shared w)" "\<And>s. state_ok s \<Longrightarrow> state_ok (env s)" "int32_range client_id"
    and "\<not> fst (check_and_update_rate_limit client_id now (shared w))"
    and "generate_private_key (gen w) = (b, rs)" "generate_private_key rc = (a, rc')"
    and "served env now client_id rs (shared w) = (res, reply, rs', s')"
  shows "\<exists>from_client from_server.
    (\<forall>es hb bb. rx_clean es \<and> rx_bytes es = from_client \<longrightarrow>
       (\<exists>c'. handle_client env now (new_conn es hb bb) w = (Returned, c', w\<lparr>shared := s', gen := rs'\<rparr>)
          \<and> sent c' = from_server))
    \<and> (\<forall>es jh jb msg. rx_clean es \<and> rx_bytes es = from_server \<and> length msg = 1024 \<longrightarrow>
       (\<exists>m c'. perform_ride_request client_id rc jh jb msg (new_conn es [] []) = Some (res, m, rc', c')
          \<and> sent c' = from_client \<and> take (length reply) m = c_bytes reply))"
proof -
  obtain pa pb s cipher out where "secrets client_id a b pa pb s cipher" and sides:
    "\<forall>es hb bb. closed_after es (client_stream pa client_id cipher) \<longrightarrow>
       (\<exists>c'. handle_client env now (new_conn es hb bb) w = (Returned, c', w\<lparr>shared := s', gen := rs'\<rparr>)
          \<and> sent c' = server_stream pb (c_bytes reply) out)"
    "\<forall>es jh jb msg. closed_after es (server_stream pb (c_bytes reply) out) \<and> length msg = 1024 \<longrightarrow>
       (\<exists>m c'. perform_ride_request client_id rc jh jb msg (new_conn es [] []) = Some (res, m, rc', c')
          \<and> sent c' = client_stream pa client_id cipher \<and> take (length reply) m = c_bytes reply)"
    by (rule closed.session_sides [OF assms])
  from sides show ?thesis
    by (intro exI [of _ "client_stream pa client_id cipher"] exI [of _ "server_stream pb (c_bytes reply) out"])
      (simp add: closed_after_def)
qed

lemma some_stream: "\<exists>es. rx_clean es \<and> rx_bytes es = bs"
  by (intro exI [of _ "if bs = [] then [] else [Data bs]"]) (simp add: rx_clean_def)

text \<open>A session that is short to compute: the first request of client 7 to an empty fleet.\<close>

lemma idle_session:
  "state_ok (shared (idle_worker zero_state))"
  "\<not> fst (check_and_update_rate_limit 7 100 (shared (idle_worker zero_state)))"
  "generate_private_key (gen (idle_worker zero_state)) = (1, sconst 0)" "generate_private_key (sconst 5) = (6, sconst 5)"
  "served id 100 7 (sconst 0) (shared (idle_worker zero_state)) =
      (- 1, no_driver_text, sconst 0, snd (check_and_update_rate_limit 7 100 zero_state))"
proof -
  show "\<not> fst (check_and_update_rate_limit 7 100 (shared (idle_worker zero_state)))"
    using rate_limit_self(1) [OF wf_zero_state, of 7 100]
    by (simp add: limited_id_def idle_worker_def seen_in_def zero_state_clients)
  show "served id 100 7 (sconst 0) (shared (idle_worker zero_state)) =
      (- 1, no_driver_text, sconst 0, snd (check_and_update_rate_limit 7 100 zero_state))"
    by (simp add: served_def idle_worker_def handle_ride_request_logic_def pick_driver_def find_driver_basic_def
        active_drivers_def snprintf_def no_driver_text_def check_and_update_rate_limit_def zero_state_def Let_def MAX_CLIENTS_def)
qed (simp_all add: idle_worker_def zero_state_ok generate_private_key_def rand_mod_def c_rand_def)

theorem session_end_to_end_witness:
  "\<exists>es1 es2 c' m c''.
     handle_client id 100 (new_conn es1 [] []) (idle_worker zero_state)
       = (Returned, c', idle_worker (snd (check_and_update_rate_limit 7 100 zero_state))) \<and> sent c' = rx_bytes es2
     \<and> perform_ride_request 7 (sconst 5) [] [] (replicate 1024 0) (new_conn es2 [] []) = Some (- 1, m, sconst 5, c'')
     \<and> sent c'' = rx_bytes es1"
proof -
  note i = idle_session
  obtain fc fs where
    S: "\<forall>es hb bb. rx_clean es \<and> rx_bytes es = fc \<longrightarrow>
       (\<exists>c'. handle_client id 100 (new_conn es hb bb) (idle_worker zero_state) = (Returned, c', (idle_worker zero_state)
            \<lparr>shared := snd (check_and_update_rate_limit 7 100 zero_state), gen := sconst 0\<rparr>) \<and> sent c' = fs)"
    and C: "\<forall>es jh jb msg. rx_clean es \<and> rx_bytes es = fs \<and> length msg = 1024 \<longrightarrow>
       (\<exists>m c'. perform_ride_request 7 (sconst 5) jh jb msg (new_conn es [] []) = Some (- 1, m, sconst 5, c')
          \<and> sent c' = fc \<and> take (length no_driver_text) m = c_bytes no_driver_text)"
    using session_end_to_end [OF i(1) _ _ i(2-5)] by (auto simp: int32_range_def)
  obtain es1 es2 where e: "rx_clean es1" "rx_bytes es1 = fc" "rx_clean es2" "rx_bytes es2 = fs"
    using some_stream by meson
  have w: "(idle_worker zero_state)\<lparr>shared := snd (check_and_update_rate_limit 7 100 zero_state), gen := sconst 0\<rparr>
      = idle_worker (snd (check_and_update_rate_limit 7 100 zero_state))"
    by (simp add: idle_worker_def)
  have "length (replicate 1024 0) = 1024" by simp
  with S C e show ?thesis unfolding w by blast
qed

end
