(* ===== verification/Sessions.thy ===== *)
theory Sessions
  imports Client_Core
begin

text \<open>
  Sessions of an honest client with one worker, seen from both sides: the session over the rate limit,
  and what one session does to the counter of the limiter. The session within the limit is in
  Client_Core.
\<close>

section \<open>The server hangs up after the handshake\<close>

lemma recv_n_empty:
  assumes "rx_clean es" "rx_bytes es = []" obtains es' where "recv_n n es = (0, [], es')"
  by (rule recv_n_clean [OF assms(1), of n]) (use assms(2) that in simp)

lemma client_cut_off:
  assumes rx: "rx_clean (rx c)" "rx_bytes (rx c) = hello_reply srv_pub" and tx: "tx c = []" "sent c = []"
    and priv: "generate_private_key r = (a, r')" "calculate_public_key a = Some my_pub"
    and sec: "dh_residue srv_pub" "calculate_shared_secret srv_pub a = Some s"
    and enc: "rc4_crypt (ride_request_bytes (make_request client_id)) (c_bytes (derive_session_key s 64)) = Some cipher"
  shows "\<exists>c'. perform_ride_request client_id r jh jb msg c = Some (- 1, msg, r', c') \<and> sent c' = client_stream my_pub client_id cipher"
proof -
  let ?key = "derive_session_key s 64"
  have "closed_after (rx c) ((header_bytes handshake_header @ handshake_bytes \<lparr>public_key = word_of_int srv_pub\<rparr>) @ [])"
    using rx by (simp add: hello_reply_def closed_after_def)
  then obtain es1 where h: "closed_after es1 []"
    "perform_dh_handshake r jh jb c = Some (0, ?key, r', c\<lparr>rx := es1,
       sent := sent c @ header_bytes hello_header @ handshake_bytes \<lparr>public_key = word_of_int my_pub\<rparr>\<rparr>)"
    by (rule closed.client_handshake [OF _ tx(1) priv sec])
  let ?c2 = "c\<lparr>rx := es1, sent := client_stream my_pub client_id cipher\<rparr>"
  obtain es2 where "recv_n header_size es1 = (0, [], es2)" by (rule recv_n_empty [of es1]) (use h(1) in \<open>auto simp: closed_after_def\<close>)
  then have rep: "receive_reply ?key jh msg ?c2 = Some (- 1, msg, ?c2\<lparr>rx := es2\<rparr>)"
    by (simp add: receive_reply_def c_recv_def)
  have "perform_ride_request client_id r jh jb msg c = Some (- 1, msg, r', ?c2\<lparr>rx := es2\<rparr>)"
    using request_after_handshake [OF tx h(2) enc] rep by simp
  then show ?thesis by auto
qed

section \<open>A session over the limit\<close>

context byte_stream
begin

lemma blocked_sides:
  assumes "wf_state (shared w)" "limited_id client_id" "3 \<le> seen_in client_id now (shared w)"
    and "generate_private_key (gen w) = (b, rs)" "generate_private_key rc = (a, rc')"
  obtains pa pb s cipher where "secrets client_id a b pa pb s cipher"
    "\<forall>es hb bb. holds es (client_stream pa client_id cipher) \<longrightarrow>
       (\<exists>c'. handle_client env now (new_conn es hb bb) w =
            (Crashed, c', w\<lparr>shared := snd (check_and_update_rate_limit client_id now (shared w)), gen := rs\<rparr>)
          \<and> sent c' = hello_reply pb)"
    "\<forall>es jh jb msg. closed_after es (hello_reply pb) \<longrightarrow>
       (\<exists>c'. perform_ride_request client_id rc jh jb msg (new_conn es [] []) = Some (- 1, msg, rc', c')
          \<and> sent c' = client_stream pa client_id cipher)"
proof -
  obtain pa pb s where k: "calculate_public_key a = Some pa" "calculate_public_key b = Some pb"
    "calculate_shared_secret pb a = Some s" "calculate_shared_secret pa b = Some s"
    "dh_residue pa" "dh_residue pb" "int64_range s" "ascii_key (c_bytes (derive_session_key s 64))"
    by (rule session_keys [OF assms(5,4)])
  let ?key = "c_bytes (derive_session_key s 64)"
  obtain cipher where cipher: "rc4_crypt (ride_request_bytes (make_request client_id)) ?key = Some cipher"
    "rc4_crypt cipher ?key = Some (ride_request_bytes (make_request client_id))"
    using rc4.crypt_round_trip [OF k(8)] by blast
  have cid: "int32_range client_id" using assms(2) by (simp add: limited_id_def int32_range_def)
  have block: "fst (check_and_update_rate_limit client_id now (shared w))"
    using rate_limit_self(1) [OF assms(1,2)] assms(3) by simp
  show thesis
  proof (rule that [of pa pb s cipher])
    show "secrets client_id a b pa pb s cipher" using k cipher(1) by (simp add: secrets_def)
  next
    have "\<exists>c'. handle_client env now (new_conn es hb bb) w =
      (Crashed, c', w\<lparr>shared := snd (check_and_update_rate_limit client_id now (shared w)), gen := rs\<rparr>)
      \<and> sent c' = hello_reply pb" if "holds es (client_stream pa client_id cipher)" for es hb bb
      by (rule blocked_session [OF that cid assms(4) k(2,5,4) cipher(2) block]) blast
    then show "\<forall>es hb bb. holds es (client_stream pa client_id cipher) \<longrightarrow>
       (\<exists>c'. handle_client env now (new_conn es hb bb) w =
            (Crashed, c', w\<lparr>shared := snd (check_and_update_rate_limit client_id now (shared w)), gen := rs\<rparr>)
          \<and> sent c' = hello_reply pb)" by blast
    have "\<exists>c'. perform_ride_request client_id rc jh jb msg (new_conn es [] []) = Some (- 1, msg, rc', c')
      \<and> sent c' = client_stream pa client_id cipher" if "closed_after es (hello_reply pb)" for es jh jb msg
      by (rule client_cut_off [OF _ _ _ _ assms(5) k(1,6,3) cipher(1)]) (use that in \<open>simp_all add: new_conn_def closed_after_def\<close>)
    then show "\<forall>es jh jb msg. closed_after es (hello_reply pb) \<longrightarrow>
       (\<exists>c'. perform_ride_request client_id rc jh jb msg (new_conn es [] []) = Some (- 1, msg, rc', c')
          \<and> sent c' = client_stream pa client_id cipher)" by blast
  qed
qed

end

text \<open>
  a session over the rate limit, end to end: the worker crashes after the handshake reply, with
  nothing changed but the counter of the limiter, and the client reports -1, the code of a failed
  request, never -2, the code of a blocked one; its message buffer keeps the uninitialised contents that
  the callers print.
\<close>

theorem blocked_session_end_to_end:
  assumes "wf_state (shared w)" "limited_id client_id" "3 \<le> seen_in client_id now (shared w)"
    and "generate_private_key (gen w) = (b, rs)" "generate_private_key rc = (a, rc')"
  shows "\<exists>from_client from_server.
    (\<forall>es hb bb. rx_clean es \<and> rx_bytes es = from_client \<longrightarrow>
       (\<exists>c'. handle_client env now (new_conn es hb bb) w =
            (Crashed, c', w\<lparr>shared := snd (check_and_update_rate_limit client_id now (shared w)), gen := rs\<rparr>)
          \<and> sent c' = from_server))
    \<and> (\<forall>es jh jb msg. rx_clean es \<and> rx_bytes es = from_server \<longrightarrow>
       (\<exists>c'. perform_ride_request client_id rc jh jb msg (new_conn es [] []) = Some (- 1, msg, rc', c')
          \<and> sent c' = from_client))"
proof -
  obtain pa pb s cipher where "secrets client_id a b pa pb s cipher" and sides:
    "\<forall>es hb bb. closed_after es (client_stream pa client_id cipher) \<longrightarrow>
       (\<exists>c'. handle_client env now (new_conn es hb bb) w =
            (Crashed, c', w\<lparr>shared := snd (check_and_update_rate_limit client_id now (shared w)), gen := rs\<rparr>)
          \<and> sent c' = hello_reply pb)"
    "\<forall>es jh jb msg. closed_after es (hello_reply pb) \<longrightarrow>
       (\<exists>c'. perform_ride_request client_id rc jh jb msg (new_conn es [] []) = Some (- 1, msg, rc', c')
          \<and> sent c' = client_stream pa client_id cipher)"
    by (rule closed.blocked_sides [OF assms, where env = env])
  from sides show ?thesis
    by (intro exI [of _ "client_stream pa client_id cipher"] exI [of _ "hello_reply pb"])
      (simp add: closed_after_def)
qed

text \<open>The fourth request of client 7 in a second.\<close>

lemma flooded_session:
  "wf_state (shared (idle_worker flooded))" "limited_id 7" "3 \<le> seen_in 7 100 (shared (idle_worker flooded))"
  "generate_private_key (gen (idle_worker flooded)) = (1, sconst 0)" "generate_private_key (sconst 5) = (6, sconst 5)"
  by (simp_all add: flooded_def wf_state_def zero_state_def MAX_CLIENTS_def seen_in_def limited_id_def idle_worker_def
      generate_private_key_def rand_mod_def c_rand_def)

theorem blocked_session_end_to_end_witness:
  "\<exists>es1 es2 c' w' c''.
     handle_client id 100 (new_conn es1 [] []) (idle_worker flooded) = (Crashed, c', w') \<and> sent c' = rx_bytes es2
     \<and> perform_ride_request 7 (sconst 5) [] [] [1, 2, 3] (new_conn es2 [] []) = Some (- 1, [1, 2, 3], sconst 5, c'')
     \<and> sent c'' = rx_bytes es1"
proof -
  from blocked_session_end_to_end [OF flooded_session, of id] show ?thesis
  proof (elim exE conjE)
    fix fc fs
    assume S: "\<forall>es hb bb. rx_clean es \<and> rx_bytes es = fc \<longrightarrow>
        (\<exists>c'. handle_client id 100 (new_conn es hb bb) (idle_worker flooded) = (Crashed, c', (idle_worker flooded)
            \<lparr>shared := snd (check_and_update_rate_limit 7 100 (shared (idle_worker flooded))), gen := sconst 0\<rparr>) \<and> sent c' = fs)"
      and C: "\<forall>es jh jb msg. rx_clean es \<and> rx_bytes es = fs \<longrightarrow>
        (\<exists>c'. perform_ride_request 7 (sconst 5) jh jb msg (new_conn es [] []) = Some (- 1, msg, sconst 5, c') \<and> sent c' = fc)"
    obtain es1 es2 where "rx_clean es1" "rx_bytes es1 = fc" "rx_clean es2" "rx_bytes es2 = fs"
      using some_stream by meson
    with S C show ?thesis by blast
  qed
qed

section \<open>What a session does to the limiter\<close>

lemma ride_keeps_tables:
  "client_last_seen (snd (snd (snd (handle_ride_request_logic c n r s)))) = client_last_seen s"
  "client_req_count (snd (snd (snd (handle_ride_request_logic c n r s)))) = client_req_count s"
  by (simp_all add: handle_ride_request_logic_def count_ride_def split_beta Let_def)

lemma seen_in_ride [simp]: "seen_in c t (snd (snd (snd (handle_ride_request_logic c' n r s)))) = seen_in c t s"
  by (simp add: seen_in_def ride_keeps_tables)

lemma seen_in_limit:
  "wf_state s \<Longrightarrow> limited_id c \<Longrightarrow> seen_in c now (snd (check_and_update_rate_limit c now s)) = seen_in c now s + 1"
  using rate_limit_self(2,3) by (simp add: seen_in_def)

text \<open>
  Each session of an honest client counts once; up to the third in a second the worker returns, from
  the fourth on it is gone.
\<close>

lemma honest_session:
  assumes "state_ok (shared w)" "limited_id client_id"
  obtains es my_pub cipher where "rx_clean es" "rx_bytes es = client_stream my_pub client_id cipher"
    "\<forall>hb bb. \<exists>c' w'. handle_client id now (new_conn es hb bb) w =
         (if 3 \<le> seen_in client_id now (shared w) then Crashed else Returned, c', w')
       \<and> state_ok (shared w') \<and> seen_in client_id now (shared w') = seen_in client_id now (shared w) + 1"
proof -
  note wf = state_okD(1) [OF assms(1)]
  let ?s1 = "snd (check_and_update_rate_limit client_id now (shared w))"
  obtain b rs where g: "generate_private_key (gen w) = (b, rs)" by (cases "generate_private_key (gen w)")
  obtain a rc' where h: "generate_private_key (sconst 0) = (a, rc')" by (cases "generate_private_key (sconst 0)")
  obtain pa pb s where k: "calculate_public_key a = Some pa" "calculate_public_key b = Some pb"
    "calculate_shared_secret pb a = Some s" "calculate_shared_secret pa b = Some s"
    "dh_residue pa" "dh_residue pb" "int64_range s" "ascii_key (c_bytes (derive_session_key s 64))"
    by (rule session_keys [OF h g])
  obtain cipher where cipher: "rc4_crypt cipher (c_bytes (derive_session_key s 64)) = Some (ride_request_bytes (make_request client_id))"
    using rc4.crypt_surj [OF k(8)] by blast
  obtain es where es: "rx_clean es" "rx_bytes es = client_stream pa client_id cipher" using some_stream by blast
  have cid: "int32_range client_id" using assms(2) by (simp add: limited_id_def int32_range_def)
  have ok1: "state_ok ?s1" by (rule rate_limit_state_ok [OF assms(1)])
  note self = rate_limit_self [OF wf assms(2), of now]
  have "\<exists>c' w'. handle_client id now (new_conn es hb bb) w =
         (if 3 \<le> seen_in client_id now (shared w) then Crashed else Returned, c', w')
       \<and> state_ok (shared w') \<and> seen_in client_id now (shared w') = seen_in client_id now (shared w) + 1" for hb bb
  proof (cases "3 \<le> seen_in client_id now (shared w)")
    case True
    then have block: "fst (check_and_update_rate_limit client_id now (shared w))" using self(1) by simp
    show ?thesis
      by (rule closed.blocked_session [OF closedI [OF es] cid g k(2,5,4) cipher block, of id hb bb]) (use True ok1 seen_in_limit [OF wf assms(2)] in auto)
  next
    case False
    then have pass: "\<not> fst (check_and_update_rate_limit client_id now (shared w))" using self(1) by simp
    obtain res reply r' s' where sv: "served id now client_id rs (shared w) = (res, reply, r', s')"
      by (cases "served id now client_id rs (shared w)")
    then have s': "s' = snd (snd (snd (handle_ride_request_logic client_id 256 rs ?s1)))"
      by (simp add: served_def split_beta)
    obtain out where out: "rc4_crypt (c_bytes reply) (c_bytes (derive_session_key s 64)) = Some out"
      using rc4.crypt_total [OF k(8)] by blast
    show ?thesis
      by (rule closed.server_session [OF closedI [OF es] cid g k(2,5,4,7) cipher pass sv out, of hb bb])
        (use False ride_request_state_ok [OF ok1] seen_in_limit [OF wf assms(2)] in \<open>auto simp: s'\<close>)
  qed
  with es show thesis using that by blast
qed

section \<open>What can crash a worker\<close>

definition key_ok :: "Conn \<Rightarrow> bool" where
  "key_ok c \<longleftrightarrow> (is_key_established c \<longrightarrow> ascii_key (c_bytes (session_key c)))"

lemma key_rc4: "key_ok c \<Longrightarrow> is_key_established c \<Longrightarrow> \<exists>out. rc4_crypt d (c_bytes (session_key c)) = Some out"
  unfolding key_ok_def by (blast intro: rc4.crypt_total)

lemma handshake_continues:
  "\<exists>c' w'. handle_handshake c w = Continue c' w' \<and> key_ok c' \<and> shared w' = shared w"
proof -
  obtain b r where g: "generate_private_key (gen w) = (b, r)" by (cases "generate_private_key (gen w)")
  show ?thesis
    by (rule handle_handshake_total [OF g, of c]) (auto simp: key_ok_def derive_session_key_ascii)
qed

lemma wrapper_crash:
  assumes "key_ok c" "is_key_established c"
    and "process_ride_request_wrapper env now (Some (session_key c)) c w = Crash c' w'"
  shows "\<exists>i. fst (check_and_update_rate_limit i now (shared w))"
proof (rule ccontr)
  assume none: "\<nexists>i. fst (check_and_update_rate_limit i now (shared w))"
  let ?id = "sint (req_client_id (ride_request_of (body_buf c)))"
  let ?ride = "handle_ride_request_logic ?id 256 (gen w) (env (snd (check_and_update_rate_limit ?id now (shared w))))"
  obtain out where "rc4_crypt (c_bytes (fst (snd ?ride))) (c_bytes (session_key c)) = Some out"
    using key_rc4 [OF assms(1,2)] by blast
  moreover have "\<not> fst (check_and_update_rate_limit ?id now (shared w))" using none by blast
  ultimately show False
    using assms(3) by (simp add: process_ride_request_wrapper_def Let_def split_beta send_response_packet_def)
qed

lemma packet_crash:
  assumes "key_ok c" "handle_packet env now h c w = Crash c' w'"
  shows "\<exists>i. fst (check_and_update_rate_limit i now (shared w))"
proof -
  have hs: "handle_handshake c w \<noteq> Crash c' w'" using handshake_continues [of c w] by auto
  have join: "handle_join h c'' w \<noteq> Crash c' w'" for c'' by (simp add: handle_join_def split_beta)
  from assms(2) hs join have ride: "handle_ride env now h c w = Crash c' w'"
    by (auto simp: handle_packet_def split: if_splits)
  then have est: "is_key_established c" by (auto simp: handle_ride_def split: if_splits)
  obtain plain where p: "rc4_crypt (take (unat (h_length h)) (body_buf c)) (c_bytes (session_key c)) = Some plain"
    using key_rc4 [OF assms(1) est] by blast
  let ?c = "c\<lparr>body_buf := overlay plain (body_buf c)\<rparr>"
  have "key_ok ?c" "is_key_established ?c" "session_key ?c = session_key c" using assms(1) est by (simp_all add: key_ok_def)
  then show ?thesis
    using ride est p join wrapper_crash [of ?c env now w c' w'] by (auto simp: handle_ride_def Let_def split: if_splits)
qed

lemma packet_continue:
  assumes "key_ok c" "handle_packet env now h c w = Continue c' w'"
  shows "key_ok c' \<and> shared w' = shared w"
proof (cases "h_type h = MSG_TYPE_HANDSHAKE")
  case True
  then show ?thesis using assms handshake_continues [of c w] by (auto simp: handle_packet_def)
next
  case False
  then show ?thesis
    using assms wrapper_not_continue
    by (auto simp: handle_packet_def handle_ride_def handle_join_def key_ok_def Let_def split_beta
        split: if_splits option.splits)
qed

lemma client_crash:
  "key_ok c \<Longrightarrow> handle_client env now c w = (Crashed, c', w') \<Longrightarrow>
     \<exists>i. fst (check_and_update_rate_limit i now (shared w))"
proof (induction "rx_size (rx c)" arbitrary: c w rule: less_induct)
  case less
  obtain h c1 where p: "read_packet c = (h, c1)" by (cases "read_packet c")
  have k1: "key_ok c1"
    using less.prems(1) p by (auto simp: key_ok_def read_packet_def recv_header_def recv_body_def Let_def split_beta split: if_splits)
  note step = less.prems(2) p handle_client.simps [of env now c]
  obtain header where h: "h = Some header" using step by (cases h) simp_all
  show ?case
  proof (cases "handle_packet env now header c1 w")
    case (Continue c2 w2)
    note k2 = packet_continue [OF k1 Continue]
    have "handle_client env now c2 w2 = (Crashed, c', w')" using step h Continue by simp
    moreover have "rx_size (rx c2) < rx_size (rx c)"
      using read_packet_progress [of c header c1] p h handle_packet_continue [OF Continue] by simp
    ultimately show ?thesis using less.hyps [of c2 w2] k2 by simp
  next
    case (Break c2 w2)
    then show ?thesis using step h by simp
  next
    case (Crash c2 w2)
    then show ?thesis using packet_crash [OF k1 Crash] by simp
  qed
qed

lemma flooded_wf: "wf_state (shared (idle_worker flooded))"
  by (simp add: flooded_def wf_state_def zero_state_def MAX_CLIENTS_def idle_worker_def)

lemma flooded_crash:
  obtains es c' w' where "handle_client id 100 (new_conn es [] []) (idle_worker flooded) = (Crashed, c', w')"
proof -
  have l: "limited_id 7" "3 \<le> seen_in 7 100 flooded"
    by (simp_all add: flooded_def seen_in_def limited_id_def)
  have "state_ok (shared (idle_worker flooded))"
    using zero_state_ok by (simp add: flooded_def idle_worker_def state_ok_def wf_state_def active_drivers_def zero_state_def MAX_CLIENTS_def)
  then obtain es where "\<forall>hb bb. \<exists>c' w'. handle_client id 100 (new_conn es hb bb) (idle_worker flooded) =
      (if 3 \<le> seen_in 7 100 (shared (idle_worker flooded)) then Crashed else Returned, c', w')
      \<and> state_ok (shared w') \<and> seen_in 7 100 (shared w') = seen_in 7 100 (shared (idle_worker flooded)) + 1"
    using honest_session [OF _ l(1)] by metis
  from this [rule_format, of "[]" "[]"] l(2) that show thesis by (auto simp: idle_worker_def)
qed



end
