(* ===== verification/Pathfinding.thy ===== *)
theory Pathfinding
  imports Shared_Data
begin

text \<open>
  src/server/pathfinding.c: the obstacle map, the A* search over open and closed lists, and
  \<open>get_next_step_astar\<close>, which runs the search and then answers with the free neighbour nearest to
  the target. The fixed arrays are lists: the 20 x 40 map and closed list are lists of rows, the
  open list is the list of its \<open>open_count\<close> live entries, and its capacity is checked as the code
  checks it.
\<close>

section \<open>The obstacle map\<close>

type_synonym grid = "int list list"

definition zero_grid :: grid where
  "zero_grid = replicate (nat MAP_HEIGHT) (replicate (nat MAP_WIDTH) 0)"

definition get_cell :: "grid \<Rightarrow> int \<Rightarrow> int \<Rightarrow> int" where
  "get_cell g y x = g ! nat y ! nat x"

definition set_cell :: "int \<Rightarrow> int \<Rightarrow> int \<Rightarrow> grid \<Rightarrow> grid" where
  "set_cell y x v g = g[nat y := (g ! nat y)[nat x := v]]"

text \<open>\<open>for (y = y0; y < y1; y++) for (x = x0; x < x1; x++) grid_map[y][x] = 1\<close>\<close>

definition fill_row :: "int \<Rightarrow> int list \<Rightarrow> grid \<Rightarrow> grid" where
  "fill_row y xs g = fold (\<lambda>x g. set_cell y x 1 g) xs g"

definition fill_rect :: "int list \<Rightarrow> int list \<Rightarrow> grid \<Rightarrow> grid" where
  "fill_rect ys xs g = fold (\<lambda>y g. fill_row y xs g) ys g"

definition init_map_obstacles :: grid where
  "init_map_obstacles =
     fill_rect [12..15] [30..34] (fill_rect [3..6] [5..9] (fill_rect [5..14] [20] zero_grid))"

definition is_obstacle :: "grid \<Rightarrow> int \<Rightarrow> int \<Rightarrow> int" where
  "is_obstacle g x y = (if x < 0 \<or> MAP_WIDTH \<le> x \<or> y < 0 \<or> MAP_HEIGHT \<le> y then 1 else get_cell g y x)"

definition wf_grid :: "grid \<Rightarrow> bool" where
  "wf_grid g \<longleftrightarrow> length g = 20 \<and> (\<forall>row \<in> set g. length row = 40)"

lemma wf_zero_grid [simp]: "wf_grid zero_grid"
  by (simp add: wf_grid_def zero_grid_def MAP_HEIGHT_def MAP_WIDTH_def)

lemma wf_set_cell [simp]: "wf_grid g \<Longrightarrow> wf_grid (set_cell y x v g)"
  by (cases "nat y < length g")
    (auto simp: wf_grid_def set_cell_def list_update_beyond dest!: set_update_subset_insert [THEN subsetD])

lemma get_set_cell:
  "wf_grid g \<Longrightarrow> in_map x y \<Longrightarrow> in_map x' y' \<Longrightarrow>
     get_cell (set_cell y x v g) y' x' = (if y = y' \<and> x = x' then v else get_cell g y' x')"
  by (auto simp: wf_grid_def get_cell_def set_cell_def in_map_def MAP_HEIGHT_def MAP_WIDTH_def nth_list_update)

lemma fill_row_cell:
  assumes "in_map x' y'"
  shows "wf_grid g \<Longrightarrow> (\<And>x. x \<in> set xs \<Longrightarrow> in_map x y) \<Longrightarrow>
     wf_grid (fill_row y xs g) \<and>
     get_cell (fill_row y xs g) y' x' = (if y = y' \<and> x' \<in> set xs then 1 else get_cell g y' x')"
  using assms by (induction xs arbitrary: g) (auto simp: fill_row_def get_set_cell)

lemma fill_rect_cell:
  assumes "in_map x' y'"
  shows "wf_grid g \<Longrightarrow> (\<And>x y. x \<in> set xs \<Longrightarrow> y \<in> set ys \<Longrightarrow> in_map x y) \<Longrightarrow>
     wf_grid (fill_rect ys xs g) \<and>
     get_cell (fill_rect ys xs g) y' x' = (if y' \<in> set ys \<and> x' \<in> set xs then 1 else get_cell g y' x')"
proof (induction ys arbitrary: g)
  case (Cons y ys)
  have row: "wf_grid (fill_row y xs g)"
    "get_cell (fill_row y xs g) y' x' = (if y = y' \<and> x' \<in> set xs then 1 else get_cell g y' x')"
    using fill_row_cell [OF assms, of g xs y] Cons.prems by auto
  have "fill_rect (y # ys) xs g = fill_rect ys xs (fill_row y xs g)"
    by (simp add: fill_rect_def)
  with Cons.IH [OF row(1)] Cons.prems(2) row(2) show ?case by auto
qed (simp add: fill_rect_def)

lemma fill_rect_interval:
  assumes "in_map x' y'" "wf_grid g" "in_map x0 y0" "in_map x1 y1"
  shows "wf_grid (fill_rect [y0..y1] [x0..x1] g)"
    "get_cell (fill_rect [y0..y1] [x0..x1] g) y' x'
       = (if y0 \<le> y' \<and> y' \<le> y1 \<and> x0 \<le> x' \<and> x' \<le> x1 then 1 else get_cell g y' x')"
  using fill_rect_cell [OF assms(1,2), of "[x0..x1]" "[y0..y1]"] assms(3,4)
  by (auto simp: in_map_def)

lemma zero_grid_cell: "in_map x y \<Longrightarrow> get_cell zero_grid y x = 0"
  by (auto simp: get_cell_def zero_grid_def in_map_def MAP_HEIGHT_def MAP_WIDTH_def)

text \<open>The map in closed form: the river and the two buildings.\<close>

definition wall :: "int \<Rightarrow> int \<Rightarrow> bool" where
  "wall x y \<longleftrightarrow> (x = 20 \<and> 5 \<le> y \<and> y < 15) \<or> (5 \<le> x \<and> x < 10 \<and> 3 \<le> y \<and> y < 7)
     \<or> (30 \<le> x \<and> x < 35 \<and> 12 \<le> y \<and> y < 16)"

lemma init_map_cell:
  assumes "in_map x y"
  shows "wf_grid init_map_obstacles" "get_cell init_map_obstacles y x = (if wall x y then 1 else 0)"
proof -
  let ?river = "fill_rect [5..14] [20..20] zero_grid"
  let ?house = "fill_rect [3..6] [5..9] ?river"
  have c: "in_map 20 5" "in_map 20 14" "in_map 5 3" "in_map 9 6" "in_map 30 12" "in_map 34 15"
    by (simp_all add: in_map_def MAP_HEIGHT_def MAP_WIDTH_def)
  note r1 = fill_rect_interval [OF assms wf_zero_grid c(1,2)]
  note r2 = fill_rect_interval [OF assms r1(1) c(3,4)]
  note r3 = fill_rect_interval [OF assms r2(1) c(5,6)]
  have i: "init_map_obstacles = fill_rect [12..15] [30..34] ?house"
    by (simp add: init_map_obstacles_def)
  show "wf_grid init_map_obstacles" unfolding i by (rule r3(1))
  show "get_cell init_map_obstacles y x = (if wall x y then 1 else 0)"
    unfolding i r3(2) r2(2) r1(2) zero_grid_cell [OF assms] by (auto simp: wall_def)
qed

lemma is_obstacle_init:
  "is_obstacle init_map_obstacles x y = (if in_map x y \<and> \<not> wall x y then 0 else 1)"
  using init_map_cell [of x y] by (auto simp: is_obstacle_def in_map_def)

section \<open>The A* search\<close>

record Node =
  n_x :: int
  n_y :: int
  g_cost :: int
  h_cost :: int
  f_cost :: int
  parent_index :: int

record Point =
  p_x :: int
  p_y :: int

definition calculate_h :: "int \<Rightarrow> int \<Rightarrow> int \<Rightarrow> int \<Rightarrow> int" where
  "calculate_h x y tx ty = \<bar>x - tx\<bar> + \<bar>y - ty\<bar>"

definition MAX_OPEN_NODES :: nat where
  "MAX_OPEN_NODES = nat (MAP_WIDTH * MAP_HEIGHT * 5)"

definition mk_node :: "int \<Rightarrow> int \<Rightarrow> int \<Rightarrow> int \<Rightarrow> int \<Rightarrow> Node" where
  "mk_node x y g tx ty = \<lparr>n_x = x, n_y = y, g_cost = g, h_cost = calculate_h x y tx ty,
     f_cost = g + calculate_h x y tx ty, parent_index = - 1\<rparr>"

text \<open>The scan for the lowest \<open>f_cost\<close>: index \<open>i\<close>, best value and index so far.\<close>

fun lowest_scan :: "Node list \<Rightarrow> nat \<Rightarrow> int \<Rightarrow> nat option \<Rightarrow> nat option" where
  "lowest_scan [] i lowest_f cur = cur"
| "lowest_scan (n # ns) i lowest_f cur =
     (if f_cost n < lowest_f then lowest_scan ns (Suc i) (f_cost n) (Some i)
      else lowest_scan ns (Suc i) lowest_f cur)"

definition directions :: "(int \<times> int) list" where
  "directions = [(0, - 1), (0, 1), (- 1, 0), (1, 0)]"

text \<open>
  The loop over the four neighbours: a neighbour outside the map, blocked or closed is skipped, a
  full open list ends the loop.
\<close>

fun expand :: "grid \<Rightarrow> grid \<Rightarrow> int \<Rightarrow> int \<Rightarrow> Node \<Rightarrow> (int \<times> int) list \<Rightarrow> Node list \<Rightarrow> Node list" where
  "expand g marked tx ty cur [] open_list = open_list"
| "expand g marked tx ty cur ((dx, dy) # ds) open_list =
     (let nx = n_x cur + dx; ny = n_y cur + dy in
      if 0 \<le> nx \<and> nx < MAP_WIDTH \<and> 0 \<le> ny \<and> ny < MAP_HEIGHT then
        if is_obstacle g nx ny \<noteq> 0 \<or> get_cell marked ny nx \<noteq> 0 then expand g marked tx ty cur ds open_list
        else if MAX_OPEN_NODES \<le> length open_list then open_list
        else expand g marked tx ty cur ds (open_list @ [mk_node nx ny (g_cost cur + 1) tx ty])
      else expand g marked tx ty cur ds open_list)"

text \<open>\<open>open_list[i] = open_list[open_count - 1]; open_count--\<close>\<close>

definition remove_at :: "nat \<Rightarrow> 'a list \<Rightarrow> 'a list" where
  "remove_at i xs = butlast (xs[i := last xs])"

fun astar_loop :: "grid \<Rightarrow> int \<Rightarrow> int \<Rightarrow> nat \<Rightarrow> Node list \<Rightarrow> grid \<Rightarrow> Node list \<times> grid" where
  "astar_loop g tx ty 0 open_list marked = (open_list, marked)"
| "astar_loop g tx ty (Suc steps) open_list marked =
     (if open_list = [] then (open_list, marked)
      else case lowest_scan open_list 0 999999 None of
             None \<Rightarrow> (open_list, marked)
           | Some i \<Rightarrow>
               (let cur = open_list ! i;
                    open' = remove_at i open_list;
                    marked' = set_cell (n_y cur) (n_x cur) 1 marked
                in if n_x cur = tx \<and> n_y cur = ty then (open', marked')
                   else astar_loop g tx ty steps
                          (expand g marked' tx ty cur directions open') marked'))"

definition max_steps :: nat where "max_steps = 3000"

definition astar_search :: "grid \<Rightarrow> int \<Rightarrow> int \<Rightarrow> int \<Rightarrow> int \<Rightarrow> Node list \<times> grid" where
  "astar_search g sx sy tx ty = astar_loop g tx ty max_steps [mk_node sx sy 0 tx ty] zero_grid"

section \<open>The next step\<close>

text \<open>The final loop: the first free neighbour with the least Manhattan distance to the target.\<close>

fun greedy_scan :: "grid \<Rightarrow> int \<Rightarrow> int \<Rightarrow> int \<Rightarrow> int \<Rightarrow> (int \<times> int) list \<Rightarrow> int \<Rightarrow> (int \<times> int) option \<Rightarrow> (int \<times> int) option" where
  "greedy_scan g sx sy tx ty [] min_score best = best"
| "greedy_scan g sx sy tx ty ((dx, dy) # ds) min_score best =
     (let nx = sx + dx; ny = sy + dy in
      if 0 \<le> nx \<and> nx < MAP_WIDTH \<and> 0 \<le> ny \<and> ny < MAP_HEIGHT \<and> is_obstacle g nx ny = 0
         \<and> calculate_h nx ny tx ty < min_score
      then greedy_scan g sx sy tx ty ds (calculate_h nx ny tx ty) (Some (dx, dy))
      else greedy_scan g sx sy tx ty ds min_score best)"

definition greedy_step :: "grid \<Rightarrow> int \<Rightarrow> int \<Rightarrow> int \<Rightarrow> int \<Rightarrow> Point" where
  "greedy_step g sx sy tx ty =
     (case greedy_scan g sx sy tx ty directions 999999 None of
        Some (dx, dy) \<Rightarrow> \<lparr>p_x = sx + dx, p_y = sy + dy\<rparr>
      | None \<Rightarrow> \<lparr>p_x = sx, p_y = sy\<rparr>)"

definition clamp :: "int \<Rightarrow> int \<Rightarrow> int" where
  "clamp n v = (let v = (if v < 0 then 0 else v) in if n \<le> v then n - 1 else v)"

definition get_next_step_astar :: "grid \<Rightarrow> double \<Rightarrow> double \<Rightarrow> double \<Rightarrow> double \<Rightarrow> Point" where
  "get_next_step_astar g slat slon tlat tlon =
     (let start_y = clamp MAP_HEIGHT (to_cell BASE_LAT slat);
          start_x = clamp MAP_WIDTH (to_cell BASE_LON slon);
          target_y = clamp MAP_HEIGHT (to_cell BASE_LAT tlat);
          target_x = clamp MAP_WIDTH (to_cell BASE_LON tlon)
      in if start_x = target_x \<and> start_y = target_y then \<lparr>p_x = start_x, p_y = start_y\<rparr>
         else let search = astar_search g start_x start_y target_x target_y
              in greedy_step g start_x start_y target_x target_y)"

section \<open>The greedy choice\<close>

definition free :: "grid \<Rightarrow> int \<Rightarrow> int \<Rightarrow> bool" where
  "free g x y \<longleftrightarrow> in_map x y \<and> is_obstacle g x y = 0"

lemma free_iff_obstacle: "free g x y \<longleftrightarrow> is_obstacle g x y = 0"
  by (auto simp: free_def is_obstacle_def in_map_def)

lemma greedy_scan_step:
  "greedy_scan g sx sy tx ty ((dx, dy) # ds) m best =
     (if free g (sx + dx) (sy + dy) \<and> calculate_h (sx + dx) (sy + dy) tx ty < m
      then greedy_scan g sx sy tx ty ds (calculate_h (sx + dx) (sy + dy) tx ty) (Some (dx, dy))
      else greedy_scan g sx sy tx ty ds m best)"
  by (simp add: Let_def free_def in_map_def)

lemma greedy_scan_cases:
  "greedy_scan g sx sy tx ty ds m best = r \<Longrightarrow>
     (r = best \<and> (\<forall>(dx, dy) \<in> set ds. free g (sx + dx) (sy + dy) \<longrightarrow> m \<le> calculate_h (sx + dx) (sy + dy) tx ty))
     \<or> (\<exists>dx dy. r = Some (dx, dy) \<and> (dx, dy) \<in> set ds \<and> free g (sx + dx) (sy + dy)
          \<and> calculate_h (sx + dx) (sy + dy) tx ty < m
          \<and> (\<forall>(ex, ey) \<in> set ds. free g (sx + ex) (sy + ey) \<longrightarrow>
                calculate_h (sx + dx) (sy + dy) tx ty \<le> calculate_h (sx + ex) (sy + ey) tx ty))"
proof (induction g sx sy tx ty ds m best rule: greedy_scan.induct)
  case (2 g sx sy tx ty dx dy ds m best)
  let ?c = "free g (sx + dx) (sy + dy) \<and> calculate_h (sx + dx) (sy + dy) tx ty < m"
  show ?case
  proof (cases ?c)
    case True
    then have "0 \<le> sx + dx \<and> sx + dx < MAP_WIDTH \<and> 0 \<le> sy + dy \<and> sy + dy < MAP_HEIGHT
        \<and> is_obstacle g (sx + dx) (sy + dy) = 0 \<and> calculate_h (sx + dx) (sy + dy) tx ty < m"
      by (simp add: free_def in_map_def)
    note IH = "2.IH"(1) [OF refl refl this]
    from "2.prems" have "greedy_scan g sx sy tx ty ds (calculate_h (sx + dx) (sy + dy) tx ty) (Some (dx, dy)) = r"
      by (simp only: greedy_scan_step if_P [OF True])
    from IH [OF this] True show ?thesis by (fastforce simp del: greedy_scan.simps)
  next
    case False
    then have "\<not> (0 \<le> sx + dx \<and> sx + dx < MAP_WIDTH \<and> 0 \<le> sy + dy \<and> sy + dy < MAP_HEIGHT
        \<and> is_obstacle g (sx + dx) (sy + dy) = 0 \<and> calculate_h (sx + dx) (sy + dy) tx ty < m)"
      by (simp add: free_def in_map_def)
    note IH = "2.IH"(2) [OF refl refl this]
    from "2.prems" have "greedy_scan g sx sy tx ty ds m best = r"
      by (simp only: greedy_scan_step if_not_P [OF False])
    from IH [OF this] False show ?thesis by (fastforce simp del: greedy_scan.simps)
  qed
qed simp

lemma calculate_h_bound: "in_map x y \<Longrightarrow> in_map tx ty \<Longrightarrow> calculate_h x y tx ty < 60"
  by (auto simp: calculate_h_def in_map_def MAP_WIDTH_def MAP_HEIGHT_def)

lemma calculate_h_nonneg: "0 \<le> calculate_h x y tx ty"
  by (simp add: calculate_h_def)

lemma clamp_range: "0 < n \<Longrightarrow> 0 \<le> clamp n v \<and> clamp n v < n"
  by (auto simp: clamp_def Let_def)

lemma clamp_id: "0 \<le> v \<Longrightarrow> v < n \<Longrightarrow> clamp n v = v"
  by (simp add: clamp_def)

lemma in_map_clamp: "in_map (clamp MAP_WIDTH x) (clamp MAP_HEIGHT y)"
  using clamp_range [of MAP_WIDTH x] clamp_range [of MAP_HEIGHT y]
  by (simp add: in_map_def MAP_WIDTH_def MAP_HEIGHT_def)

text \<open>
  The answer is the start itself, when no neighbour is free, or a free neighbour at least as close
  to the target as every other free neighbour.
\<close>

definition best_neighbour :: "grid \<Rightarrow> int \<Rightarrow> int \<Rightarrow> int \<Rightarrow> int \<Rightarrow> Point \<Rightarrow> bool" where
  "best_neighbour g sx sy tx ty p \<longleftrightarrow>
     (p_x p - sx, p_y p - sy) \<in> set directions \<and> free g (p_x p) (p_y p) \<and>
     (\<forall>(dx, dy) \<in> set directions. free g (sx + dx) (sy + dy) \<longrightarrow>
        calculate_h (p_x p) (p_y p) tx ty \<le> calculate_h (sx + dx) (sy + dy) tx ty)"

definition blocked_in :: "grid \<Rightarrow> int \<Rightarrow> int \<Rightarrow> bool" where
  "blocked_in g sx sy \<longleftrightarrow> (\<forall>(dx, dy) \<in> set directions. \<not> free g (sx + dx) (sy + dy))"

lemma greedy_step_cases:
  assumes "in_map tx ty"
  shows "(blocked_in g sx sy \<and> greedy_step g sx sy tx ty = \<lparr>p_x = sx, p_y = sy\<rparr>)
    \<or> (\<not> blocked_in g sx sy \<and> best_neighbour g sx sy tx ty (greedy_step g sx sy tx ty))"
proof -
  obtain r where r: "greedy_scan g sx sy tx ty directions 999999 None = r" by simp
  have bound: "free g x y \<Longrightarrow> calculate_h x y tx ty < 999999" for x y
    using calculate_h_bound [OF _ assms, of x y] by (auto simp: free_def)
  from greedy_scan_cases [OF r] show ?thesis
  proof (elim disjE exE conjE)
    assume "r = None" "\<forall>(dx, dy) \<in> set directions. free g (sx + dx) (sy + dy) \<longrightarrow>
        999999 \<le> calculate_h (sx + dx) (sy + dy) tx ty"
    moreover from this(2) have "blocked_in g sx sy"
      unfolding blocked_in_def using bound by fastforce
    ultimately show ?thesis by (simp add: greedy_step_def r)
  next
    fix dx dy
    assume "r = Some (dx, dy)" "(dx, dy) \<in> set directions" "free g (sx + dx) (sy + dy)"
      "\<forall>(ex, ey) \<in> set directions. free g (sx + ex) (sy + ey) \<longrightarrow>
         calculate_h (sx + dx) (sy + dy) tx ty \<le> calculate_h (sx + ex) (sy + ey) tx ty"
    then show ?thesis
      by (intro disjI2) (auto simp: greedy_step_def r best_neighbour_def blocked_in_def)
  qed
qed

section \<open>What the search establishes\<close>

text \<open>\<open>free_path g sx sy n x y\<close>: \<open>n\<close> steps over free cells lead from the start to the cell.\<close>

inductive free_path :: "grid \<Rightarrow> int \<Rightarrow> int \<Rightarrow> nat \<Rightarrow> int \<Rightarrow> int \<Rightarrow> bool"
  for g :: grid and sx sy :: int where
  path_start: "free_path g sx sy 0 sx sy"
| path_step: "free_path g sx sy n x y \<Longrightarrow> (dx, dy) \<in> set directions \<Longrightarrow> free g (x + dx) (y + dy) \<Longrightarrow>
    free_path g sx sy (Suc n) (x + dx) (y + dy)"

definition node_ok :: "grid \<Rightarrow> int \<Rightarrow> int \<Rightarrow> int \<Rightarrow> int \<Rightarrow> int \<Rightarrow> Node \<Rightarrow> bool" where
  "node_ok g sx sy tx ty k n \<longleftrightarrow> in_map (n_x n) (n_y n) \<and> h_cost n = calculate_h (n_x n) (n_y n) tx ty
     \<and> f_cost n = g_cost n + h_cost n \<and> 0 \<le> g_cost n \<and> g_cost n \<le> k
     \<and> free_path g sx sy (nat (g_cost n)) (n_x n) (n_y n)"

lemma node_ok_mono: "node_ok g sx sy tx ty k n \<Longrightarrow> k \<le> k' \<Longrightarrow> node_ok g sx sy tx ty k' n"
  by (simp add: node_ok_def)

lemma node_ok_cost: "node_ok g sx sy tx ty k n \<Longrightarrow> in_map tx ty \<Longrightarrow> f_cost n < k + 60"
  using calculate_h_bound [of "n_x n" "n_y n" tx ty] by (simp add: node_ok_def)

lemma node_ok_step:
  assumes "node_ok g sx sy tx ty k cur" "(dx, dy) \<in> set directions" "free g (n_x cur + dx) (n_y cur + dy)"
  shows "node_ok g sx sy tx ty (k + 1) (mk_node (n_x cur + dx) (n_y cur + dy) (g_cost cur + 1) tx ty)"
proof -
  have "free_path g sx sy (Suc (nat (g_cost cur))) (n_x cur + dx) (n_y cur + dy)"
    using assms by (auto simp: node_ok_def intro: path_step)
  moreover have "nat (g_cost cur + 1) = Suc (nat (g_cost cur))"
    using assms(1) by (simp add: node_ok_def nat_add_distrib)
  ultimately show ?thesis
    using assms by (auto simp: node_ok_def mk_node_def free_def)
qed

text \<open>The pop never fails: with costs below the scan's start value it returns a least entry.\<close>

lemma lowest_scan_Some:
  "cur = Some j \<Longrightarrow> \<exists>i. lowest_scan ns k m cur = Some i \<and> (i = j \<or> k \<le> i \<and> i < k + length ns)"
proof (induction ns k m cur arbitrary: j rule: lowest_scan.induct)
  case (2 n ns i m cur)
  then show ?case by (cases "f_cost n < m") fastforce+
qed simp

lemma lowest_scan_hit:
  assumes "ns \<noteq> []" "\<forall>n \<in> set ns. f_cost n < m"
  obtains i where "lowest_scan ns 0 m None = Some i" "i < length ns"
proof -
  obtain n ns' where ns: "ns = n # ns'" using assms(1) by (cases ns) auto
  with assms(2) have "lowest_scan ns 0 m None = lowest_scan ns' (Suc 0) (f_cost n) (Some 0)" by simp
  moreover obtain i where "lowest_scan ns' (Suc 0) (f_cost n) (Some 0) = Some i"
      "i = 0 \<or> Suc 0 \<le> i \<and> i < Suc 0 + length ns'"
    using lowest_scan_Some [of "Some 0" 0 ns' "Suc 0" "f_cost n", OF refl] by blast
  ultimately have "lowest_scan ns 0 m None = Some i" "i < length ns" using ns by auto
  then show thesis by (rule that)
qed

lemma remove_at_facts:
  assumes "i < length xs"
  shows "length (remove_at i xs) = length xs - 1" "set xs = insert (xs ! i) (set (remove_at i xs))"
proof -
  have ne: "xs \<noteq> []" using assms by auto
  show "length (remove_at i xs) = length xs - 1" by (simp add: remove_at_def)
  have "mset (remove_at i xs) + {#xs ! i#} = mset xs"
  proof (cases "i = length xs - 1")
    case True
    then have "xs ! i = last xs" using ne by (simp add: last_conv_nth)
    then have "remove_at i xs = butlast xs" using True ne by (simp add: remove_at_def butlast_list_update)
    then show ?thesis
      using ne \<open>xs ! i = last xs\<close> by (metis append_butlast_last_id mset.simps(1) mset.simps(2) mset_append)
  next
    case False
    then have i: "i < length (butlast xs)" using assms by simp
    have "remove_at i xs = (butlast xs)[i := last xs]"
      using False assms by (simp add: remove_at_def butlast_list_update)
    moreover have "butlast xs ! i = xs ! i" using i by (simp add: nth_butlast)
    moreover have "butlast xs ! i \<in># mset (butlast xs)" using i by (simp only: set_mset_mset nth_mem)
    ultimately have "mset (remove_at i xs) + {#xs ! i#} = mset (butlast xs) + {#last xs#}"
      using i by (simp add: mset_update insert_DiffM)
    also have "\<dots> = mset xs" using ne
      by (metis append_butlast_last_id mset.simps(1) mset.simps(2) mset_append)
    finally show ?thesis .
  qed
  then show "set xs = insert (xs ! i) (set (remove_at i xs))"
    by (metis add_mset_add_single set_mset_add_mset_insert set_mset_mset)
qed

definition neighbours_noted :: "grid \<Rightarrow> grid \<Rightarrow> (int \<times> int) list \<Rightarrow> int \<Rightarrow> int \<Rightarrow> Node list \<Rightarrow> bool" where
  "neighbours_noted g marked ds x y r \<longleftrightarrow>
     (\<forall>(dx, dy) \<in> set ds. free g (x + dx) (y + dy) \<longrightarrow> get_cell marked (y + dy) (x + dx) = 0 \<longrightarrow>
        (\<exists>n \<in> set r. n_x n = x + dx \<and> n_y n = y + dy))"

lemma neighbours_noted_Cons:
  "neighbours_noted g marked ((dx, dy) # ds) x y r \<longleftrightarrow>
     (free g (x + dx) (y + dy) \<longrightarrow> get_cell marked (y + dy) (x + dx) = 0 \<longrightarrow>
        (\<exists>n \<in> set r. n_x n = x + dx \<and> n_y n = y + dy)) \<and> neighbours_noted g marked ds x y r"
  by (simp add: neighbours_noted_def)

lemma neighbours_noted_mono:
  "neighbours_noted g marked ds x y r \<Longrightarrow> set r \<subseteq> set r' \<Longrightarrow> neighbours_noted g marked ds x y r'"
  by (fastforce simp: neighbours_noted_def)

lemma expand_step:
  "expand g marked tx ty cur ((dx, dy) # ds) open_list =
     (if free g (n_x cur + dx) (n_y cur + dy) \<and> get_cell marked (n_y cur + dy) (n_x cur + dx) = 0
      then if MAX_OPEN_NODES \<le> length open_list then open_list
           else expand g marked tx ty cur ds
                  (open_list @ [mk_node (n_x cur + dx) (n_y cur + dy) (g_cost cur + 1) tx ty])
      else expand g marked tx ty cur ds open_list)"
  by (auto simp: Let_def free_def in_map_def)

lemma expand_facts:
  assumes "node_ok g sx sy tx ty k cur"
  shows "set ds \<subseteq> set directions \<Longrightarrow> length open_list \<le> MAX_OPEN_NODES \<Longrightarrow>
    \<forall>n \<in> set open_list. node_ok g sx sy tx ty (k + 1) n \<Longrightarrow>
    r = expand g marked tx ty cur ds open_list \<Longrightarrow>
    length open_list \<le> length r \<and> length r \<le> MAX_OPEN_NODES \<and> set open_list \<subseteq> set r
    \<and> (\<forall>n \<in> set r. node_ok g sx sy tx ty (k + 1) n)
    \<and> (length r = MAX_OPEN_NODES \<or> neighbours_noted g marked ds (n_x cur) (n_y cur) r)"
proof (induction ds arbitrary: open_list)
  case (Cons d ds)
  obtain dx dy where d: "d = (dx, dy)" by (cases d)
  let ?new = "mk_node (n_x cur + dx) (n_y cur + dy) (g_cost cur + 1) tx ty"
  let ?c = "free g (n_x cur + dx) (n_y cur + dy) \<and> get_cell marked (n_y cur + dy) (n_x cur + dx) = 0"
  show ?case
  proof (cases ?c)
    case False
    from Cons.prems(4) have r: "r = expand g marked tx ty cur ds open_list"
      by (simp only: d expand_step if_not_P [OF False])
    from Cons.IH [OF _ Cons.prems(2,3) r] Cons.prems(1) False show ?thesis
      by (auto simp: d neighbours_noted_Cons)
  next
    case new: True
    show ?thesis
    proof (cases "MAX_OPEN_NODES \<le> length open_list")
      case True
      from Cons.prems(4) have "r = open_list"
        by (simp only: d expand_step if_P [OF new] if_P [OF True])
      with True Cons.prems show ?thesis by auto
    next
      case False
      from Cons.prems(4) have r: "r = expand g marked tx ty cur ds (open_list @ [?new])"
        by (simp only: d expand_step if_P [OF new] if_not_P [OF False])
      have "node_ok g sx sy tx ty (k + 1) ?new"
        using Cons.prems new assms by (intro node_ok_step) (auto simp: d)
      with Cons.IH [OF _ _ _ r] Cons.prems False
      have "length (open_list @ [?new]) \<le> length r \<and> length r \<le> MAX_OPEN_NODES
          \<and> set (open_list @ [?new]) \<subseteq> set r \<and> (\<forall>n \<in> set r. node_ok g sx sy tx ty (k + 1) n)
          \<and> (length r = MAX_OPEN_NODES \<or> neighbours_noted g marked ds (n_x cur) (n_y cur) r)"
        by auto
      moreover have "n_x ?new = n_x cur + dx" "n_y ?new = n_y cur + dy" by (simp_all add: mk_node_def)
      ultimately show ?thesis by (auto simp: d neighbours_noted_Cons)
    qed
  qed
qed (simp add: neighbours_noted_def)

text \<open>
  The invariant of the main loop after \<open>k\<close> pops with \<open>steps\<close> left. Every open entry is a cell
  reached by a free path of its cost, the open list fits its array, every closed cell is
  reachable, and either the open list is too long to run empty in the steps left or no free
  neighbour of a closed cell has been forgotten.
\<close>

definition frontier_complete :: "grid \<Rightarrow> int \<Rightarrow> int \<Rightarrow> Node list \<Rightarrow> grid \<Rightarrow> bool" where
  "frontier_complete g sx sy open_list marked \<longleftrightarrow>
     (get_cell marked sy sx \<noteq> 0 \<or> (\<exists>n \<in> set open_list. n_x n = sx \<and> n_y n = sy))
     \<and> (\<forall>x y. in_map x y \<longrightarrow> get_cell marked y x \<noteq> 0 \<longrightarrow> neighbours_noted g marked directions x y open_list)"

definition astar_inv :: "grid \<Rightarrow> int \<Rightarrow> int \<Rightarrow> int \<Rightarrow> int \<Rightarrow> int \<Rightarrow> nat \<Rightarrow> Node list \<Rightarrow> grid \<Rightarrow> bool" where
  "astar_inv g sx sy tx ty k steps open_list marked \<longleftrightarrow>
     wf_grid marked \<and> length open_list \<le> MAX_OPEN_NODES \<and> (\<forall>n \<in> set open_list. node_ok g sx sy tx ty k n)
     \<and> (\<forall>x y. in_map x y \<longrightarrow> get_cell marked y x \<noteq> 0 \<longrightarrow> (\<exists>n. free_path g sx sy n x y))
     \<and> (steps < length open_list \<or> frontier_complete g sx sy open_list marked)"

lemma astar_inv_step:
  assumes inv: "astar_inv g sx sy tx ty k (Suc steps) open_list marked"
    and i: "i < length open_list" and max: "steps < MAX_OPEN_NODES" and s: "in_map sx sy"
  defines "cur \<equiv> open_list ! i"
  defines "marked' \<equiv> set_cell (n_y cur) (n_x cur) 1 marked"
  shows "astar_inv g sx sy tx ty (k + 1) steps
           (expand g marked' tx ty cur directions (remove_at i open_list)) marked'"
proof -
  let ?o = "remove_at i open_list"
  define r where "r = expand g marked' tx ty cur directions ?o"
  have cur: "cur \<in> set open_list" using i by (simp add: cur_def)
  then have ok: "node_ok g sx sy tx ty k cur" using inv by (simp add: astar_inv_def)
  then have cm: "in_map (n_x cur) (n_y cur)" by (simp add: node_ok_def)
  have o: "length ?o = length open_list - 1" "set open_list = insert cur (set ?o)"
    using remove_at_facts [OF i] by (simp_all add: cur_def)
  have o_ok: "\<forall>n \<in> set ?o. node_ok g sx sy tx ty (k + 1) n"
    using inv o(2) by (auto simp: astar_inv_def intro: node_ok_mono)
  have "length ?o \<le> MAX_OPEN_NODES" using inv o(1) by (auto simp: astar_inv_def)
  from expand_facts [OF ok subset_refl this o_ok r_def]
  have r: "length ?o \<le> length r" "length r \<le> MAX_OPEN_NODES" "set ?o \<subseteq> set r"
    "\<forall>n \<in> set r. node_ok g sx sy tx ty (k + 1) n"
    "length r = MAX_OPEN_NODES \<or> neighbours_noted g marked' directions (n_x cur) (n_y cur) r"
    by blast+
  have m: "wf_grid marked" using inv by (simp add: astar_inv_def)
  have cell: "get_cell marked' y x = (if n_y cur = y \<and> n_x cur = x then 1 else get_cell marked y x)"
    if "in_map x y" for x y
    using get_set_cell [OF m cm that] by (simp add: marked'_def)
  have reach: "\<exists>n. free_path g sx sy n x y" if "in_map x y" "get_cell marked' y x \<noteq> 0" for x y
    using that ok inv by (auto simp: cell astar_inv_def node_ok_def split: if_splits)
  have complete: "frontier_complete g sx sy r marked'"
    if fc: "frontier_complete g sx sy open_list marked"
      and nn: "neighbours_noted g marked' directions (n_x cur) (n_y cur) r"
    unfolding frontier_complete_def
  proof (intro conjI allI impI)
    show "get_cell marked' sy sx \<noteq> 0 \<or> (\<exists>n \<in> set r. n_x n = sx \<and> n_y n = sy)"
      using fc o(2) r(3) by (auto simp: frontier_complete_def cell [OF s])
  next
    fix x y assume xy: "in_map x y" "get_cell marked' y x \<noteq> 0"
    show "neighbours_noted g marked' directions x y r"
    proof (cases "n_y cur = y \<and> n_x cur = x")
      case True
      with nn show ?thesis by simp
    next
      case False
      with xy fc have old: "neighbours_noted g marked directions x y open_list"
        by (auto simp: frontier_complete_def cell)
      show ?thesis unfolding neighbours_noted_def
      proof (intro ballI, clarify)
        fix dx dy assume d: "(dx, dy) \<in> set directions" and f: "free g (x + dx) (y + dy)"
          and c: "get_cell marked' (y + dy) (x + dx) = 0"
        have inm: "in_map (x + dx) (y + dy)" using f by (simp add: free_def)
        from c have nc: "\<not> (n_y cur = y + dy \<and> n_x cur = x + dx)" "get_cell marked (y + dy) (x + dx) = 0"
          unfolding cell [OF inm] by (auto split: if_splits)
        with old d f obtain n where "n \<in> set open_list" "n_x n = x + dx" "n_y n = y + dy"
          by (fastforce simp: neighbours_noted_def)
        with nc(1) o(2) r(3) show "\<exists>n \<in> set r. n_x n = x + dx \<and> n_y n = y + dy" by auto
      qed
    qed
  qed
  have "steps < length r \<or> frontier_complete g sx sy r marked'"
  proof (cases "Suc steps < length open_list \<or> length r = MAX_OPEN_NODES")
    case True
    then show ?thesis using r(1) o(1) max by auto
  next
    case False
    then show ?thesis using inv r(5) complete by (auto simp: astar_inv_def)
  qed
  then have "astar_inv g sx sy tx ty (k + 1) steps r marked'"
    using r(2,4) reach m by (simp add: astar_inv_def marked'_def)
  then show ?thesis by (simp add: r_def)
qed


lemma astar_inv_pop:
  assumes "astar_inv g sx sy tx ty k steps open_list marked" "open_list \<noteq> []" "in_map tx ty" "k + 60 \<le> 999999"
  obtains i where "lowest_scan open_list 0 999999 None = Some i" "i < length open_list"
proof -
  have "\<forall>n \<in> set open_list. f_cost n < 999999"
    using assms(1,4) node_ok_cost [OF _ assms(3)] by (fastforce simp: astar_inv_def)
  with lowest_scan_hit [OF assms(2)] that show thesis by blast
qed

definition search_result :: "grid \<Rightarrow> int \<Rightarrow> int \<Rightarrow> int \<Rightarrow> int \<Rightarrow> Node list \<times> grid \<Rightarrow> bool" where
  "search_result g sx sy tx ty = (\<lambda>(rest, marked).
     length rest \<le> MAX_OPEN_NODES
     \<and> (\<forall>x y. in_map x y \<longrightarrow> get_cell marked y x \<noteq> 0 \<longrightarrow> (\<exists>n. free_path g sx sy n x y))
     \<and> (get_cell marked ty tx \<noteq> 0 \<or> (rest = [] \<longrightarrow> frontier_complete g sx sy [] marked)))"

lemma astar_inv_result: "astar_inv g sx sy tx ty k 0 rest marked \<Longrightarrow> search_result g sx sy tx ty (rest, marked)"
  by (auto simp: astar_inv_def search_result_def)

lemma astar_inv_empty: "astar_inv g sx sy tx ty k steps [] marked \<Longrightarrow> search_result g sx sy tx ty ([], marked)"
  by (auto simp: astar_inv_def search_result_def)

lemma astar_inv_found:
  assumes inv: "astar_inv g sx sy tx ty k steps open_list marked" and i: "i < length open_list"
    and t: "n_x (open_list ! i) = tx" "n_y (open_list ! i) = ty" "in_map tx ty"
  shows "search_result g sx sy tx ty (remove_at i open_list, set_cell ty tx 1 marked)"
proof -
  have "node_ok g sx sy tx ty k (open_list ! i)" using inv i by (simp add: astar_inv_def)
  then have "free_path g sx sy (nat (g_cost (open_list ! i))) tx ty" using t by (simp add: node_ok_def)
  moreover have "length (remove_at i open_list) \<le> MAX_OPEN_NODES"
    using remove_at_facts(1) [OF i] inv by (auto simp: astar_inv_def)
  ultimately show ?thesis
    using inv t(3) by (auto simp: search_result_def astar_inv_def get_set_cell)
qed

lemma astar_loop_result:
  assumes t: "in_map tx ty" and s: "in_map sx sy"
  shows "astar_inv g sx sy tx ty k steps open_list marked \<Longrightarrow> k + int steps \<le> 3000 \<Longrightarrow>
    steps \<le> MAX_OPEN_NODES \<Longrightarrow> search_result g sx sy tx ty (astar_loop g tx ty steps open_list marked)"
proof (induction steps arbitrary: k open_list marked)
  case 0
  then show ?case using astar_inv_result by simp
next
  case (Suc steps)
  show ?case
  proof (cases "open_list = []")
    case True
    then show ?thesis using astar_inv_empty Suc.prems(1) by simp
  next
    case False
    obtain i where i: "lowest_scan open_list 0 999999 None = Some i" "i < length open_list"
      by (rule astar_inv_pop [OF Suc.prems(1) False t]) (use Suc.prems(2) in auto)
    show ?thesis
    proof (cases "n_x (open_list ! i) = tx \<and> n_y (open_list ! i) = ty")
      case True
      then show ?thesis using astar_inv_found [OF Suc.prems(1) i(2)] t False i(1) by (simp add: Let_def)
    next
      case no: False
      have "steps < MAX_OPEN_NODES" using Suc.prems(3) by simp
      note step = astar_inv_step [OF Suc.prems(1) i(2) this s]
      from Suc.IH [OF step] Suc.prems(2,3) no False i(1) show ?thesis by (auto simp: Let_def)
    qed
  qed
qed

lemma astar_inv_start:
  assumes "in_map sx sy"
  shows "astar_inv g sx sy tx ty 0 max_steps [mk_node sx sy 0 tx ty] zero_grid"
  using assms zero_grid_cell
  by (auto simp: astar_inv_def frontier_complete_def node_ok_def mk_node_def path_start MAX_OPEN_NODES_def
      MAP_WIDTH_def MAP_HEIGHT_def)

lemma astar_search_result:
  "in_map sx sy \<Longrightarrow> in_map tx ty \<Longrightarrow> search_result g sx sy tx ty (astar_search g sx sy tx ty)"
  unfolding astar_search_def
  by (rule astar_loop_result [OF _ _ astar_inv_start])
    (simp_all add: max_steps_def MAX_OPEN_NODES_def MAP_WIDTH_def MAP_HEIGHT_def)

lemma frontier_closure:
  assumes "frontier_complete g sx sy [] marked" "in_map sx sy"
  shows "free_path g sx sy n x y \<Longrightarrow> in_map x y \<and> get_cell marked y x \<noteq> 0"
proof (induction rule: free_path.induct)
  case path_start
  then show ?case using assms by (simp add: frontier_complete_def)
next
  case (path_step n x y dx dy)
  then show ?case using assms(1)
    by (fastforce simp: frontier_complete_def neighbours_noted_def free_def)
qed

text \<open>Evaluation of a search at concrete cells.\<close>

lemma astar_loop_numeral:
  "astar_loop g tx ty (numeral v) open_list marked =
     (if open_list = [] then (open_list, marked)
      else case lowest_scan open_list 0 999999 None of
             None \<Rightarrow> (open_list, marked)
           | Some i \<Rightarrow>
               if n_x (open_list ! i) = tx \<and> n_y (open_list ! i) = ty
               then (remove_at i open_list, set_cell (n_y (open_list ! i)) (n_x (open_list ! i)) 1 marked)
               else astar_loop g tx ty (pred_numeral v)
                      (expand g (set_cell (n_y (open_list ! i)) (n_x (open_list ! i)) 1 marked) tx ty
                         (open_list ! i) directions (remove_at i open_list))
                      (set_cell (n_y (open_list ! i)) (n_x (open_list ! i)) 1 marked))"
  by (simp add: numeral_eq_Suc Let_def split: option.split)

lemma is_obstacle_zero: "is_obstacle zero_grid x y = (if in_map x y then 0 else 1)"
  using zero_grid_cell [of x y] by (auto simp: is_obstacle_def in_map_def)

lemma next_step_cases:
  fixes slat slon tlat tlon :: double
  defines "sx \<equiv> clamp MAP_WIDTH (to_cell BASE_LON slon)" and "sy \<equiv> clamp MAP_HEIGHT (to_cell BASE_LAT slat)"
    and "tx \<equiv> clamp MAP_WIDTH (to_cell BASE_LON tlon)" and "ty \<equiv> clamp MAP_HEIGHT (to_cell BASE_LAT tlat)"
  shows "get_next_step_astar g slat slon tlat tlon = \<lparr>p_x = sx, p_y = sy\<rparr> \<and> (sx = tx \<and> sy = ty \<or> blocked_in g sx sy)
    \<or> \<not> (sx = tx \<and> sy = ty) \<and> best_neighbour g sx sy tx ty (get_next_step_astar g slat slon tlat tlon)"
proof (cases "sx = tx \<and> sy = ty")
  case True
  then show ?thesis by (simp add: get_next_step_astar_def Let_def sx_def sy_def tx_def ty_def)
next
  case False
  then have "get_next_step_astar g slat slon tlat tlon = greedy_step g sx sy tx ty"
    by (auto simp: get_next_step_astar_def Let_def sx_def sy_def tx_def ty_def)
  moreover have "in_map tx ty" unfolding tx_def ty_def by (rule in_map_clamp)
  ultimately show ?thesis using greedy_step_cases [of tx ty g sx sy] False by auto
qed

lemma next_step_in_map:
  "in_map (p_x (get_next_step_astar g slat slon tlat tlon)) (p_y (get_next_step_astar g slat slon tlat tlon))"
  using next_step_cases [of g slat slon tlat tlon] in_map_clamp by (auto simp: best_neighbour_def free_def)

section \<open>Properties\<close>

text \<open>
  \<open>init_map_obstacles\<close> with \<open>is_obstacle\<close>: a cell is an obstacle exactly when it lies outside
  the 40 x 20 map or on the river (x = 20, y from 5 to 14) or one of the two buildings.
\<close>

theorem obstacle_map_closed_form:
  "is_obstacle init_map_obstacles x y = (if in_map x y \<and> \<not> wall x y then 0 else 1)"
  by (rule is_obstacle_init)

text \<open>
  C32: memory safety and soundness of the A* search: on any map, from a start and to a target
  inside it, the open list never exceeds its array of \<open>MAX_OPEN_NODES\<close> entries and every cell in the
  closed list is reached from the start by a path over free cells.
\<close>

theorem astar_search_sound:
  assumes "in_map sx sy" "in_map tx ty" "astar_search g sx sy tx ty = (rest, marked)"
  shows "length rest \<le> MAX_OPEN_NODES
    \<and> (\<forall>x y. in_map x y \<longrightarrow> get_cell marked y x \<noteq> 0 \<longrightarrow> (\<exists>n. free_path g sx sy n x y))"
  using astar_search_result [OF assms(1,2), of g] assms(3) by (simp add: search_result_def)

theorem astar_search_sound_witness:
  "\<exists>rest marked. astar_search zero_grid 0 0 0 0 = (rest, marked) \<and> length rest \<le> MAX_OPEN_NODES
    \<and> get_cell marked 0 0 = 1 \<and> (\<exists>n. free_path zero_grid 0 0 n 0 0)"
proof -
  have run: "astar_search zero_grid 0 0 0 0 = ([], set_cell 0 0 1 zero_grid)"
    by (simp add: astar_search_def max_steps_def astar_loop_numeral mk_node_def calculate_h_def remove_at_def
        del: astar_loop.simps)
  have cell: "get_cell (set_cell 0 0 1 zero_grid) 0 0 = 1" by (simp add: get_set_cell)
  from astar_search_sound [OF in_map_0 in_map_0 run] run cell show ?thesis
    by (intro exI [of _ "[]"] exI [of _ "set_cell 0 0 1 zero_grid"]) auto
qed

text \<open>
  C33: completeness of the A* search: when the open list runs empty before the target is closed, no
  path over free cells leads to the target.
\<close>

theorem astar_search_complete:
  assumes "in_map sx sy" "in_map tx ty" "astar_search g sx sy tx ty = ([], marked)"
    and "get_cell marked ty tx = 0"
  shows "\<not> free_path g sx sy n tx ty"
proof
  assume p: "free_path g sx sy n tx ty"
  have "frontier_complete g sx sy [] marked"
    using astar_search_result [OF assms(1,2), of g] assms(3,4) by (simp add: search_result_def)
  from frontier_closure [OF this assms(1) p] assms(4) show False by simp
qed

text \<open>A map on which every cell is a wall.\<close>

definition solid_grid :: grid where
  "solid_grid = replicate 20 (replicate 40 1)"

lemma solid_grid_cell: "is_obstacle solid_grid x y = 1"
  by (auto simp: solid_grid_def is_obstacle_def get_cell_def MAP_HEIGHT_def MAP_WIDTH_def)

lemma expand_solid: "expand solid_grid marked tx ty cur ds open_list = open_list"
  by (induction solid_grid marked tx ty cur ds open_list rule: expand.induct)
    (simp_all add: Let_def solid_grid_cell)

theorem astar_search_complete_witness:
  "astar_search solid_grid 0 0 1 1 = ([], set_cell 0 0 1 zero_grid) \<and> (\<nexists>n. free_path solid_grid 0 0 n 1 1)"
proof -
  have run: "astar_search solid_grid 0 0 1 1 = ([], set_cell 0 0 1 zero_grid)"
    by (simp add: astar_search_def max_steps_def astar_loop_numeral mk_node_def calculate_h_def
        remove_at_def expand_solid del: astar_loop.simps)
  have in11: "in_map 1 1" by (simp add: in_map_def MAP_WIDTH_def MAP_HEIGHT_def)
  then have "get_cell (set_cell 0 0 1 zero_grid) 1 1 = 0" by (simp add: get_set_cell zero_grid_cell)
  from astar_search_complete [OF in_map_0 in11 run this] run show ?thesis by blast
qed

text \<open>
  the answer of \<open>get_next_step_astar\<close>: at the target cell it stays; otherwise it stays when all
  four neighbours are blocked and else moves to a free neighbour inside the map that is at least as
  close to the target, in Manhattan distance, as every other free neighbour.
\<close>

theorem next_step_best_neighbour:
  fixes slat slon tlat tlon :: double
  defines "sx \<equiv> clamp MAP_WIDTH (to_cell BASE_LON slon)" and "sy \<equiv> clamp MAP_HEIGHT (to_cell BASE_LAT slat)"
    and "tx \<equiv> clamp MAP_WIDTH (to_cell BASE_LON tlon)" and "ty \<equiv> clamp MAP_HEIGHT (to_cell BASE_LAT tlat)"
  shows "get_next_step_astar g slat slon tlat tlon = \<lparr>p_x = sx, p_y = sy\<rparr> \<and> (sx = tx \<and> sy = ty \<or> blocked_in g sx sy)
    \<or> \<not> (sx = tx \<and> sy = ty) \<and> best_neighbour g sx sy tx ty (get_next_step_astar g slat slon tlat tlon)"
  unfolding sx_def sy_def tx_def ty_def by (rule next_step_cases)

text \<open>
  the search result is not used: the answer depends on the map only through the four neighbours
  of the start cell, so a wall one step further on cannot influence it.
\<close>

theorem next_step_ignores_search:
  assumes "\<forall>(dx, dy) \<in> set directions.
    let x = clamp MAP_WIDTH (to_cell BASE_LON slon) + dx; y = clamp MAP_HEIGHT (to_cell BASE_LAT slat) + dy
    in is_obstacle g x y = is_obstacle g' x y"
  shows "get_next_step_astar g slat slon tlat tlon = get_next_step_astar g' slat slon tlat tlon"
proof -
  have scan: "\<forall>(dx, dy) \<in> set ds. is_obstacle g (sx + dx) (sy + dy) = is_obstacle g' (sx + dx) (sy + dy) \<Longrightarrow>
      greedy_scan g sx sy tx ty ds m best = greedy_scan g' sx sy tx ty ds m best" for ds sx sy tx ty m best
    by (induction g sx sy tx ty ds m best rule: greedy_scan.induct) (simp_all add: Let_def)
  show ?thesis
    using assms by (simp add: get_next_step_astar_def Let_def greedy_step_def scan)
qed


theorem next_step_ignores_search_witness:
  "get_next_step_astar init_map_obstacles BASE_LAT BASE_LON (BASE_LAT + d_lit (1 / 100)) (BASE_LON + d_lit (1 / 100))
     = get_next_step_astar zero_grid BASE_LAT BASE_LON (BASE_LAT + d_lit (1 / 100)) (BASE_LON + d_lit (1 / 100))"
  by (rule next_step_ignores_search)
    (simp add: directions_def to_cell_base clamp_def is_obstacle_init is_obstacle_zero wall_def)

text \<open>
  the greedy choice livelocks at the river although a way around it exists: on the map of the
  program, with target (21, 10), it sends a driver from (19, 10) to (19, 9) and from (19, 9) back
  to (19, 10), while a path of 14 steps over free cells leads from (19, 10) to the target.
\<close>

theorem next_step_livelock:
  "greedy_step init_map_obstacles 19 10 21 10 = \<lparr>p_x = 19, p_y = 9\<rparr>
   \<and> greedy_step init_map_obstacles 19 9 21 10 = \<lparr>p_x = 19, p_y = 10\<rparr>
   \<and> free_path init_map_obstacles 19 10 14 21 10"
proof -
  let ?P = "free_path init_map_obstacles 19 10"
  have step: "?P n x y \<Longrightarrow> (dx, dy) \<in> set directions \<Longrightarrow> in_map x' y' \<and> \<not> wall x' y' \<Longrightarrow>
      x' = x + dx \<Longrightarrow> y' = y + dy \<Longrightarrow> n' = Suc n \<Longrightarrow> ?P n' x' y'" for n n' x y dx dy x' y'
    by (auto intro!: path_step simp: free_iff_obstacle is_obstacle_init)
  note ok = directions_def in_map_def MAP_WIDTH_def MAP_HEIGHT_def wall_def
  have up: "?P n 19 y \<Longrightarrow> 0 < y \<and> y < 11 \<Longrightarrow> n' = Suc n \<Longrightarrow> y' = y - 1 \<Longrightarrow> ?P n' 19 y'" for n n' y y'
    by (rule step [of n 19 y 0 "- 1"]) (auto simp: ok)
  have down: "?P n 21 y \<Longrightarrow> 0 < y \<and> y < 11 \<Longrightarrow> n' = Suc n \<Longrightarrow> y' = y + 1 \<Longrightarrow> ?P n' 21 y'" for n n' y y'
    by (rule step [of n 21 y 0 1]) (auto simp: ok)
  have p1: "?P 1 19 9" by (rule up [OF path_start]) simp_all
  have p2: "?P 2 19 8" by (rule up [OF p1]) simp_all
  have p3: "?P 3 19 7" by (rule up [OF p2]) simp_all
  have p4: "?P 4 19 6" by (rule up [OF p3]) simp_all
  have p5: "?P 5 19 5" by (rule up [OF p4]) simp_all
  have p6: "?P 6 19 4" by (rule up [OF p5]) simp_all
  have p7: "?P 7 20 4" by (rule step [OF p6, of 1 0]) (simp_all add: ok)
  have p8: "?P 8 21 4" by (rule step [OF p7, of 1 0]) (simp_all add: ok)
  have p9: "?P 9 21 5" by (rule down [OF p8]) simp_all
  have p10: "?P 10 21 6" by (rule down [OF p9]) simp_all
  have p11: "?P 11 21 7" by (rule down [OF p10]) simp_all
  have p12: "?P 12 21 8" by (rule down [OF p11]) simp_all
  have p13: "?P 13 21 9" by (rule down [OF p12]) simp_all
  have p14: "?P 14 21 10" by (rule down [OF p13]) simp_all
  have "greedy_step init_map_obstacles 19 10 21 10 = \<lparr>p_x = 19, p_y = 9\<rparr>"
    "greedy_step init_map_obstacles 19 9 21 10 = \<lparr>p_x = 19, p_y = 10\<rparr>"
    by (simp_all add: greedy_step_def directions_def greedy_scan_step free_iff_obstacle is_obstacle_init
        calculate_h_def in_map_def MAP_WIDTH_def MAP_HEIGHT_def wall_def del: greedy_scan.simps(2))
  with p14 show ?thesis by simp
qed

end
