(* ===== verification/Map_Monitor.thy ===== *)
theory Map_Monitor
  imports Ride_Service Pathfinding
begin

text \<open>
  src/server/map_monitor.c: one round of the map thread. The part under the mutex is a step on the
  shared state, composed of the phases of the loop body in their order: respawn, arrival and fuel
  use, fuel management, the failsafe, and the movement. The part after the mutex draws the frame; it
  only reads the state.
\<close>

section \<open>The phases of one driver\<close>

definition cell_x :: "Driver \<Rightarrow> int" where "cell_x d = to_cell BASE_LON (d_lon d)"
definition cell_y :: "Driver \<Rightarrow> int" where "cell_y d = to_cell BASE_LAT (d_lat d)"

definition respawn :: "grid \<Rightarrow> Driver \<Rightarrow> Driver" where
  "respawn g d =
     (let gy = cell_y d; gx = cell_x d in
      if is_obstacle g gx gy \<noteq> 0 \<or> gx < 0 \<or> MAP_WIDTH \<le> gx \<or> gy < 0 \<or> MAP_HEIGHT \<le> gy
      then d\<lparr>d_lat := BASE_LAT, d_lon := BASE_LON, has_target := False, is_available := True, is_refueling := False\<rparr>
      else d)"

definition arrive_at_target :: "Driver \<Rightarrow> Driver" where
  "arrive_at_target d =
     d\<lparr>has_target := False, is_available := True, is_refueling := False,
       d_lat := target_lat d, d_lon := target_lon d\<rparr>"

definition arrived_at :: "Driver \<Rightarrow> rng \<Rightarrow> bool \<times> rng" where
  "arrived_at d r =
     (let away = d_sqrt (d_pow2 (d_lat d - target_lat d) + d_pow2 (d_lon d - target_lon d))
      in if away < d_lit (1 / 100) then (True, r)
         else let (v, r) = rand_mod 100 r in (v < 20, r))"

definition use_fuel :: "Driver \<Rightarrow> rng \<Rightarrow> Driver \<times> rng" where
  "use_fuel d r =
     (if 0 < fuel d then let (v, r) = rand_mod 100 r in (if v < 10 then d\<lparr>fuel := fuel d - 1\<rparr> else d, r)
      else (d, r))"

definition navigate :: "Driver \<Rightarrow> rng \<Rightarrow> Driver \<times> rng" where
  "navigate d r =
     (if has_target d then
        let (arrived, r) = arrived_at d r
        in use_fuel (if arrived then arrive_at_target d else d) r
      else (d, r))"

definition run_empty :: "Driver \<Rightarrow> Driver" where
  "run_empty d =
     (if is_available d \<and> fuel d \<le> 0 \<and> \<not> is_refueling d
      then d\<lparr>is_refueling := True, is_available := False, has_target := False\<rparr> else d)"

definition pump :: "Driver \<Rightarrow> Driver" where
  "pump d =
     (if is_refueling d then
        if fuel d < 10 then d\<lparr>fuel := fuel d + 2\<rparr>
        else d\<lparr>is_refueling := False, is_available := True\<rparr>
      else d)"

definition failsafe :: "Driver \<Rightarrow> Driver" where
  "failsafe d =
     (if \<not> is_available d \<and> \<not> is_refueling d \<and> \<not> has_target d then d\<lparr>is_available := True\<rparr> else d)"

definition cell_coord :: "double \<Rightarrow> int \<Rightarrow> double" where
  "cell_coord base n = base + d_of_int n / d_of_int SCALE_FACTOR"

definition drive :: "grid \<Rightarrow> int \<Rightarrow> int \<Rightarrow> Driver \<Rightarrow> Driver" where
  "drive g gx gy d =
     (let step = get_next_step_astar g (d_lat d) (d_lon d) (target_lat d) (target_lon d)
      in if p_x step = gx \<and> p_y step = gy then d\<lparr>has_target := False, is_available := True\<rparr>
         else d\<lparr>d_lat := cell_coord BASE_LAT (p_y step), d_lon := cell_coord BASE_LON (p_x step)\<rparr>)"

definition wander_coord :: "double \<Rightarrow> int \<Rightarrow> double" where
  "wander_coord v r = v + d_of_int (r - 1) * d_lit (5 / 10000)"

definition wander :: "grid \<Rightarrow> Driver \<Rightarrow> rng \<Rightarrow> Driver \<times> rng" where
  "wander g d r =
     (let (a, r) = rand_mod 3 r;
          (b, r) = rand_mod 3 r;
          d' = d\<lparr>d_lat := wander_coord (d_lat d) a, d_lon := wander_coord (d_lon d) b\<rparr>
      in (if is_obstacle g (cell_x d') (cell_y d') \<noteq> 0 then d else d', r))"

definition move :: "grid \<Rightarrow> int \<Rightarrow> int \<Rightarrow> Driver \<Rightarrow> rng \<Rightarrow> Driver \<times> rng" where
  "move g gx gy d r =
     (if has_target d \<and> \<not> is_refueling d then (drive g gx gy d, r)
      else if is_available d \<or> is_refueling d then wander g d r
      else (d, r))"

definition tick_driver :: "grid \<Rightarrow> Driver \<Rightarrow> rng \<Rightarrow> Driver \<times> rng" where
  "tick_driver g d r =
     (let gy = cell_y d; gx = cell_x d;
          (d, r) = navigate (respawn g d) r
      in move g gx gy (failsafe (pump (run_empty d))) r)"

fun tick_list :: "grid \<Rightarrow> Driver list \<Rightarrow> rng \<Rightarrow> Driver list \<times> rng" where
  "tick_list g [] r = ([], r)"
| "tick_list g (d # ds) r =
     (let (d, r) = tick_driver g d r; (ds, r) = tick_list g ds r in (d # ds, r))"

definition map_tick :: "rng \<Rightarrow> SharedState \<Rightarrow> rng \<times> SharedState" where
  "map_tick r s =
     (let (ds, r) = tick_list init_map_obstacles (active_drivers s) r
      in (r, s\<lparr>drivers := ds @ drop (nat (driver_count s)) (drivers s)\<rparr>))"

section \<open>Positions\<close>

lemma to_cell_near:
  "0 \<le> to_cell BASE_LAT v \<Longrightarrow> to_cell BASE_LAT v < MAP_HEIGHT \<Longrightarrow> \<bar>rat_of v\<bar> \<le> 1000"
  "0 \<le> to_cell BASE_LON v \<Longrightarrow> to_cell BASE_LON v < MAP_WIDTH \<Longrightarrow> \<bar>rat_of v\<bar> \<le> 1000"
proof -
  have hi: "MAP_HEIGHT \<le> to_cell BASE_LAT (Dbl 1000)" "MAP_WIDTH \<le> to_cell BASE_LON (Dbl 1000)"
    by (simp_all add: to_cell_def BASE_LAT_def BASE_LON_def SCALE_FACTOR_def MAP_HEIGHT_def MAP_WIDTH_def
        d_trunc_def double_eval)
  have lo: "to_cell BASE_LAT (Dbl (- 1000)) < 0" "to_cell BASE_LON (Dbl (- 1000)) < 0"
    by (simp_all add: to_cell_def BASE_LAT_def BASE_LON_def SCALE_FACTOR_def d_trunc_def double_eval)
  have bound: "\<bar>rat_of v\<bar> \<le> 1000"
    if "0 \<le> to_cell base v" "to_cell base v < m" "m \<le> to_cell base (Dbl 1000)" "to_cell base (Dbl (- 1000)) < 0"
    for base m
  proof (rule ccontr)
    assume "\<not> \<bar>rat_of v\<bar> \<le> 1000"
    then have "Dbl 1000 \<le> v \<or> v \<le> Dbl (- 1000)" by (auto simp: less_eq_double_def)
    then show False using to_cell_mono [of "Dbl 1000" v base] to_cell_mono [of v "Dbl (- 1000)" base] that by auto
  qed
  show "0 \<le> to_cell BASE_LAT v \<Longrightarrow> to_cell BASE_LAT v < MAP_HEIGHT \<Longrightarrow> \<bar>rat_of v\<bar> \<le> 1000"
    by (rule bound [OF _ _ hi(1) lo(1)])
  show "0 \<le> to_cell BASE_LON v \<Longrightarrow> to_cell BASE_LON v < MAP_WIDTH \<Longrightarrow> \<bar>rat_of v\<bar> \<le> 1000"
    by (rule bound [OF _ _ hi(2) lo(2)])
qed

definition placed :: "Driver \<Rightarrow> bool" where
  "placed d \<longleftrightarrow> in_map (cell_x d) (cell_y d)"

lemma placed_near: "placed d \<Longrightarrow> near d"
  using to_cell_near by (simp add: placed_def near_def in_map_def cell_x_def cell_y_def)

text \<open>The coordinates of a cell of the map read back as a cell of the map.\<close>

lemma cell_coord_in_map:
  assumes "in_map x y"
  shows "in_map (to_cell BASE_LON (cell_coord BASE_LON x)) (to_cell BASE_LAT (cell_coord BASE_LAT y))"
proof -
  have mono: "a \<le> b \<Longrightarrow> to_cell base (cell_coord base a) \<le> to_cell base (cell_coord base b)" for base a b
    by (intro to_cell_mono)
      (auto simp: cell_coord_def less_eq_double_def SCALE_FACTOR_def intro!: rnd_mono add_left_mono
        divide_right_mono rnd_nonneg)
  have "cell_coord BASE_LAT 0 = BASE_LAT" "cell_coord BASE_LON 0 = BASE_LON"
    by (simp_all add: cell_coord_def d_of_int_def plus_double_def divide_double_def BASE_LAT_def BASE_LON_def d_lit_def)
  then have lo: "to_cell BASE_LAT (cell_coord BASE_LAT 0) = 0" "to_cell BASE_LON (cell_coord BASE_LON 0) = 0"
    by simp_all
  have "to_cell BASE_LAT (cell_coord BASE_LAT 19) < MAP_HEIGHT"
    by (simp add: to_cell_def cell_coord_def BASE_LAT_def SCALE_FACTOR_def d_trunc_def MAP_HEIGHT_def double_eval)
  moreover have "to_cell BASE_LON (cell_coord BASE_LON 39) < MAP_WIDTH"
    by (simp add: to_cell_def cell_coord_def BASE_LON_def SCALE_FACTOR_def d_trunc_def MAP_WIDTH_def double_eval)
  moreover have "x \<le> 39" "y \<le> 19" "0 \<le> x" "0 \<le> y"
    using assms by (auto simp: in_map_def MAP_WIDTH_def MAP_HEIGHT_def)
  ultimately show ?thesis
    using mono [of 0 y BASE_LAT] mono [of y 19 BASE_LAT] mono [of 0 x BASE_LON] mono [of x 39 BASE_LON] lo
    by (simp add: in_map_def)
qed

section \<open>Every phase keeps the contract\<close>

text \<open>A phase keeps the contract, keeps the driver on the map and creates no target.\<close>

definition phase_ok :: "Driver \<Rightarrow> Driver \<Rightarrow> bool" where
  "phase_ok d d' \<longleftrightarrow> driver_ok d' \<and> placed d' \<and> (has_target d' \<longrightarrow> has_target d)"

lemma phase_ok_trans: "phase_ok d d' \<Longrightarrow> phase_ok d' d'' \<Longrightarrow> phase_ok d d''"
  by (simp add: phase_ok_def)

lemma phase_ok_refl: "driver_ok d \<Longrightarrow> placed d \<Longrightarrow> phase_ok d d"
  by (simp add: phase_ok_def)

lemmas phase_simps = phase_ok_def driver_ok_def one_status_def near_def target_on_map_def placed_def cell_x_def cell_y_def

lemma respawn_phase [driver_inv]: "driver_ok d \<Longrightarrow> phase_ok d (respawn g d)"
  using base_bounds by (auto simp: respawn_def Let_def phase_simps in_map_def MAP_WIDTH_def MAP_HEIGHT_def)

lemma arrive_phase:
  assumes "driver_ok d" "has_target d"
  shows "phase_ok d (arrive_at_target d)"
proof -
  have "placed (arrive_at_target d)"
    using assms by (simp add: arrive_at_target_def driver_ok_def target_on_map_def placed_def cell_x_def cell_y_def)
  moreover from this have "near (arrive_at_target d)" by (rule placed_near)
  ultimately show ?thesis
    using assms by (auto simp: phase_ok_def driver_ok_def one_status_def arrive_at_target_def)
qed

lemma use_fuel_phase: "driver_ok d \<Longrightarrow> placed d \<Longrightarrow> \<not> is_refueling d \<Longrightarrow> phase_ok d (fst (use_fuel d r))"
  by (auto simp: use_fuel_def split_beta Let_def phase_simps)

lemma navigate_phase [driver_inv]:
  assumes "driver_ok d" "placed d"
  shows "phase_ok d (fst (navigate d r))"
proof (cases "has_target d")
  case True
  obtain a r' where a: "arrived_at d r = (a, r')" by (cases "arrived_at d r")
  let ?d = "if a then arrive_at_target d else d"
  have p: "phase_ok d ?d" using assms True arrive_phase phase_ok_refl by simp
  moreover have "\<not> is_refueling ?d" using assms(1) True by (auto simp: arrive_at_target_def driver_ok_def one_status_def)
  ultimately have "phase_ok ?d (fst (use_fuel ?d r'))" by (intro use_fuel_phase) (auto simp: phase_ok_def)
  with p have "phase_ok d (fst (use_fuel ?d r'))" by (rule phase_ok_trans)
  then show ?thesis using True by (simp add: navigate_def a)
qed (use assms in \<open>simp add: navigate_def phase_ok_def\<close>)

lemma fuel_phases [driver_inv]:
  "driver_ok d \<Longrightarrow> placed d \<Longrightarrow> phase_ok d (run_empty d)"
  "driver_ok d \<Longrightarrow> placed d \<Longrightarrow> phase_ok d (failsafe d)"
  by (auto simp: run_empty_def failsafe_def phase_simps)

lemma pump_phase [driver_inv]: "driver_ok d \<Longrightarrow> placed d \<Longrightarrow> phase_ok d (pump d)"
proof -
  assume ok: "driver_ok d" "placed d"
  then have "is_refueling d \<Longrightarrow> fuel d < 10 \<Longrightarrow> fuel d + 2 \<le> 10" by (clarsimp simp: driver_ok_def) presburger
  with ok show ?thesis by (auto simp: pump_def phase_simps)
qed

lemma drive_phase: "driver_ok d \<Longrightarrow> placed d \<Longrightarrow> has_target d \<Longrightarrow> phase_ok d (drive g gx gy d)"
proof -
  assume ok: "driver_ok d" "placed d" "has_target d"
  let ?p = "get_next_step_astar g (d_lat d) (d_lon d) (target_lat d) (target_lon d)"
  let ?d = "d\<lparr>d_lat := cell_coord BASE_LAT (p_y ?p), d_lon := cell_coord BASE_LON (p_x ?p)\<rparr>"
  have "placed ?d" using cell_coord_in_map [OF next_step_in_map] by (simp add: placed_def cell_x_def cell_y_def)
  moreover from this have "near ?d" by (rule placed_near)
  ultimately have "phase_ok d ?d"
    using ok by (auto simp: phase_ok_def driver_ok_def one_status_def target_on_map_def)
  moreover have "phase_ok d (d\<lparr>has_target := False, is_available := True\<rparr>)"
    using ok by (auto simp: phase_simps)
  ultimately show ?thesis by (simp add: drive_def Let_def)
qed

lemma wander_phase: "driver_ok d \<Longrightarrow> placed d \<Longrightarrow> phase_ok d (fst (wander g d r))"
proof -
  assume ok: "driver_ok d" "placed d"
  let ?d = "\<lambda>a b. d\<lparr>d_lat := wander_coord (d_lat d) a, d_lon := wander_coord (d_lon d) b\<rparr>"
  have "phase_ok d (if is_obstacle g (cell_x (?d a b)) (cell_y (?d a b)) \<noteq> 0 then d else ?d a b)" for a b
  proof (cases "is_obstacle g (cell_x (?d a b)) (cell_y (?d a b)) \<noteq> 0")
    case False
    then have "placed (?d a b)" by (auto simp: placed_def is_obstacle_def in_map_def split: if_splits)
    moreover from this have "near (?d a b)" by (rule placed_near)
    ultimately show ?thesis using False ok by (auto simp: phase_ok_def driver_ok_def one_status_def target_on_map_def)
  qed (use ok in \<open>simp add: phase_ok_refl\<close>)
  then show ?thesis by (simp add: wander_def split_beta Let_def)
qed

lemma move_phase [driver_inv]: "driver_ok d \<Longrightarrow> placed d \<Longrightarrow> phase_ok d (fst (move g gx gy d r))"
  using drive_phase wander_phase phase_ok_refl by (simp add: move_def)

lemma tick_phase:
  assumes "driver_ok d"
  shows "phase_ok d (fst (tick_driver g d r))"
proof -
  let ?n = "navigate (respawn g d) r"
  have 1: "phase_ok d (respawn g d)" using assms by (rule driver_inv)
  have 2: "phase_ok d (fst ?n)"
    using 1 by (intro phase_ok_trans [OF 1] driver_inv) (simp_all add: phase_ok_def)
  have 3: "phase_ok d (run_empty (fst ?n))"
    using 2 by (intro phase_ok_trans [OF 2] driver_inv) (simp_all add: phase_ok_def)
  have 4: "phase_ok d (pump (run_empty (fst ?n)))"
    using 3 by (intro phase_ok_trans [OF 3] driver_inv) (simp_all add: phase_ok_def)
  have 5: "phase_ok d (failsafe (pump (run_empty (fst ?n))))"
    using 4 by (intro phase_ok_trans [OF 4] driver_inv) (simp_all add: phase_ok_def)
  have "phase_ok d (fst (move g (cell_x d) (cell_y d) (failsafe (pump (run_empty (fst ?n)))) (snd ?n)))"
    using 5 by (intro phase_ok_trans [OF 5] driver_inv) (simp_all add: phase_ok_def)
  then show ?thesis by (simp add: tick_driver_def split_beta Let_def)
qed

lemma phase_status_step: "driver_ok d \<Longrightarrow> phase_ok d d' \<Longrightarrow> status_step (status_of d) (status_of d')"
proof -
  assume a: "driver_ok d" "phase_ok d d'"
  then have "driver_ok d'" "has_target d' \<Longrightarrow> has_target d" by (simp_all add: phase_ok_def)
  then have "status_of d' \<noteq> Busy" "status_of d \<noteq> Busy" "status_of d' = Navigating \<Longrightarrow> status_of d = Navigating"
    using a(1) by (simp_all add: driver_ok_not_busy driver_ok_status(3))
  then show ?thesis by (cases "status_of d"; cases "status_of d'") simp_all
qed

interpretation tick: driver_contract "\<lambda>_. True" "\<lambda>d. fst (tick_driver g d r)" for g r
proof
  fix d assume d: "driver_ok d"
  from tick_phase [OF d, of g r] show "driver_ok (fst (tick_driver g d r))" by (simp add: phase_ok_def)
  from phase_status_step [OF d tick_phase [OF d]]
  show "status_step (status_of d) (status_of (fst (tick_driver g d r)))" .
qed


section \<open>A round over the fleet\<close>

lemma tick_list_phases:
  "\<forall>d \<in> set ds. driver_ok d \<Longrightarrow> list_all2 phase_ok ds (fst (tick_list g ds r))"
proof (induction g ds r rule: tick_list.induct)
  case (2 g d ds r)
  obtain d' r' where t: "tick_driver g d r = (d', r')" by (cases "tick_driver g d r")
  obtain ds' r'' where l: "tick_list g ds r' = (ds', r'')" by (cases "tick_list g ds r'")
  have "phase_ok d d'" using tick_phase [of d g r] "2.prems" t by simp
  moreover have "list_all2 phase_ok ds ds'" using "2.IH" [OF t [symmetric]] "2.prems" l by simp
  ultimately show ?case by (simp add: t l)
qed simp

lemma map_tick_drivers:
  assumes "wf_state s" "map_tick r s = (r', s')"
  obtains ds where "s' = s\<lparr>drivers := ds @ drop (nat (driver_count s)) (drivers s)\<rparr>"
    "ds = fst (tick_list init_map_obstacles (active_drivers s) r)"
    "length ds = length (active_drivers s)" "active_drivers s' = ds"
proof -
  let ?ds = "fst (tick_list init_map_obstacles (active_drivers s) r)"
  have len: "length (fst (tick_list g ds r)) = length ds" for g ds r
    by (induction ds arbitrary: r) (simp_all add: split_beta Let_def)
  have s': "s' = s\<lparr>drivers := ?ds @ drop (nat (driver_count s)) (drivers s)\<rparr>"
    using assms(2) by (simp add: map_tick_def split_beta Let_def)
  have "active_drivers s' = ?ds"
    using length_active_drivers [OF assms(1)] len by (simp add: s' active_drivers_def)
  then show thesis using that s' len by blast
qed

lemma map_tick_ok:
  assumes "state_ok s" "map_tick r s = (r', s')"
  shows "state_ok s'" "list_all2 phase_ok (active_drivers s) (active_drivers s')"
proof -
  note ok = state_okD [OF assms(1)]
  obtain ds where ds: "s' = s\<lparr>drivers := ds @ drop (nat (driver_count s)) (drivers s)\<rparr>"
    "ds = fst (tick_list init_map_obstacles (active_drivers s) r)"
    "length ds = length (active_drivers s)" "active_drivers s' = ds"
    by (rule map_tick_drivers [OF ok(1) assms(2)])
  show all: "list_all2 phase_ok (active_drivers s) (active_drivers s')"
    unfolding ds(2,4) using tick_list_phases [OF ok(3)] by simp
  have "\<forall>d \<in> set (active_drivers s'). driver_ok d"
    using all by (auto simp: list_all2_conv_all_nth in_set_conv_nth phase_ok_def)
  moreover have "length ds = nat (driver_count s)" using ds(3) length_active_drivers [OF ok(1)] by simp
  ultimately show "state_ok s'"
    using ok(1,2,4,5) unfolding state_ok_def ds(4) by (auto simp: ds(1) wf_state_def)
qed

section \<open>Progress of refueling\<close>

lemma wander_frame:
  "fuel (fst (wander g d r)) = fuel d" "is_refueling (fst (wander g d r)) = is_refueling d"
  "is_available (fst (wander g d r)) = is_available d" "has_target (fst (wander g d r)) = has_target d"
  by (simp_all add: wander_def split_beta Let_def)

lemma move_frame: "\<not> has_target d \<Longrightarrow> fst (move g gx gy d r) = (if is_available d \<or> is_refueling d then fst (wander g d r) else d)"
  by (simp add: move_def)

lemma refuel_tick:
  fixes g r
  assumes "driver_ok d" "is_refueling d"
  defines "d' \<equiv> fst (tick_driver g d r)"
  shows "is_available d' \<or> is_refueling d' \<and> fuel d' = fuel d + 2"
proof -
  have nav: "navigate (respawn g d) r = (respawn g d, r)"
    using assms(1,2) by (auto simp: navigate_def respawn_def Let_def driver_ok_def one_status_def)
  let ?f = "failsafe (pump (run_empty (respawn g d)))"
  have f: "\<not> has_target ?f" "is_available ?f \<or> is_refueling ?f \<and> fuel ?f = fuel d + 2"
    using assms(1,2)
    by (auto simp: respawn_def run_empty_def pump_def failsafe_def Let_def driver_ok_def one_status_def)
  have "d' = fst (move g (cell_x d) (cell_y d) ?f r)"
    by (simp add: d'_def tick_driver_def nav Let_def)
  then show ?thesis using f move_frame [OF f(1), of g "cell_x d" "cell_y d" r] wander_frame [of g ?f r] by auto
qed

fun ticks :: "grid \<Rightarrow> rng list \<Rightarrow> Driver \<Rightarrow> Driver" where
  "ticks g [] d = d"
| "ticks g (r # rs) d = ticks g rs (fst (tick_driver g d r))"

lemma refuel_finishes:
  "driver_ok d \<Longrightarrow> is_refueling d \<Longrightarrow> 10 - fuel d < 2 * int (length rs) \<Longrightarrow>
     \<exists>k \<le> length rs. status_of (ticks g (take k rs) d) = Available"
proof (induction rs arbitrary: d)
  case (Cons r rs)
  let ?d = "fst (tick_driver g d r)"
  have ok: "driver_ok ?d" using tick.keeps [OF Cons.prems(1)] by simp
  show ?case
  proof (cases "is_available ?d")
    case True
    then have "status_of (ticks g (take 1 (r # rs)) d) = Available"
      using driver_ok_status(1) [OF ok] by simp
    then show ?thesis by (intro exI [of _ 1]) simp
  next
    case False
    with refuel_tick [OF Cons.prems(1,2), of g r] have "is_refueling ?d" "fuel ?d = fuel d + 2" by auto
    with Cons.IH [OF ok] Cons.prems(3) obtain k where "k \<le> length rs" "status_of (ticks g (take k rs) ?d) = Available"
      by auto
    then show ?thesis by (intro exI [of _ "Suc k"]) simp
  qed
next
  case Nil
  then show ?case by (simp add: driver_ok_def)
qed

section \<open>The frozen driver\<close>

lemma cell_3: "to_cell BASE_LON (cell_coord BASE_LON 3) = 2"
  by (simp add: to_cell_def cell_coord_def BASE_LON_def SCALE_FACTOR_def d_trunc_def double_eval)

definition frozen :: "Driver \<Rightarrow> bool" where
  "frozen d \<longleftrightarrow> d_lat d = BASE_LAT \<and> d_lon d = cell_coord BASE_LON 3 \<and> target_lat d = BASE_LAT
     \<and> target_lon d = target_coord BASE_LON 179 \<and> has_target d \<and> \<not> is_refueling d \<and> \<not> is_available d"

lemma frozen_cell: "frozen d \<Longrightarrow> cell_x d = 2 \<and> cell_y d = 0"
  by (simp add: frozen_def cell_x_def cell_y_def cell_3)

lemma frozen_step:
  "get_next_step_astar init_map_obstacles BASE_LAT (cell_coord BASE_LON 3) BASE_LAT (target_coord BASE_LON 179)
     = \<lparr>p_x = 3, p_y = 0\<rparr>"
  by (simp add: get_next_step_astar_def cell_3 target_coord_ends clamp_def MAP_WIDTH_def MAP_HEIGHT_def
      greedy_step_def directions_def greedy_scan_step free_iff_obstacle is_obstacle_init calculate_h_def
      in_map_def wall_def del: greedy_scan.simps(2))

lemma frozen_drive:
  assumes "frozen d" shows "drive init_map_obstacles 2 0 d = d"
proof -
  have "cell_coord BASE_LAT 0 = BASE_LAT"
    by (simp add: cell_coord_def d_of_int_def plus_double_def divide_double_def BASE_LAT_def d_lit_def)
  then show ?thesis using assms by (simp add: drive_def frozen_def frozen_step)
qed

lemma frozen_far: "frozen d \<Longrightarrow> arrived_at d r = (fst (rand_mod 100 r) < 20, snd (rand_mod 100 r))"
proof -
  assume f: "frozen d"
  let ?x = "rat_of BASE_LAT - rat_of BASE_LAT"
    and ?y = "rat_of (cell_coord BASE_LON 3) - rat_of (target_coord BASE_LON 179)"
  have y: "?y \<le> - (16 / 1000)"
    by (simp add: cell_coord_def target_coord_def BASE_LON_def SCALE_FACTOR_def double_eval)
  then have "(16 / 1000) * (16 / 1000) \<le> (- ?y) * (- ?y)" by (intro mult_mono) auto
  then have "(16 / 1000) * (16 / 1000) \<le> ?x * ?x + ?y * ?y"
    unfolding minus_mult_minus diff_self by (simp only: mult_zero_left add_0)
  from distance_error(2) [OF _ this]
  have "16 / 1000 * (1 - half_ulp) ^ 2 * (1 - 1 / 2 ^ 52)
      \<le> rat_of (calculate_distance BASE_LAT (cell_coord BASE_LON 3) BASE_LAT (target_coord BASE_LON 179))" by simp
  moreover have "rat_of (d_lit (1 / 100)) < 16 / 1000 * (1 - half_ulp) ^ 2 * (1 - 1 / 2 ^ 52)"
    by (simp add: half_ulp_def power2_eq_square double_eval)
  ultimately have "\<not> calculate_distance BASE_LAT (cell_coord BASE_LON 3) BASE_LAT (target_coord BASE_LON 179) < d_lit (1 / 100)"
    unfolding less_double_def by linarith
  then show ?thesis
    using f by (simp add: arrived_at_def frozen_def calculate_distance_def split_beta Let_def)
qed

lemma frozen_respawn: "frozen d \<Longrightarrow> respawn init_map_obstacles d = d"
  using frozen_cell [of d]
  by (simp add: respawn_def is_obstacle_init in_map_def wall_def MAP_WIDTH_def MAP_HEIGHT_def)

lemma frozen_tick:
  assumes "frozen d" "20 \<le> fst (rand_mod 100 r)"
  shows "frozen (fst (tick_driver init_map_obstacles d r))"
proof -
  let ?u = "fst (use_fuel d (snd (rand_mod 100 r)))"
  have u: "frozen ?u" using assms(1) by (simp add: use_fuel_def split_beta Let_def frozen_def)
  have "fst (navigate d r) = ?u"
    using assms by (simp add: navigate_def frozen_far) (simp add: frozen_def)
  moreover have "failsafe (pump (run_empty ?u)) = ?u"
    using u by (simp add: failsafe_def pump_def run_empty_def frozen_def)
  moreover have "fst (move init_map_obstacles 2 0 ?u q) = ?u" for q
    using u frozen_drive [OF u] by (simp add: move_def frozen_def)
  ultimately show ?thesis
    using u frozen_cell [OF assms(1)] frozen_respawn [OF assms(1)]
    by (simp add: tick_driver_def split_beta Let_def)
qed


section \<open>Properties\<close>

text \<open>
  a round of the map thread preserves the invariant of the shared state and touches neither the
  counters nor the revenue nor the tables of the rate limiter.
\<close>

theorem map_tick_preserves:
  assumes "state_ok s" "map_tick r s = (r', s')"
  shows "state_ok s' \<and> driver_count s' = driver_count s \<and> total_requests_handled s' = total_requests_handled s
    \<and> total_success_requests s' = total_success_requests s \<and> total_revenue s' = total_revenue s
    \<and> client_last_seen s' = client_last_seen s \<and> client_req_count s' = client_req_count s"
  using map_tick_ok(1) [OF assms] assms(2) by (auto simp: map_tick_def split_beta Let_def)

definition demo_state :: SharedState where
  "demo_state = two_drivers\<lparr>drivers := take 2 (drivers two_drivers) @ replicate 254 zero_driver\<rparr>"

lemma demo_state_ok: "state_ok demo_state"
  unfolding demo_state_def by (rule two_drivers_ok)

theorem map_tick_preserves_witness:
  "state_ok (snd (map_tick (sconst 0) demo_state))"
  using map_tick_preserves [OF demo_state_ok, of "sconst 0" "fst (map_tick (sconst 0) demo_state)"
      "snd (map_tick (sconst 0) demo_state)"] by simp

text \<open>
  C29: after a round every active driver stands on a cell of the 40 x 20 map, whatever its position
  before: the respawn, the jump to the target, the step and the random walk all end on the map.
\<close>

theorem map_tick_on_map:
  assumes "state_ok s" "map_tick r s = (r', s')"
  shows "\<forall>d \<in> set (active_drivers s'). in_map (cell_x d) (cell_y d)"
  using map_tick_ok(2) [OF assms]
  by (auto simp: list_all2_conv_all_nth in_set_conv_nth phase_ok_def placed_def)

theorem map_tick_on_map_witness:
  "list_all (\<lambda>d. in_map (cell_x d) (cell_y d)) (active_drivers (snd (map_tick (sconst 0) demo_state)))"
  unfolding list_all_iff
  by (rule map_tick_on_map [OF demo_state_ok, of "sconst 0" "fst (map_tick (sconst 0) demo_state)"]) simp



text \<open>
  C30: refueling ends: whatever the random draws, a refueling driver is available again after at most
  six rounds.
\<close>

theorem refueling_ends:
  assumes "driver_ok d" "status_of d = Refueling" "length rs = 6"
  shows "\<exists>k \<le> 6. status_of (ticks g (take k rs) d) = Available"
proof -
  have "0 \<le> fuel d" using assms(1) by (simp add: driver_ok_def)
  then show ?thesis
    using refuel_finishes [OF assms(1), of rs g] assms driver_ok_status(2) [OF assms(1)] by simp
qed

theorem refueling_ends_witness:
  "\<exists>k \<le> 6. status_of (ticks init_map_obstacles (take k (replicate 6 (sconst 0)))
     (zero_driver\<lparr>is_refueling := True\<rparr>)) = Available"
  by (rule refueling_ends)
    (simp_all add: driver_ok_def one_status_def near_def status_of_def zero_driver_def)

text \<open>
  rounding freezes the navigation: a driver that has been moved to column 3 of row 0 has the
  coordinate 121.5654 + 3 / 2000, which reads back as column 2, so with its target in column 35 the
  next step is column 3 again. As long as the 20 percent draw does not end the trip the driver stays
  where it is, round after round, and the stuck test does not notice.
\<close>

theorem navigation_freezes:
  assumes "frozen d" "20 \<le> fst (rand_mod 100 r)"
  shows "frozen (fst (tick_driver init_map_obstacles d r))
    \<and> get_next_step_astar init_map_obstacles (d_lat d) (d_lon d) (target_lat d) (target_lon d) = \<lparr>p_x = 3, p_y = 0\<rparr>
    \<and> cell_x d = 2 \<and> cell_y d = 0"
  using frozen_tick [OF assms] frozen_step frozen_cell [OF assms(1)] assms(1) by (simp add: frozen_def)

theorem navigation_freezes_witness:
  "frozen (fst (tick_driver init_map_obstacles
     (zero_driver\<lparr>d_lat := BASE_LAT, d_lon := cell_coord BASE_LON 3, has_target := True,
        target_lat := BASE_LAT, target_lon := target_coord BASE_LON 179, fuel := 5\<rparr>) (sconst 50)))"
  using navigation_freezes [of "zero_driver\<lparr>d_lat := BASE_LAT, d_lon := cell_coord BASE_LON 3, has_target := True,
        target_lat := BASE_LAT, target_lon := target_coord BASE_LON 179, fuel := 5\<rparr>" "sconst 50"]
  by (simp add: frozen_def zero_driver_def rand_mod_def c_rand_def)

end
