(* ===== verification/Worker_Pool.thy ===== *)
theory Worker_Pool
  imports Sessions Map_Monitor
begin

text \<open>
  The processes of the server: the coordinator forks \<open>WORKER_COUNT\<close> workers that all run
  \<open>dispatcher_loop\<close> (src/server/dispatcher.c) on one listening socket, starts the map thread and waits
  for its children (\<open>start_coordinator_process\<close>, src/server/coordinator.c). A worker is the state of
  its copy of \<open>rand\<close>, or \<open>None\<close> once it has died: nothing ever starts a new one. The critical sections of
  the processes are interleaved as steps on the shared state.
\<close>

section \<open>The loop of a worker\<close>

text \<open>
  What the next \<open>accept\<close> calls return: \<open>None\<close> for an error, or a connection with the time it is served
  at and what the other processes do to the shared state meanwhile.
\<close>

type_synonym accepted = "((SharedState \<Rightarrow> SharedState) \<times> int \<times> Conn) option"

fun dispatcher_loop :: "accepted list \<Rightarrow> Worker \<Rightarrow> outcome \<times> Worker" where
  "dispatcher_loop [] w = (Returned, w)"
| "dispatcher_loop (None # as) w = dispatcher_loop as w"
| "dispatcher_loop (Some (env, now, c) # as) w =
     (case handle_client env now c w of
        (Returned, _, w) \<Rightarrow> dispatcher_loop as w
      | (Crashed, _, w) \<Rightarrow> (Crashed, w))"

section \<open>The coordinator\<close>

definition WORKER_COUNT :: nat where "WORKER_COUNT = 100"

record Pool =
  pool_shared :: SharedState
  workers :: "rng option list"
  monitor :: rng
  data_file :: save_file
  g_running :: bool
  waiting :: bool

text \<open>
  \<open>waiting\<close> says that the coordinator is in its loop of \<open>wait()\<close>. \<open>g_running\<close> is its global, which the map thread
  reads too; a worker has a copy of its own and does not look at it.
\<close>

text \<open>
  The fork loop. A child gets a copy of the parent's \<open>rand\<close> state; the parent exits at the first
  \<open>fork\<close> that fails.
\<close>

fun fork_workers :: "bool list \<Rightarrow> rng \<Rightarrow> rng option list option" where
  "fork_workers [] r = Some []"
| "fork_workers (ok # oks) r = (if ok then map_option (\<lambda>ws. Some r # ws) (fork_workers oks r) else None)"

text \<open>The map thread seeds \<open>rand\<close> of the parent process again, after the forks.\<close>

definition start_coordinator_process :: "bool list \<Rightarrow> rng \<Rightarrow> rng \<Rightarrow> save_file \<Rightarrow> SharedState \<Rightarrow> Pool option" where
  "start_coordinator_process forks r seeded f s =
     (case fork_workers (take WORKER_COUNT forks) r of
        None \<Rightarrow> None
      | Some ws \<Rightarrow> Some \<lparr>pool_shared = s, workers = ws, monitor = seeded, data_file = f, g_running = True, waiting = True\<rparr>)"

text \<open>The handler of SIGINT: the workers are terminated, the state is saved, the process exits.\<close>

definition handle_sigint :: "write_result \<Rightarrow> Pool \<Rightarrow> Pool" where
  "handle_sigint wr p =
     p\<lparr>g_running := False, waiting := False, workers := map (\<lambda>_. None) (workers p), data_file := save_state wr (pool_shared p) (data_file p)\<rparr>"

definition serve :: "nat \<Rightarrow> rng \<Rightarrow> accepted \<Rightarrow> Pool \<Rightarrow> Pool" where
  "serve i r a p =
     (let (res, w) = dispatcher_loop [a] \<lparr>shared = pool_shared p, gen = r\<rparr>
      in p\<lparr>pool_shared := shared w, workers := (workers p)[i := if res = Returned then Some (gen w) else None]\<rparr>)"

text \<open>
  What other processes can do to the shared state between two critical sections of a worker: any
  sequence of the critical sections of the program.
\<close>

inductive interference :: "(SharedState \<Rightarrow> SharedState) \<Rightarrow> bool" where
  nothing: "interference id"
| limit: "interference env \<Longrightarrow> interference (\<lambda>s. snd (check_and_update_rate_limit c now (env s)))"
| ride: "interference env \<Longrightarrow> interference (\<lambda>s. snd (snd (snd (handle_ride_request_logic c n r (env s)))))"
| join: "interference env \<Longrightarrow> interference (\<lambda>s. join_driver d (env s))"
| round: "interference env \<Longrightarrow> interference (\<lambda>s. snd (map_tick r (env s)))"

definition env_ok :: "accepted \<Rightarrow> bool" where
  "env_ok a = (case a of None \<Rightarrow> True | Some (env, now, c) \<Rightarrow> interference env)"

text \<open>
  The steps. \<open>wait()\<close> reports \<open>ECHILD\<close> when no worker is left, which ends the coordinator's loop and
  with it the server.
\<close>

inductive pool_step :: "Pool \<Rightarrow> Pool \<Rightarrow> bool" where
  accept: "pool_step p (serve i r a p)" if "i < length (workers p)" "workers p ! i = Some r" "env_ok a"
| tick: "pool_step p (p\<lparr>pool_shared := snd (map_tick (monitor p) (pool_shared p)), monitor := fst (map_tick (monitor p) (pool_shared p))\<rparr>)"
    if "g_running p"
| sigint: "pool_step p (handle_sigint wr p)" if "waiting p"
| no_child: "pool_step p (p\<lparr>waiting := False\<rparr>)" if "waiting p" "set (workers p) \<subseteq> {None}"

inductive_cases pool_stepE: "pool_step p p'"

inductive pool_reach :: "Pool \<Rightarrow> Pool \<Rightarrow> bool" for p where
  start: "pool_reach p p"
| further: "pool_reach p p''" if "pool_reach p p'" "pool_step p' p''"

lemma pool_reach_trans: "pool_reach p' p'' \<Longrightarrow> pool_reach p p' \<Longrightarrow> pool_reach p p''"
  by (induction rule: pool_reach.induct) (auto intro: pool_reach.further)

lemma pool_reach_step: "pool_step p p' \<Longrightarrow> pool_reach p p'"
  by (rule pool_reach.further [OF pool_reach.start])

section \<open>Facts\<close>

lemma fork_workers_all: "fork_workers oks r = Some ws \<Longrightarrow> ws = replicate (length oks) (Some r)"
  by (induction oks arbitrary: ws) (auto split: if_splits)

lemma serve_None [simp]: "i < length (workers p) \<Longrightarrow> workers p ! i = Some r \<Longrightarrow> serve i r None p = p"
  by (simp add: serve_def list_update_same_conv)

lemma serve_Some:
  assumes "handle_client env now c \<lparr>shared = pool_shared p, gen = r\<rparr> = (res, c', w')"
  shows "serve i r (Some (env, now, c)) p =
    p\<lparr>pool_shared := shared w', workers := (workers p)[i := if res = Returned then Some (gen w') else None]\<rparr>"
  using assms by (cases res) (simp_all add: serve_def)

text \<open>An invariant of the shared state that workers and map thread keep holds in every reachable state.\<close>

locale pool_invariant = shared_invariant inv for inv +
  assumes implies_ok: "inv s \<Longrightarrow> state_ok s"
    and tick_keeps: "inv s \<Longrightarrow> inv (snd (map_tick r s))"
begin

lemma interference_keeps: "interference env \<Longrightarrow> inv s \<Longrightarrow> inv (env s)"
  by (induction rule: interference.induct) (auto intro: limit_keeps ride_keeps join_keeps tick_keeps)

lemma loop_keeps:
  assumes "list_all env_ok as" "inv (shared w)"
  shows "inv (shared (snd (dispatcher_loop as w)))"
  using assms
proof (induction as w rule: dispatcher_loop.induct)
  case (3 env now c as w)
  obtain res c' w' where r: "handle_client env now c w = (res, c', w')" by (cases "handle_client env now c w")
  have "interference env" using "3.prems"(1) by (simp add: env_ok_def)
  from client_keeps [OF interference_keeps [OF this] "3.prems"(2) r] have "inv (shared w')" .
  then show ?case using "3.IH" [OF r [symmetric]] "3.prems"(1) r by (cases res) auto
qed auto

lemma step_keeps: "pool_step p p' \<Longrightarrow> inv (pool_shared p) \<Longrightarrow> inv (pool_shared p')"
proof (induction rule: pool_step.induct)
  case (accept i p r a)
  then show ?case using loop_keeps [of "[a]" "\<lparr>shared = pool_shared p, gen = r\<rparr>"]
    by (simp add: serve_def split_beta Let_def)
qed (simp_all add: tick_keeps handle_sigint_def)

lemma reach_keeps: "pool_reach p p' \<Longrightarrow> inv (pool_shared p) \<Longrightarrow> inv (pool_shared p')"
  by (induction rule: pool_reach.induct) (auto intro: step_keeps)

end

interpretation fleet: pool_invariant state_ok
  by unfold_locales (auto intro: map_tick_ok(1) [OF _ prod.collapse [symmetric]])

section \<open>No worker is replaced\<close>

lemma step_workers:
  "pool_step p p' \<Longrightarrow> length (workers p') = length (workers p) \<and> (\<forall>i < length (workers p). workers p ! i = None \<longrightarrow> workers p' ! i = None)"
proof (induction rule: pool_step.induct)
  case (accept i p r a)
  then show ?case by (auto simp: serve_def split_beta Let_def nth_list_update)
qed (simp_all add: handle_sigint_def)

lemma reach_workers:
  "pool_reach p p' \<Longrightarrow> length (workers p') = length (workers p) \<and> (\<forall>i < length (workers p). workers p ! i = None \<longrightarrow> workers p' ! i = None)"
  by (induction rule: pool_reach.induct) (auto dest: step_workers)

lemma started:
  assumes "start_coordinator_process forks r seeded f s = Some p" "length forks = WORKER_COUNT"
  shows "p = \<lparr>pool_shared = s, workers = replicate WORKER_COUNT (Some r), monitor = seeded, data_file = f, g_running = True, waiting = True\<rparr>"
  using assms fork_workers_all [of forks r] by (auto simp: start_coordinator_process_def split: option.splits)

text \<open>
  the running server, whatever the connections, the interleaving of its processes and the signals: the
  shared state stays consistent in every reachable state, and a worker that has died is never replaced.
\<close>

theorem pool_safe:
  assumes "start_coordinator_process forks r seeded f s = Some p" "length forks = WORKER_COUNT" "state_ok s"
    and "pool_reach p p'" "pool_reach p' p''" "i < WORKER_COUNT" "workers p' ! i = None"
  shows "state_ok (pool_shared p'') \<and> length (workers p'') = WORKER_COUNT \<and> workers p'' ! i = None"
proof -
  note p = started [OF assms(1,2)]
  have ok: "state_ok (pool_shared p)" "length (workers p) = WORKER_COUNT" using assms(3) by (simp_all add: p)
  from fleet.reach_keeps [OF pool_reach_trans [OF assms(5,4)] ok(1)] reach_workers [OF assms(4)] reach_workers [OF assms(5)]
  show ?thesis using ok(2) assms(6,7) by simp
qed

definition all_forked :: "bool list" where "all_forked = replicate WORKER_COUNT True"

lemma fork_all: "fork_workers (replicate n True) r = Some (replicate n (Some r))"
  by (induction n) simp_all

definition demo_pool :: Pool where
  "demo_pool = \<lparr>pool_shared = demo_state, workers = replicate WORKER_COUNT (Some (sconst 0)), monitor = sconst 1,
     data_file = NoFile, g_running = True, waiting = True\<rparr>"

lemma demo_pool_start: "start_coordinator_process all_forked (sconst 0) (sconst 1) NoFile demo_state = Some demo_pool"
  by (simp add: start_coordinator_process_def all_forked_def fork_all demo_pool_def)

theorem pool_safe_witness:
  "state_ok (pool_shared (handle_sigint FullWrite demo_pool)) \<and> workers (handle_sigint FullWrite demo_pool) ! 42 = None"
proof -
  have "pool_reach demo_pool (handle_sigint FullWrite demo_pool)"
    by (intro pool_reach_step pool_step.sigint) (simp add: demo_pool_def)
  from pool_safe [OF demo_pool_start _ demo_state_ok this pool_reach.start, of 42] show ?thesis
    by (simp add: all_forked_def WORKER_COUNT_def) (simp add: handle_sigint_def demo_pool_def WORKER_COUNT_def)
qed

section \<open>One client stops the server\<close>

text \<open>A session of the honest client \<open>c\<close> at time \<open>now\<close> with some worker of the pool.\<close>

inductive session_step :: "int \<Rightarrow> int \<Rightarrow> Pool \<Rightarrow> Pool \<Rightarrow> bool" for c now where
  "session_step c now p (serve i r (Some (id, now, new_conn es hb bb)) p)"
    if "i < length (workers p)" "workers p ! i = Some r" "rx_clean es" "rx_bytes es = client_stream my_pub c cipher"

lemma session_is_step: "session_step c now p p' \<Longrightarrow> pool_step p p'"
  by (induction rule: session_step.induct) (auto intro!: pool_step.accept interference.nothing simp: env_ok_def)

lemma session_serves:
  assumes "state_ok (pool_shared p)" "limited_id c" "i < length (workers p)" "workers p ! i = Some r"
  obtains p' where "session_step c now p p'" "state_ok (pool_shared p')" "waiting p' = waiting p"
    "seen_in c now (pool_shared p') = seen_in c now (pool_shared p) + 1"
    "3 \<le> seen_in c now (pool_shared p) \<Longrightarrow> workers p' = (workers p)[i := None]"
    "seen_in c now (pool_shared p) < 3 \<Longrightarrow> \<exists>r'. workers p' = (workers p)[i := Some r']"
proof -
  let ?w = "\<lparr>shared = pool_shared p, gen = r\<rparr>"
  have "state_ok (shared ?w)" using assms(1) by simp
  then obtain es my_pub cipher where es: "rx_clean es" "rx_bytes es = client_stream my_pub c cipher"
    "\<forall>hb bb. \<exists>c' w'. handle_client id now (new_conn es hb bb) ?w =
         (if 3 \<le> seen_in c now (shared ?w) then Crashed else Returned, c', w')
       \<and> state_ok (shared w') \<and> seen_in c now (shared w') = seen_in c now (shared ?w) + 1"
    by (rule honest_session [OF _ assms(2), where now = now])
  from es(3) [rule_format, of "[]" "[]"] obtain c' w' where h: "handle_client id now (new_conn es [] []) ?w =
         (if 3 \<le> seen_in c now (pool_shared p) then Crashed else Returned, c', w')"
       "state_ok (shared w')" "seen_in c now (shared w') = seen_in c now (pool_shared p) + 1" by auto
  note st = session_step.intros [OF assms(3,4) es(1,2), of now "[]" "[]"]
  show thesis
    using that [OF st] serve_Some [OF h(1), of i] h(2,3) by (auto split: if_splits)
qed

definition alive :: "Pool \<Rightarrow> nat" where
  "alive p = card {i. i < length (workers p) \<and> workers p ! i \<noteq> None}"

lemma alive_0: "alive p = 0 \<Longrightarrow> set (workers p) \<subseteq> {None}"
  by (auto simp: alive_def in_set_conv_nth)

lemma alive_pos:
  assumes "0 < alive p" obtains i r where "i < length (workers p)" "workers p ! i = Some r"
proof -
  have "{i. i < length (workers p) \<and> workers p ! i \<noteq> None} \<noteq> {}"
    using assms unfolding alive_def card_gt_0_iff by blast
  then show thesis using that by auto
qed

lemma alive_kill:
  assumes "i < length (workers p)" "workers p ! i \<noteq> None" "workers p' = (workers p)[i := None]"
  shows "Suc (alive p') = alive p"
proof -
  have "{j. j < length (workers p') \<and> workers p' ! j \<noteq> None} = {j. j < length (workers p) \<and> workers p ! j \<noteq> None} - {i}"
    using assms(1,3) by (auto simp: nth_list_update split: if_splits)
  then show ?thesis
    unfolding alive_def by (simp only:) (rule card_Suc_Diff1, use assms(1,2) in simp_all)
qed

lemma alive_swap: "workers p' = (workers p)[i := Some r'] \<Longrightarrow> workers p ! i = Some r \<Longrightarrow> alive p' = alive p"
  by (cases "i < length (workers p)") (auto simp: alive_def nth_list_update list_update_beyond intro!: arg_cong [where f = card])

lemma kill_all:
  assumes "state_ok (pool_shared p)" "limited_id c" "waiting p" "3 \<le> seen_in c now (pool_shared p)"
  shows "\<exists>p'. (session_step c now ^^ alive p) p p' \<and> waiting p' \<and> set (workers p') \<subseteq> {None}"
  using assms
proof (induction "alive p" arbitrary: p)
  case 0
  then have "set (workers p) \<subseteq> {None}" by (intro alive_0) simp
  with 0 show ?case by (intro exI [of _ p]) (simp flip: 0(1))
next
  case (Suc n)
  obtain i r where i: "i < length (workers p)" "workers p ! i = Some r" using Suc.hyps(2) by (metis alive_pos zero_less_Suc)
  obtain p1 where p1: "session_step c now p p1" "state_ok (pool_shared p1)" "waiting p1"
    "seen_in c now (pool_shared p1) = seen_in c now (pool_shared p) + 1" "workers p1 = (workers p)[i := None]"
    using session_serves [OF Suc.prems(1,2) i, of now] Suc.prems(3,4) by metis
  have "Suc (alive p1) = alive p" by (rule alive_kill [OF i(1) _ p1(5)]) (simp add: i)
  then have n: "n = alive p1" using Suc.hyps(2) by simp
  obtain p' where "(session_step c now ^^ n) p1 p'" "waiting p'" "set (workers p') \<subseteq> {None}"
    using Suc.hyps(1) [OF n p1(2) Suc.prems(2) p1(3)] p1(4) Suc.prems(4) n by auto
  moreover have "(session_step c now ^^ alive p) p p'"
    unfolding Suc.hyps(2) [symmetric] by (rule relpowp_Suc_I2 [OF p1(1) calculation(1)])
  ultimately show ?case by blast
qed

lemma fill_up:
  assumes "state_ok (pool_shared p)" "limited_id c" "waiting p" "0 < alive p"
  shows "\<exists>p'. (session_step c now ^^ nat (3 - seen_in c now (pool_shared p))) p p' \<and> state_ok (pool_shared p')
    \<and> waiting p' \<and> alive p' = alive p \<and> 3 \<le> seen_in c now (pool_shared p')"
  using assms
proof (induction "nat (3 - seen_in c now (pool_shared p))" arbitrary: p)
  case 0
  then show ?case by (intro exI [of _ p]) simp
next
  case (Suc n)
  have lt: "seen_in c now (pool_shared p) < 3" using Suc.hyps(2) by simp
  obtain i r where i: "i < length (workers p)" "workers p ! i = Some r" by (rule alive_pos [OF Suc.prems(4)])
  obtain p1 where p1: "session_step c now p p1" "state_ok (pool_shared p1)" "waiting p1"
    "seen_in c now (pool_shared p1) = seen_in c now (pool_shared p) + 1" "\<exists>r'. workers p1 = (workers p)[i := Some r']"
    using session_serves [OF Suc.prems(1,2) i, of now] Suc.prems(3) lt by metis
  have al: "alive p1 = alive p" using p1(5) i(2) alive_swap by blast
  have n: "n = nat (3 - seen_in c now (pool_shared p1))" using Suc.hyps(2) p1(4) by simp
  obtain p' where p': "(session_step c now ^^ n) p1 p'" "state_ok (pool_shared p')" "waiting p'"
    "alive p' = alive p1" "3 \<le> seen_in c now (pool_shared p')"
    using Suc.hyps(1) [OF n p1(2) Suc.prems(2) p1(3)] al Suc.prems(4) n by auto
  have "(session_step c now ^^ nat (3 - seen_in c now (pool_shared p))) p p'"
    unfolding Suc.hyps(2) [symmetric] by (rule relpowp_Suc_I2 [OF p1(1) p'(1)])
  with p' al show ?case by auto
qed

lemma alive_started: "workers p = replicate n (Some r) \<Longrightarrow> alive p = n"
proof -
  assume w: "workers p = replicate n (Some r)"
  have "{i. i < length (workers p) \<and> workers p ! i \<noteq> None} = {..<n}" by (auto simp: w)
  then show ?thesis by (simp add: alive_def)
qed

text \<open>
  C10: one client takes the server down within one second, by nothing but well-formed sessions: after at
  most three served requests and a further 100 of the same client, in the same second, every worker has
  crashed; \<open>wait()\<close> then finds no child and the coordinator ends.
\<close>

theorem one_client_stops_server:
  assumes "start_coordinator_process forks r seeded f s = Some p" "length forks = WORKER_COUNT" "state_ok s"
    and "limited_id c" "0 \<le> seen_in c now s"
  shows "\<exists>n \<le> 103. \<exists>p'. (session_step c now ^^ n) p p' \<and> set (workers p') \<subseteq> {None}
    \<and> pool_reach p (p'\<lparr>waiting := False\<rparr>)"
proof -
  note p = started [OF assms(1,2)]
  have al: "alive p = 100" by (rule alive_started [of _ _ r]) (simp add: p WORKER_COUNT_def)
  have ok: "state_ok (pool_shared p)" "waiting p" using assms(3) by (simp_all add: p)
  let ?k = "nat (3 - seen_in c now (pool_shared p))"
  obtain p1 where p1: "(session_step c now ^^ ?k) p p1" "state_ok (pool_shared p1)" "waiting p1" "alive p1 = 100"
    "3 \<le> seen_in c now (pool_shared p1)"
    using fill_up [OF ok(1) assms(4) ok(2), of now] al by auto
  obtain p2 where p2: "(session_step c now ^^ 100) p1 p2" "waiting p2" "set (workers p2) \<subseteq> {None}"
    using kill_all [OF p1(2) assms(4) p1(3,5)] p1(4) by auto
  have run: "(session_step c now ^^ (?k + 100)) p p2" unfolding relpowp_add using p1(1) p2(1) by auto
  have reach: "pool_reach p q" if "(session_step c now ^^ m) p q" for m q
    using that by (induction m arbitrary: q) (auto intro: pool_reach.intros session_is_step)
  have "pool_reach p (p2\<lparr>waiting := False\<rparr>)"
    by (rule pool_reach.further [OF reach [OF run] pool_step.no_child [OF p2(2,3)]])
  moreover have "?k + 100 \<le> 103" using assms(5) by (simp add: p)
  ultimately show ?thesis using run p2(3) by blast
qed

theorem one_client_stops_server_witness:
  "\<exists>n \<le> 103. \<exists>p'. (session_step 7 1000 ^^ n) demo_pool p' \<and> set (workers p') \<subseteq> {None}
    \<and> pool_reach demo_pool (p'\<lparr>waiting := False\<rparr>)"
  by (rule one_client_stops_server [OF demo_pool_start _ demo_state_ok])
    (simp_all add: all_forked_def limited_id_def seen_in_def demo_state_def two_drivers_def zero_state_def MAX_CLIENTS_def)

end
