(* ===== verification/Sockets.thy ===== *)
theory Sockets
  imports Net_Wrapper
begin

text \<open>
  src/common/net_wrapper.c, the opening of sockets: \<open>create_server_socket\<close> and \<open>connect_to_server\<close>.
  The kernel's answers to the system calls are a record; the functions return their result and the
  calls they made, in order, so that what they leave open can be read off the calls.
\<close>

section \<open>System calls\<close>

record kernel =
  ret_socket :: int
  ret_setsockopt :: int
  ret_bind :: int
  ret_listen :: int
  ret_inet_pton :: int
  ret_connect :: int

datatype syscall =
    Socket int
  | Setsockopt int
  | Bind int u16
  | Listen int nat
  | Connect int u16
  | Close int

text \<open>
  The descriptors open after some calls. \<open>socket()\<close> returns a new descriptor or a negative number.
\<close>

fun open_fds :: "int set \<Rightarrow> syscall list \<Rightarrow> int set" where
  "open_fds A [] = A"
| "open_fds A (Socket fd # cs) = open_fds (if fd < 0 then A else insert fd A) cs"
| "open_fds A (Close fd # cs) = open_fds (A - {fd}) cs"
| "open_fds A (_ # cs) = open_fds A cs"

section \<open>Server and client side\<close>

text \<open>
  \<open>htons(port)\<close> takes a \<open>uint16_t\<close>: an \<open>int\<close> port is cut to its low 16 bits. The address is any
  interface (\<open>INADDR_ANY\<close>), the backlog is 1024.
\<close>

definition create_server_socket :: "kernel \<Rightarrow> int \<Rightarrow> int \<times> syscall list" where
  "create_server_socket k port =
     (let fd = ret_socket k; p = word_of_int port in
      if fd < 0 then (- 1, [Socket fd])
      else if ret_setsockopt k < 0 then (- 1, [Socket fd, Setsockopt fd, Close fd])
      else if ret_bind k < 0 then (- 1, [Socket fd, Setsockopt fd, Bind fd p, Close fd])
      else if ret_listen k < 0 then (- 1, [Socket fd, Setsockopt fd, Bind fd p, Listen fd 1024, Close fd])
      else (fd, [Socket fd, Setsockopt fd, Bind fd p, Listen fd 1024]))"

definition connect_to_server :: "kernel \<Rightarrow> int \<Rightarrow> int \<times> syscall list" where
  "connect_to_server k port =
     (let fd = ret_socket k; p = word_of_int port in
      if fd < 0 then (- 1, [Socket fd])
      else if ret_inet_pton k \<le> 0 then (- 1, [Socket fd, Close fd])
      else if ret_connect k < 0 then (- 1, [Socket fd, Connect fd p, Close fd])
      else (fd, [Socket fd, Connect fd p]))"

text \<open>What a caller needs of a function that opens a socket, whichever side it is on.\<close>

locale socket_opener =
  fixes opener :: "kernel \<Rightarrow> int \<Rightarrow> int \<times> syscall list"
  assumes fails_closed: "opener k port = (- 1, cs) \<Longrightarrow> ret_socket k \<notin> A \<Longrightarrow> open_fds A cs = A"
    and result_open: "opener k port = (fd, cs) \<Longrightarrow> fd \<noteq> - 1 \<Longrightarrow> fd = ret_socket k \<and> 0 \<le> fd \<and> open_fds A cs = insert fd A"
begin

lemma no_leak:
  assumes "opener k port = (fd, cs)" "ret_socket k \<notin> A"
  shows "open_fds A cs = (if fd < 0 then A else insert fd A)"
  using assms fails_closed [of k port cs A] result_open [OF assms(1), of A] by (cases "fd = - 1") auto

end

interpretation server: socket_opener create_server_socket
  by unfold_locales (auto simp: create_server_socket_def Let_def split: if_splits)

interpretation client: socket_opener connect_to_server
  by unfold_locales (auto simp: connect_to_server_def Let_def split: if_splits)

text \<open>
  no path of the two functions that open a socket leaks a descriptor: whatever the kernel answers,
  afterwards exactly the returned descriptor is open in addition to those open before, and none when
  the result is negative. A server socket that is returned listens with a backlog of 1024 on the port
  modulo 2^16.
\<close>

theorem sockets_no_leak:
  assumes "ret_socket k \<notin> A" "create_server_socket k port = (sfd, cs)" "connect_to_server k port = (cfd, ds)"
  shows "open_fds A cs = (if sfd < 0 then A else insert sfd A)
    \<and> open_fds A ds = (if cfd < 0 then A else insert cfd A)
    \<and> (0 \<le> sfd \<longrightarrow> cs = [Socket sfd, Setsockopt sfd, Bind sfd (word_of_int (port mod 65536)), Listen sfd 1024])"
proof (intro conjI impI)
  show "open_fds A cs = (if sfd < 0 then A else insert sfd A)" by (rule server.no_leak [OF assms(2,1)])
  show "open_fds A ds = (if cfd < 0 then A else insert cfd A)" by (rule client.no_leak [OF assms(3,1)])
  have "(word_of_int (port mod 65536) :: u16) = word_of_int port"
    by (simp add: word_of_int_eq_iff take_bit_eq_mod)
  moreover assume "0 \<le> sfd"
  ultimately show "cs = [Socket sfd, Setsockopt sfd, Bind sfd (word_of_int (port mod 65536)), Listen sfd 1024]"
    using assms(2) by (auto simp: create_server_socket_def Let_def split: if_splits)
qed

theorem sockets_no_leak_witness:
  "create_server_socket \<lparr>ret_socket = 3, ret_setsockopt = 0, ret_bind = - 1, ret_listen = 0, ret_inet_pton = 1, ret_connect = - 1\<rparr> 70000
     = (- 1, [Socket 3, Setsockopt 3, Bind 3 4464, Close 3])
   \<and> open_fds {0, 1, 2} [Socket 3, Setsockopt 3, Bind 3 4464, Close 3] = {0, 1, 2}"
    (is "create_server_socket ?k _ = (_, ?cs) \<and> _")
proof
  have c: "create_server_socket ?k 70000 = (- 1, ?cs)" "connect_to_server ?k 70000 = (- 1, [Socket 3, Connect 3 4464, Close 3])"
    by (simp_all add: create_server_socket_def connect_to_server_def)
  then show "create_server_socket ?k 70000 = (- 1, ?cs)" by blast
  show "open_fds {0, 1, 2} ?cs = {0, 1, 2}"
    using sockets_no_leak [OF _ c, of "{0, 1, 2}"] by simp
qed

end
