(* ===== verification/Server_Main.thy ===== *)
theory Server_Main
  imports Worker_Pool Sockets
begin

text \<open>
  src/server/server_main.c: \<open>main\<close> of the server. It maps the shared memory, fills it with a fresh fleet
  of drivers, opens the listening socket and hands over to the coordinator. The command line is the
  list of the values \<open>atoi\<close> gives for its arguments; the outcomes of the system calls are a record.
\<close>

section \<open>The fresh fleet\<close>

definition boot_rating :: "nat \<Rightarrow> int \<Rightarrow> double" where
  "boot_rating i c =
     (if i < 2 then d_lit (49 / 10) + d_of_int c / d_lit 10 else d_lit (35 / 10) + d_of_int c / d_lit 10)"

text \<open>The three draws of each driver: latitude, longitude and rating.\<close>

fun boot_draws :: "nat \<Rightarrow> nat \<Rightarrow> rng \<Rightarrow> (int \<times> int \<times> int) list \<times> rng" where
  "boot_draws i 0 r = ([], r)"
| "boot_draws i (Suc k) r =
     (let (a, r) = rand_mod 100 r;
          (b, r) = rand_mod 100 r;
          (c, r) = rand_mod (if i < 2 then 2 else 15) r;
          (ds, r) = boot_draws (Suc i) k r
      in ((a, b, c) # ds, r))"

definition boot_driver :: "nat \<Rightarrow> int \<times> int \<times> int \<Rightarrow> Driver \<Rightarrow> Driver" where
  "boot_driver i draws d =
     (case draws of (a, b, c) \<Rightarrow>
        d\<lparr>driver_id := 1000 + of_nat i + 1, is_available := True,
          d_lat := target_coord BASE_LAT a, d_lon := target_coord BASE_LON b,
          fuel := 10, is_refueling := False, has_target := False, target_lat := 0, target_lon := 0,
          rating := boot_rating i c\<rparr>)"

text \<open>
  The driver count is not compared with \<open>MAX_DRIVERS\<close>: beyond 256 the loop writes past the array, which
  has no defined result.
\<close>

definition server_init :: "int \<Rightarrow> int \<Rightarrow> rng \<Rightarrow> (SharedState \<times> rng) option" where
  "server_init n mode r =
     (if int MAX_DRIVERS < n then None
      else let (ds, r) = boot_draws 0 (nat n) r
           in Some (init_drivers (\<lambda>i. boot_driver i (ds ! i)) (zero_state\<lparr>driver_count := n, dispatch_mode := mode\<rparr>), r))"

section \<open>The save file\<close>

definition save_data_to_file :: "write_result \<Rightarrow> SharedState \<Rightarrow> save_file \<Rightarrow> save_file" where
  "save_data_to_file wr s f = (case wr of CannotOpen \<Rightarrow> f | ShortWrite \<Rightarrow> ShortFile | FullWrite \<Rightarrow> Image s)"

text \<open>The result of \<open>fread\<close> is not looked at, so a short file leaves \<open>partial\<close>. Nothing calls this.\<close>

definition load_data_from_file :: "SharedState \<Rightarrow> save_file \<Rightarrow> SharedState \<Rightarrow> SharedState" where
  "load_data_from_file partial f s = (case f of NoFile \<Rightarrow> s | ShortFile \<Rightarrow> partial | Image s' \<Rightarrow> s')"

definition cleanup_resources :: "write_result \<Rightarrow> SharedState \<Rightarrow> save_file \<Rightarrow> save_file" where
  "cleanup_resources wr s f = save_data_to_file wr s f"

section \<open>The main function\<close>

text \<open>
  The handler of SIGINT until the coordinator installs its own: it clears \<open>g_running\<close>.
\<close>

definition SIGINT :: int where "SIGINT = 2"

definition handle_signal :: "int \<Rightarrow> bool \<Rightarrow> bool" where
  "handle_signal sig running = (if sig = SIGINT then False else running)"

record system =
  shm_open_ok :: bool
  ftruncate_ok :: bool
  mmap_ok :: bool
  sockets :: kernel
  fork_ok :: "bool list"
  saved :: write_result

text \<open>
  How the start ends: in an exit code with the save file as it is then, in undefined behaviour, or
  with the server running.
\<close>

datatype start = Exit int save_file | Undefined | Running Pool

definition server_main :: "int list \<Rightarrow> system \<Rightarrow> rng \<Rightarrow> rng \<Rightarrow> save_file \<Rightarrow> start" where
  "server_main args sys r seeded f =
     (case args of
        port # fleet_size # rest \<Rightarrow>
          let mode = (case rest of [] \<Rightarrow> 1 | m # _ \<Rightarrow> m) in
          if \<not> shm_open_ok sys then Exit 1 f
          else if \<not> ftruncate_ok sys then Exit 1 f
          else if \<not> mmap_ok sys then Exit 1 f
          else (case server_init fleet_size mode r of
                  None \<Rightarrow> Undefined
                | Some (s, r) \<Rightarrow>
                    if fst (create_server_socket (sockets sys) port) < 0
                    then Exit 1 (cleanup_resources (saved sys) s f)
                    else (case start_coordinator_process (fork_ok sys) r seeded f s of
                            None \<Rightarrow> Exit 1 f
                          | Some p \<Rightarrow> Running p))
      | _ \<Rightarrow> Exit 1 f)"

text \<open>After the coordinator's loop has ended: the data is saved, the exit code is 0.\<close>

definition server_finish :: "write_result \<Rightarrow> Pool \<Rightarrow> start" where
  "server_finish wr p = Exit 0 (cleanup_resources wr (pool_shared p) (data_file p))"

section \<open>Facts\<close>

lemma length_boot_draws: "length (fst (boot_draws i k r)) = k"
  by (induction k arbitrary: i r) (simp_all add: split_beta Let_def)

lemma boot_draws_range:
  "j < k \<Longrightarrow> (a, b, c) = fst (boot_draws i k r) ! j \<Longrightarrow>
     a \<in> {0..99} \<and> b \<in> {0..99} \<and> c \<in> {0..14} \<and> (i + j < 2 \<longrightarrow> c \<in> {0..1})"
proof (induction k arbitrary: i r j)
  case (Suc k)
  let ?r1 = "snd (rand_mod 100 r)" and ?m = "if i < 2 then 2 else 15 :: int"
  let ?r2 = "snd (rand_mod 100 ?r1)"
  have b: "fst (rand_mod 100 r) \<in> {0..99}" "fst (rand_mod 100 ?r1) \<in> {0..99}"
    "fst (rand_mod ?m ?r2) \<in> {0..14}" "i < 2 \<Longrightarrow> fst (rand_mod ?m ?r2) \<in> {0..1}"
    using rand_mod_bounds [of 100 r] rand_mod_bounds [of 100 ?r1] rand_mod_bounds [of ?m ?r2] by (auto split: if_splits)
  show ?case
  proof (cases j)
    case 0
    then show ?thesis using Suc.prems b by (simp add: split_beta Let_def)
  next
    case j: (Suc j')
    then have "j' < k" "(a, b, c) = fst (boot_draws (Suc i) k (snd (rand_mod ?m ?r2))) ! j'"
      using Suc.prems by (simp_all add: split_beta Let_def)
    from Suc.IH [OF this] j show ?thesis by simp
  qed
qed simp

lemma target_coord_99:
  "to_cell BASE_LAT (target_coord BASE_LAT 99) = 19" "to_cell BASE_LON (target_coord BASE_LON 99) = 19"
  "rat_of (target_coord BASE_LAT 99) \<le> 1000" "rat_of (target_coord BASE_LON 99) \<le> 1000"
  "rat_of (target_coord BASE_LAT 0) = rat_of BASE_LAT" "rat_of (target_coord BASE_LON 0) = rat_of BASE_LON"
  by (simp_all add: to_cell_def target_coord_def BASE_LAT_def BASE_LON_def SCALE_FACTOR_def d_trunc_def double_eval)

lemma boot_rating_mono: "c \<le> c' \<Longrightarrow> boot_rating i c \<le> boot_rating i c'"
  by (auto simp: boot_rating_def less_eq_double_def intro!: rnd_mono add_left_mono divide_right_mono rnd_nonneg)

lemma boot_rating_ends:
  "i < 2 \<Longrightarrow> VIP_RATING_THRESHOLD \<le> boot_rating i 0 \<and> boot_rating i 1 \<le> d_lit 5"
  "\<not> i < 2 \<Longrightarrow> d_lit (35 / 10) \<le> boot_rating i 0 \<and> boot_rating i 14 \<le> d_lit 5"
  "d_lit (35 / 10) \<le> VIP_RATING_THRESHOLD"
  by (simp_all add: boot_rating_def VIP_RATING_THRESHOLD_def less_eq_double_def double_eval)

lemma boot_rating_bounds:
  assumes "c \<in> {0..14}" "i < 2 \<longrightarrow> c \<in> {0..1}"
  shows "d_lit (35 / 10) \<le> boot_rating i c" "boot_rating i c \<le> d_lit 5"
    "i < 2 \<Longrightarrow> VIP_RATING_THRESHOLD \<le> boot_rating i c"
proof -
  have lo: "boot_rating i 0 \<le> boot_rating i c" using assms(1) by (intro boot_rating_mono) simp
  have hi: "boot_rating i c \<le> boot_rating i (if i < 2 then 1 else 14)" using assms by (intro boot_rating_mono) auto
  show "boot_rating i c \<le> d_lit 5" using hi boot_rating_ends(1,2) [of i] by (auto split: if_splits intro: order_trans)
  show vip: "VIP_RATING_THRESHOLD \<le> boot_rating i c" if "i < 2"
    using lo boot_rating_ends(1) [OF that] by (meson order_trans)
  show "d_lit (35 / 10) \<le> boot_rating i c"
    using lo vip boot_rating_ends(2) [of i] boot_rating_ends(3) by (cases "i < 2") (meson order_trans)+
qed

lemma boot_driver_ok:
  assumes "a \<in> {0..99}" "b \<in> {0..99}"
  shows "driver_ok (boot_driver i (a, b, c) zero_driver)"
    "in_map (to_cell BASE_LON (d_lon (boot_driver i (a, b, c) zero_driver))) (to_cell BASE_LAT (d_lat (boot_driver i (a, b, c) zero_driver)))"
proof -
  have lat: "target_coord BASE_LAT 0 \<le> target_coord BASE_LAT a" "target_coord BASE_LAT a \<le> target_coord BASE_LAT 99"
    and lon: "target_coord BASE_LON 0 \<le> target_coord BASE_LON b" "target_coord BASE_LON b \<le> target_coord BASE_LON 99"
    using assms by (auto intro: target_coord_mono)
  have "\<bar>rat_of (target_coord BASE_LAT a)\<bar> \<le> 1000" "\<bar>rat_of (target_coord BASE_LON b)\<bar> \<le> 1000"
    using lat lon target_coord_99(3-6) base_bounds unfolding less_eq_double_def by linarith+
  then show "driver_ok (boot_driver i (a, b, c) zero_driver)"
    by (simp add: driver_ok_def one_status_def near_def boot_driver_def)
  have zero: "to_cell BASE_LAT (target_coord BASE_LAT 0) = 0" "to_cell BASE_LON (target_coord BASE_LON 0) = 0"
    by (simp_all add: to_cell_def target_coord_def d_trunc_def BASE_LAT_def BASE_LON_def)
  show "in_map (to_cell BASE_LON (d_lon (boot_driver i (a, b, c) zero_driver))) (to_cell BASE_LAT (d_lat (boot_driver i (a, b, c) zero_driver)))"
    using to_cell_mono [OF lat(1), of BASE_LAT] to_cell_mono [OF lat(2), of BASE_LAT]
      to_cell_mono [OF lon(1), of BASE_LON] to_cell_mono [OF lon(2), of BASE_LON] zero target_coord_99(1,2)
    by (simp add: boot_driver_def in_map_def MAP_WIDTH_def MAP_HEIGHT_def)
qed

lemma server_init_facts:
  assumes "0 \<le> n" "n \<le> 256"
  shows "\<exists>s r'. server_init n mode r = Some (s, r') \<and> state_ok s \<and> driver_count s = n \<and> dispatch_mode s = mode
    \<and> (\<forall>i < nat n. let d = drivers s ! i in driver_id d = 1001 + of_nat i \<and> status_of d = Available \<and> fuel d = 10
         \<and> in_map (cell_x d) (cell_y d) \<and> d_lit (35 / 10) \<le> rating d \<and> rating d \<le> d_lit 5
         \<and> (i < 2 \<longrightarrow> VIP_RATING_THRESHOLD \<le> rating d))
    \<and> total_success_requests s = 0 \<and> total_revenue s = 0 \<and> (\<forall>i < nat n. rides_count (drivers s ! i) = 0)"
proof -
  let ?z = "zero_state\<lparr>driver_count := n, dispatch_mode := mode\<rparr>"
  obtain ds r' where ds: "boot_draws 0 (nat n) r = (ds, r')" by (cases "boot_draws 0 (nat n) r")
  let ?s = "init_drivers (\<lambda>i. boot_driver i (ds ! i)) ?z"
  have s: "server_init n mode r = Some (?s, r')" using assms by (simp add: server_init_def ds MAX_DRIVERS_def)
  have wf: "wf_state ?z" using assms by (simp add: wf_state_def zero_state_def MAX_DRIVERS_def)
  note fr = init_drivers_frame [of "\<lambda>i. boot_driver i (ds ! i)" ?z]
  have cell: "drivers ?s ! j = (if j < nat n then boot_driver j (ds ! j) zero_driver else zero_driver)" if "j < MAX_DRIVERS" for j
    using init_drivers_cell [OF wf that] that by (simp add: zero_state_def MAX_DRIVERS_def)
  have rng: "fst (ds ! j) \<in> {0..99} \<and> fst (snd (ds ! j)) \<in> {0..99} \<and> snd (snd (ds ! j)) \<in> {0..14}
      \<and> (j < 2 \<longrightarrow> snd (snd (ds ! j)) \<in> {0..1})" if "j < nat n" for j
    using boot_draws_range [of j "nat n" "fst (ds ! j)" "fst (snd (ds ! j))" "snd (snd (ds ! j))" 0 r] that ds by simp
  have ok: "driver_ok (boot_driver j (ds ! j) zero_driver)" if "j < nat n" for j
    using boot_driver_ok(1) [of "fst (ds ! j)" "fst (snd (ds ! j))" j "snd (snd (ds ! j))"] rng [OF that] by simp
  have small: "j < MAX_DRIVERS" if "j < nat n" for j using that assms by (simp add: MAX_DRIVERS_def)
  have "state_ok ?s"
    by (rule state_ok_nth) (use fr wf assms ok cell small in \<open>auto simp: zero_state_def\<close>)
  moreover have "let d = drivers ?s ! i in driver_id d = 1001 + of_nat i \<and> status_of d = Available \<and> fuel d = 10
         \<and> in_map (cell_x d) (cell_y d) \<and> d_lit (35 / 10) \<le> rating d \<and> rating d \<le> d_lit 5
         \<and> (i < 2 \<longrightarrow> VIP_RATING_THRESHOLD \<le> rating d)" if "i < nat n" for i
  proof -
    obtain a b c where abc: "ds ! i = (a, b, c)" by (cases "ds ! i")
    have r: "a \<in> {0..99}" "b \<in> {0..99}" "c \<in> {0..14}" "i < 2 \<longrightarrow> c \<in> {0..1}" using rng [OF that] abc by simp_all
    have d: "drivers ?s ! i = boot_driver i (a, b, c) zero_driver" using cell [OF small [OF that]] that abc by simp
    have f: "driver_id (drivers ?s ! i) = 1001 + of_nat i" "status_of (drivers ?s ! i) = Available"
      "fuel (drivers ?s ! i) = 10" "rating (drivers ?s ! i) = boot_rating i c"
      unfolding d by (simp_all add: boot_driver_def status_of_def)
    show ?thesis
      using boot_rating_bounds [OF r(3,4)] boot_driver_ok(2) [OF r(1,2), of i c]
      unfolding cell_x_def cell_y_def Let_def d f [unfolded d] by blast
  qed
  moreover have "\<forall>i < nat n. rides_count (drivers ?s ! i) = 0"
    using cell [OF small] by (simp add: boot_driver_def zero_driver_def split_beta)
  moreover have "total_success_requests ?s = 0" "total_revenue ?s = 0" "driver_count ?s = n" "dispatch_mode ?s = mode"
    using fr by (simp_all add: zero_state_def)
  ultimately show ?thesis using s by blast
qed

text \<open>
  C31: the fresh fleet: for every driver count from 0 to 256 the shared state is consistent, driver i has
  number 1001 + i, is available with a full tank, stands on a cell of the map and is rated from 3.5 to
  5.0; the first two reach the VIP threshold.
\<close>

theorem server_init_fleet:
  assumes "0 \<le> n" "n \<le> 256"
  shows "\<exists>s r'. server_init n mode r = Some (s, r') \<and> state_ok s \<and> driver_count s = n \<and> dispatch_mode s = mode
    \<and> (\<forall>i < nat n. let d = drivers s ! i in driver_id d = 1001 + of_nat i \<and> status_of d = Available \<and> fuel d = 10
         \<and> in_map (cell_x d) (cell_y d) \<and> d_lit (35 / 10) \<le> rating d \<and> rating d \<le> d_lit 5
         \<and> (i < 2 \<longrightarrow> VIP_RATING_THRESHOLD \<le> rating d))"
  using server_init_facts [OF assms, where r = r and mode = mode] by blast

theorem server_init_fleet_witness:
  "\<exists>s r'. server_init 3 1 (sconst 0) = Some (s, r') \<and> state_ok s \<and> driver_count s = 3"
  using server_init_fleet [where n = 3 and r = "sconst 0" and mode = 1] by auto

end
