(* ===== verification/Insecure_Dispatcher.thy ===== *)
theory Insecure_Dispatcher
  imports Worker_Pool Sockets
begin

text \<open>
  src/server/insecure_dispatcher.c, the worker of the demonstration server without security, the pool
  that runs it (\<open>start_coordinator_process_insecure\<close>, src/server/coordinator.c) and its \<open>main\<close>
  (src/server/insecure_server.c). The type byte of its reply header is never set: \<open>junk\<close> is what the
  stack holds there.
\<close>

section \<open>One connection\<close>

definition insecure_header :: "u8 \<Rightarrow> u8 list \<Rightarrow> u16 \<Rightarrow> ProtocolHeader" where
  "insecure_header junk msg opcode =
     \<lparr>h_length = of_nat (length msg), h_type = junk, h_opcode = opcode, h_checksum = calculate_checksum msg\<rparr>"

definition send_response_packet_insecure :: "u8 \<Rightarrow> u8 list \<Rightarrow> u16 \<Rightarrow> Conn \<Rightarrow> Conn" where
  "send_response_packet_insecure junk msg opcode c =
     send_bytes msg (send_bytes (header_bytes (insecure_header junk msg opcode)) c)"

definition process_ride_request_insecure_wrapper :: "u8 \<Rightarrow> Conn \<Rightarrow> Worker \<Rightarrow> Conn \<times> Worker" where
  "process_ride_request_insecure_wrapper junk c w =
     (let req = ride_request_of (body_buf c);
          (res, resp_msg, r, s) = handle_ride_request_logic (sint (req_client_id req)) 256 (gen w) (shared w)
      in (send_response_packet_insecure junk (c_bytes resp_msg) OP_RESPONSE c, w\<lparr>shared := s, gen := r\<rparr>))"

text \<open>The packet is read as in the secure dispatcher, but once, and neither decrypted nor checked.\<close>

definition handle_client_insecure :: "u8 \<Rightarrow> Conn \<Rightarrow> Worker \<Rightarrow> Conn \<times> Worker" where
  "handle_client_insecure junk c w =
     (case read_packet c of
        (None, c) \<Rightarrow> (c, w)
      | (Some header, c) \<Rightarrow>
          if h_opcode header = OP_REQ_RIDE then process_ride_request_insecure_wrapper junk c w
          else if h_opcode header = OP_DRIVER_JOIN
            then let (c, s) = process_driver_join c (shared w) in (c, w\<lparr>shared := s\<rparr>)
          else (c, w))"

fun dispatcher_loop_insecure :: "(u8 \<times> Conn) option list \<Rightarrow> Worker \<Rightarrow> Worker" where
  "dispatcher_loop_insecure [] w = w"
| "dispatcher_loop_insecure (None # as) w = dispatcher_loop_insecure as w"
| "dispatcher_loop_insecure (Some (junk, c) # as) w = dispatcher_loop_insecure as (snd (handle_client_insecure junk c w))"

definition start_coordinator_process_insecure :: "bool list \<Rightarrow> rng \<Rightarrow> rng \<Rightarrow> save_file \<Rightarrow> SharedState \<Rightarrow> Pool option" where
  "start_coordinator_process_insecure forks r seeded f s =
     (case fork_workers (take WORKER_COUNT forks) r of
        None \<Rightarrow> None
      | Some ws \<Rightarrow> Some \<lparr>pool_shared = s, workers = ws, monitor = seeded, data_file = f, g_running = True, waiting = True\<rparr>)"

text \<open>
  \<open>main\<close>: exactly two arguments; the socket is opened before the shared memory. A \<open>mmap\<close> or a \<open>fork\<close> that fails
  exits with the code 1.
\<close>

definition insecure_main :: "int list \<Rightarrow> kernel \<Rightarrow> bool \<Rightarrow> SharedState \<Rightarrow> bool list \<Rightarrow> rng \<Rightarrow> rng \<Rightarrow> save_file \<Rightarrow> int + Pool" where
  "insecure_main args k mmap_ok garbage forks r seeded f =
     (case args of
        [port, n] \<Rightarrow>
          if fst (create_server_socket k port) < 0 then Inl 1
          else (case ipc_start mmap_ok garbage f n of
                  None \<Rightarrow> Inl 1
                | Some s \<Rightarrow>
                    (case start_coordinator_process_insecure forks r seeded f s of
                       None \<Rightarrow> Inl 1
                     | Some p \<Rightarrow> Inr p))
      | _ \<Rightarrow> Inl 1)"

section \<open>Properties\<close>

context shared_invariant
begin

lemma insecure_keeps:
  assumes "inv (shared w)" shows "inv (shared (snd (handle_client_insecure junk c w)))"
  using assms ride_keeps join_keeps
  by (auto simp: handle_client_insecure_def process_ride_request_insecure_wrapper_def process_driver_join_def
      split_beta Let_def split: option.splits)

lemma insecure_loop_keeps: "inv (shared w) \<Longrightarrow> inv (shared (dispatcher_loop_insecure as w))"
  by (induction as w rule: dispatcher_loop_insecure.induct) (simp_all add: insecure_keeps)

end

text \<open>
  the insecure server serves every packet with the opcode of a ride request: whatever its message
  type, its checksum, its encryption and the number of requests of that client so far, the first four
  bytes of the body are taken as the client id, the ride service is called once, and the reply goes out
  in clear. The tables of the rate limiter are not touched.
\<close>

theorem insecure_serves_everything:
  assumes "rx_clean es" "rx_bytes es = header_bytes h @ body @ rest" "h_opcode h = OP_REQ_RIDE"
    and "length body = unat (h_length h)" "length body \<le> 1024"
    and "client_id = sint (req_client_id (ride_request_of (overlay body bb)))"
    and "handle_ride_request_logic client_id 256 (gen w) (shared w) = (res, text, r', s')"
  shows "\<exists>c'. handle_client_insecure junk (new_conn es hb bb) w = (c', w\<lparr>shared := s', gen := r'\<rparr>)
    \<and> sent c' = header_bytes (insecure_header junk (c_bytes text) OP_RESPONSE) @ c_bytes text
    \<and> client_last_seen s' = client_last_seen (shared w) \<and> client_req_count s' = client_req_count (shared w)"
proof -
  have c: "rx_clean (rx (new_conn es hb bb))" "rx_bytes (rx (new_conn es hb bb)) = header_bytes h @ body @ rest"
    using assms(1,2) by (simp_all add: new_conn_def)
  obtain es' where "read_packet (new_conn es hb bb) = (Some h, (new_conn es hb bb)\<lparr>rx := es',
      header_buf := overlay (header_bytes h) (header_buf (new_conn es hb bb)),
      body_buf := overlay body (body_buf (new_conn es hb bb))\<rparr>)"
    by (rule read_packet_clean [OF c assms(4,5)])
  moreover have "client_last_seen s' = client_last_seen (shared w)" "client_req_count s' = client_req_count (shared w)"
    using ride_keeps_tables [of client_id 256 "gen w" "shared w"] assms(7) by simp_all
  ultimately show ?thesis
    using assms(3,6,7)
    by (simp add: handle_client_insecure_def process_ride_request_insecure_wrapper_def send_response_packet_insecure_def
        new_conn_def)
qed

theorem insecure_serves_everything_witness:
  "\<exists>c'. handle_client_insecure 99 (new_conn
       [Data (header_bytes \<lparr>h_length = 0, h_type = 77, h_opcode = OP_REQ_RIDE, h_checksum = 1\<rparr>)] [] []) (idle_worker zero_state)
     = (c', idle_worker zero_state)
   \<and> sent c' = header_bytes (insecure_header 99 (c_bytes no_driver_text) OP_RESPONSE) @ c_bytes no_driver_text"
proof -
  let ?h = "\<lparr>h_length = 0, h_type = 77, h_opcode = OP_REQ_RIDE, h_checksum = 1\<rparr>"
  have r: "handle_ride_request_logic i 256 (gen (idle_worker zero_state)) (shared (idle_worker zero_state)) =
      (- 1, no_driver_text, sconst 0, zero_state)" for i
    by (simp add: idle_worker_def handle_ride_request_logic_def pick_driver_def find_driver_basic_def
        active_drivers_def snprintf_def no_driver_text_def zero_state_def Let_def)
  have w: "(idle_worker zero_state)\<lparr>shared := zero_state, gen := sconst 0\<rparr> = idle_worker zero_state"
    by (simp add: idle_worker_def)
  have es: "rx_clean [Data (header_bytes ?h)]" "rx_bytes [Data (header_bytes ?h)] = header_bytes ?h @ [] @ []"
    by (simp_all add: rx_clean_def header_bytes_def)
  from insecure_serves_everything [OF es _ _ _ refl r, of 99 "[]"] show ?thesis unfolding w by auto
qed

end
