(* ===== verification/Critical_Sections.thy ===== *)
theory Critical_Sections
  imports Worker_Pool
begin

text \<open>
  The critical sections of the server: everything any process does to the shared memory between
  \<open>pthread_mutex_lock\<close> and \<open>pthread_mutex_unlock\<close>, as one datatype (resource_service.c,
  ride_service.c, coordinator.c and map_monitor.c have one each). A run of the server is a sequence of
  sections: what this theory shows of every sequence are the fields that never change, so that a reply
  may be written after the unlock, and the ranges of the counters.
\<close>

section \<open>The four sections\<close>

datatype critical = Limit int int | Serve int rng | Join u32 | Round rng

fun exec :: "critical \<Rightarrow> SharedState \<Rightarrow> SharedState" where
  "exec (Limit c now) s = snd (check_and_update_rate_limit c now s)"
| "exec (Serve c r) s = snd (snd (snd (handle_ride_request_logic c 256 r s)))"
| "exec (Join d) s = join_driver d s"
| "exec (Round r) s = snd (map_tick r s)"

lemma serve_len: "snd (snd (snd (handle_ride_request_logic c n r s))) = exec (Serve c r) s"
  by (simp add: handle_ride_request_logic_def split_beta Let_def)

text \<open>The interference a worker meets between two of its sections is a sequence of sections.\<close>

lemma interference_iff: "interference env \<longleftrightarrow> (\<exists>cs. env = fold exec cs)"
proof
  assume "interference env"
  then show "\<exists>cs. env = fold exec cs"
  proof (induction rule: interference.induct)
    case nothing
    show ?case by (rule exI [of _ "[]"]) (simp add: fun_eq_iff)
  next
    case (limit env c now)
    then obtain cs where "env = fold exec cs" by blast
    then show ?case by (intro exI [of _ "cs @ [Limit c now]"]) (simp add: fun_eq_iff)
  next
    case (ride env c n r)
    then obtain cs where "env = fold exec cs" by blast
    then show ?case by (intro exI [of _ "cs @ [Serve c r]"]) (simp add: fun_eq_iff serve_len del: exec.simps)
  next
    case (join env d)
    then obtain cs where "env = fold exec cs" by blast
    then show ?case by (intro exI [of _ "cs @ [Join d]"]) (simp add: fun_eq_iff)
  next
    case (round env r)
    then obtain cs where "env = fold exec cs" by blast
    then show ?case by (intro exI [of _ "cs @ [Round r]"]) (simp add: fun_eq_iff)
  qed
next
  have "interference (fold exec cs)" for cs
  proof (induction cs rule: rev_induct)
    case Nil
    show ?case using interference.nothing by (simp add: id_def)
  next
    case (snoc c cs)
    have e: "fold exec (cs @ [c]) = (\<lambda>s. exec c (fold exec cs s))" by (simp add: fun_eq_iff)
    note keep = interference.limit [OF snoc] interference.ride [OF snoc, where n = 256] interference.join [OF snoc]
      interference.round [OF snoc]
    show ?case unfolding e by (cases c) (simp_all only: exec.simps keep)
  qed
  then show "\<exists>cs. env = fold exec cs \<Longrightarrow> interference env" by blast
qed

context pool_invariant
begin

lemma exec_keeps: "inv s \<Longrightarrow> inv (exec c s)"
  by (cases c) (auto intro: limit_keeps ride_keeps join_keeps tick_keeps)

lemma execs_keep: "inv s \<Longrightarrow> inv (fold exec cs s)"
  by (induction cs arbitrary: s) (simp_all add: exec_keeps)

end

section \<open>Runs of the server are sequences of sections\<close>

definition made_from :: "SharedState \<Rightarrow> SharedState \<Rightarrow> bool" where
  "made_from s0 s \<longleftrightarrow> state_ok s \<and> (\<exists>cs. s = fold exec cs s0)"

lemma made_from_exec: "made_from s0 s \<Longrightarrow> state_ok (exec c s) \<Longrightarrow> made_from s0 (exec c s)"
proof -
  assume a: "made_from s0 s" "state_ok (exec c s)"
  then obtain cs where "s = fold exec cs s0" by (auto simp: made_from_def)
  then have "exec c s = fold exec (cs @ [c]) s0" by simp
  with a(2) show ?thesis unfolding made_from_def by blast
qed

interpretation trace: pool_invariant "made_from s0" for s0
proof unfold_locales
  fix s assume m: "made_from s0 s"
  then show ok: "state_ok s" by (simp add: made_from_def)
  note keep = made_from_exec [OF m fleet.exec_keeps [OF ok]]
  show "made_from s0 (snd (check_and_update_rate_limit c now s))" for c now using keep [of "Limit c now"] by simp
  show "made_from s0 (snd (snd (snd (handle_ride_request_logic c n r s))))" for c n r
    using keep [of "Serve c r"] by (simp only: serve_len)
  show "made_from s0 (join_driver d s)" for d using keep [of "Join d"] by simp
  show "made_from s0 (snd (map_tick r s))" for r using keep [of "Round r"] by simp
qed

lemma pool_trace:
  assumes "pool_reach p p'" "state_ok (pool_shared p)"
  obtains cs where "pool_shared p' = fold exec cs (pool_shared p)"
proof -
  have "made_from (pool_shared p) (pool_shared p)"
    unfolding made_from_def using assms(2) by (auto intro: exI [of _ "[]"])
  from trace.reach_keeps [OF assms(1) this] that show thesis by (auto simp: made_from_def)
qed

end
