(* ===== verification/Shutdown.thy ===== *)
theory Shutdown
  imports Server_Main Insecure_Dispatcher Critical_Sections
begin

text \<open>
  The end of a server process: its main thread leaves the coordinator (coordinator.c: the loop of
  \<open>start_coordinator_process\<close>, \<open>handle_sigint\<close>, \<open>ipc_cleanup\<close>; server_main.c: \<open>cleanup_resources\<close>;
  insecure_server.c: \<open>main\<close>) while the detached map thread (map_monitor.c) still runs on the same memory. The
  two threads take steps in any order; a round of the map thread and the writing of the file are one step
  each (\<open>Mutex_Properties\<close> cuts them finer).
\<close>

section \<open>The two threads\<close>

datatype server = Secure | Insecure

datatype main_at = In_wait | Handler_save | Handler_unmap | Main_save | Main_unmap | Exiting | Exited

text \<open>
  The map thread before the tests of \<open>g_running\<close> and \<open>g_shared_state\<close>, before its round and before its drawing; after
  its return, and after an access to memory that is not mapped, which kills the process.
\<close>

datatype map_at = Test | Round_next | Draw_next | Ended | Faulted

record Ending =
  main_thread :: main_at
  map_thread :: map_at
  g_shared_state :: pointer
  running :: bool
  saved_file :: save_file
  map_rand :: rng

text \<open>\<open>cleanup_resources\<close> unmaps the memory and leaves the pointer as it is.\<close>

fun cleanup_mapping :: "pointer \<Rightarrow> pointer" where
  "cleanup_mapping Null = Null"
| "cleanup_mapping (Mapped s) = Dangling"
| "cleanup_mapping Dangling = Dangling"

fun main_unmap :: "server \<Rightarrow> pointer \<Rightarrow> pointer" where
  "main_unmap Secure g = cleanup_mapping g"
| "main_unmap Insecure g = ipc_cleanup g"

text \<open>
  The steps of server \<open>k\<close>, where \<open>wr\<close> is what writing the file gives and \<open>childless\<close> says that no worker is left. The
  insecure server saves in the handler of SIGINT only.
\<close>

inductive ending_step :: "server \<Rightarrow> write_result \<Rightarrow> bool \<Rightarrow> Ending \<Rightarrow> Ending \<Rightarrow> bool" for k wr childless where
  no_child: "ending_step k wr childless e (e\<lparr>main_thread := if k = Secure then Main_save else Main_unmap\<rparr>)"
    if "main_thread e = In_wait" "childless" "map_thread e \<noteq> Faulted"
| sigint: "ending_step k wr childless e (e\<lparr>main_thread := Handler_save, running := False\<rparr>)"
    if "main_thread e = In_wait" "map_thread e \<noteq> Faulted"
| handler_save: "ending_step k wr childless e (e\<lparr>main_thread := Handler_unmap, saved_file := save_state wr s (saved_file e)\<rparr>)"
    if "main_thread e = Handler_save" "g_shared_state e = Mapped s" "map_thread e \<noteq> Faulted"
| main_save: "ending_step k wr childless e (e\<lparr>main_thread := Main_unmap, saved_file := save_data_to_file wr s (saved_file e)\<rparr>)"
    if "main_thread e = Main_save" "g_shared_state e = Mapped s" "map_thread e \<noteq> Faulted"
| handler_unmap: "ending_step k wr childless e (e\<lparr>main_thread := Exiting, g_shared_state := ipc_cleanup (g_shared_state e)\<rparr>)"
    if "main_thread e = Handler_unmap" "map_thread e \<noteq> Faulted"
| main_unmap: "ending_step k wr childless e (e\<lparr>main_thread := Exiting, g_shared_state := main_unmap k (g_shared_state e)\<rparr>)"
    if "main_thread e = Main_unmap" "map_thread e \<noteq> Faulted"
| exit: "ending_step k wr childless e (e\<lparr>main_thread := Exited\<rparr>)"
    if "main_thread e = Exiting" "map_thread e \<noteq> Faulted"
| test: "ending_step k wr childless e
      (e\<lparr>map_thread := if \<not> running e then Ended else if g_shared_state e \<noteq> Null then Round_next else Test\<rparr>)"
    if "main_thread e \<noteq> Exited" "map_thread e = Test"
| round: "ending_step k wr childless e (e\<lparr>map_thread := Draw_next, map_rand := fst (map_tick (map_rand e) s),
      g_shared_state := Mapped (snd (map_tick (map_rand e) s))\<rparr>)"
    if "main_thread e \<noteq> Exited" "map_thread e = Round_next" "g_shared_state e = Mapped s"
| draw: "ending_step k wr childless e (e\<lparr>map_thread := Test\<rparr>)"
    if "main_thread e \<noteq> Exited" "map_thread e = Draw_next" "g_shared_state e = Mapped s"
| fault: "ending_step k wr childless e (e\<lparr>map_thread := Faulted\<rparr>)"
    if "main_thread e \<noteq> Exited" "map_thread e \<in> {Round_next, Draw_next}" "g_shared_state e \<in> {Null, Dangling}"

abbreviation ending_reach :: "server \<Rightarrow> write_result \<Rightarrow> bool \<Rightarrow> Ending \<Rightarrow> Ending \<Rightarrow> bool" where
  "ending_reach k wr childless \<equiv> (ending_step k wr childless)\<^sup>*\<^sup>*"

definition ending :: "Pool \<Rightarrow> Ending" where
  "ending p = \<lparr>main_thread = In_wait, map_thread = Test, g_shared_state = Mapped (pool_shared p), running = g_running p,
     saved_file = data_file p, map_rand = monitor p\<rparr>"

section \<open>The exit races with the map thread\<close>

lemma handler_fault:
  assumes "g_running p"
  shows "\<exists>e. ending_reach k wr childless (ending p) e \<and> map_thread e = Faulted \<and> \<not> running e
    \<and> saved_file e = save_state wr (pool_shared p) (data_file p)"
proof -
  let ?e1 = "(ending p)\<lparr>map_thread := Round_next\<rparr>"
  let ?e2 = "?e1\<lparr>main_thread := Handler_save, running := False\<rparr>"
  let ?e3 = "?e2\<lparr>main_thread := Handler_unmap, saved_file := save_state wr (pool_shared p) (saved_file ?e2)\<rparr>"
  let ?e4 = "?e3\<lparr>main_thread := Exiting, g_shared_state := ipc_cleanup (g_shared_state ?e3)\<rparr>"
  have "ending_step k wr childless (ending p) ?e1"
    using ending_step.test [of "ending p" k wr childless] assms by (simp add: ending_def)
  moreover have "ending_step k wr childless ?e1 ?e2" by (rule ending_step.sigint) (simp_all add: ending_def)
  moreover have "ending_step k wr childless ?e2 ?e3" by (rule ending_step.handler_save) (simp_all add: ending_def)
  moreover have "ending_step k wr childless ?e3 ?e4" by (rule ending_step.handler_unmap) (simp_all add: ending_def)
  moreover have "ending_step k wr childless ?e4 (?e4\<lparr>map_thread := Faulted\<rparr>)" by (rule ending_step.fault) (simp_all add: ending_def)
  ultimately have "ending_reach k wr childless (ending p) (?e4\<lparr>map_thread := Faulted\<rparr>)"
    by (meson r_into_rtranclp rtranclp_trans)
  then show ?thesis by (intro exI [of _ "?e4\<lparr>map_thread := Faulted\<rparr>"]) (simp add: ending_def)
qed

lemma childless_fault:
  assumes "g_running p"
  shows "\<exists>e. ending_reach k wr True (ending p) e \<and> map_thread e = Faulted \<and> running e
    \<and> saved_file e = (if k = Secure then save_data_to_file wr (pool_shared p) (data_file p) else data_file p)"
proof -
  let ?e1 = "(ending p)\<lparr>map_thread := Round_next\<rparr>"
  let ?e2 = "?e1\<lparr>main_thread := if k = Secure then Main_save else Main_unmap\<rparr>"
  let ?e3 = "?e2\<lparr>main_thread := Main_unmap,
      saved_file := if k = Secure then save_data_to_file wr (pool_shared p) (data_file p) else data_file p\<rparr>"
  let ?e4 = "?e3\<lparr>main_thread := Exiting, g_shared_state := main_unmap k (g_shared_state ?e3)\<rparr>"
  have "ending_step k wr True (ending p) ?e1"
    using ending_step.test [of "ending p" k wr True] assms by (simp add: ending_def)
  moreover have "ending_step k wr True ?e1 ?e2" by (rule ending_step.no_child) (simp_all add: ending_def)
  moreover have "ending_reach k wr True ?e2 ?e3"
  proof (cases k)
    case Secure
    then show ?thesis using ending_step.main_save [of ?e2 "pool_shared p" k wr True] by (auto simp: ending_def)
  qed (simp add: ending_def)
  moreover have "ending_step k wr True ?e3 ?e4" by (rule ending_step.main_unmap) (simp_all add: ending_def)
  moreover have "ending_step k wr True ?e4 (?e4\<lparr>map_thread := Faulted\<rparr>)"
    by (rule ending_step.fault) (cases k; simp add: ending_def)+
  ultimately have "ending_reach k wr True (ending p) (?e4\<lparr>map_thread := Faulted\<rparr>)"
    by (meson r_into_rtranclp rtranclp_trans)
  then show ?thesis using assms by (intro exI [of _ "?e4\<lparr>map_thread := Faulted\<rparr>"]) (simp add: ending_def)
qed

text \<open>
  the main thread unmaps the shared memory while the map thread may be about to enter its round: in both
  servers, after SIGINT and after the death of the last worker alike, there is a run in which the map thread
  touches unmapped memory and kills the process, which then does not exit with the code 0.
\<close>

theorem exit_races_with_map:
  assumes "g_running p"
  shows "(\<exists>e. ending_reach k wr childless (ending p) e \<and> map_thread e = Faulted \<and> \<not> running e)
    \<and> (\<exists>e. ending_reach k wr True (ending p) e \<and> map_thread e = Faulted \<and> running e)"
  using handler_fault [OF assms] childless_fault [OF assms] by metis

theorem exit_races_with_map_witness:
  "\<exists>e. ending_reach Secure FullWrite True (ending demo_pool) e \<and> map_thread e = Faulted \<and> running e"
  using exit_races_with_map [of demo_pool Secure FullWrite True] by (simp add: demo_pool_def)

section \<open>The file is written before\<close>

definition still_mapped :: "SharedState \<Rightarrow> Ending \<Rightarrow> bool" where
  "still_mapped s e \<longleftrightarrow> (\<exists>t. g_shared_state e = Mapped t \<and> made_from s t)"

definition file_saved :: "write_result \<Rightarrow> SharedState \<Rightarrow> save_file \<Rightarrow> Ending \<Rightarrow> bool" where
  "file_saved wr s f e \<longleftrightarrow> (\<exists>t. made_from s t \<and> saved_file e = save_state wr t f)"

definition ending_inv :: "server \<Rightarrow> write_result \<Rightarrow> SharedState \<Rightarrow> save_file \<Rightarrow> Ending \<Rightarrow> bool" where
  "ending_inv k wr s f e \<longleftrightarrow>
     (case main_thread e of
        In_wait \<Rightarrow> still_mapped s e \<and> saved_file e = f \<and> running e
      | Handler_save \<Rightarrow> still_mapped s e \<and> saved_file e = f \<and> \<not> running e
      | Main_save \<Rightarrow> still_mapped s e \<and> saved_file e = f \<and> running e \<and> k = Secure
      | Handler_unmap \<Rightarrow> still_mapped s e \<and> file_saved wr s f e \<and> \<not> running e
      | Main_unmap \<Rightarrow> still_mapped s e \<and> running e \<and> (if k = Secure then file_saved wr s f e else saved_file e = f)
      | _ \<Rightarrow> (\<forall>t. g_shared_state e \<noteq> Mapped t) \<and> (if k = Secure \<or> \<not> running e then file_saved wr s f e else saved_file e = f))
     \<and> (map_thread e = Faulted \<longrightarrow> main_thread e \<in> {Exiting, Exited})"

lemma save_data_is_save_state: "save_data_to_file wr s f = save_state wr s f"
  by (simp add: save_data_to_file_def save_state_def)

lemma unmapped: "ipc_cleanup g \<noteq> Mapped t" "main_unmap k g \<noteq> Mapped t"
  by (cases g; cases k; simp)+

lemma ending_inv_step: "ending_step k wr childless e e' \<Longrightarrow> ending_inv k wr s f e \<Longrightarrow> ending_inv k wr s f e'"
proof (induction rule: ending_step.induct)
  case (round e t)
  have "made_from s t \<Longrightarrow> made_from s (snd (map_tick (map_rand e) t))" by (rule trace.tick_keeps)
  with round show ?case
    by (cases "main_thread e"; cases k) (simp_all add: ending_inv_def still_mapped_def file_saved_def)
next
  case (fault e)
  then show ?case by (cases "main_thread e") (auto simp: ending_inv_def still_mapped_def file_saved_def)
next
  case (test e)
  then show ?case by (cases "main_thread e") (auto simp: ending_inv_def still_mapped_def file_saved_def)
next
  case (draw e t)
  then show ?case by (cases "main_thread e") (auto simp: ending_inv_def still_mapped_def file_saved_def)
next
  case (main_save e t)
  then show ?case by (auto simp: ending_inv_def still_mapped_def file_saved_def save_data_is_save_state)
next
  case (no_child e)
  then show ?case by (cases k) (auto simp: ending_inv_def still_mapped_def file_saved_def)
next
  case (exit e)
  then show ?case by (auto simp: ending_inv_def still_mapped_def file_saved_def)
next
  case (main_unmap e)
  then show ?case by (cases k) (simp_all add: ending_inv_def still_mapped_def file_saved_def unmapped del: main_unmap.simps)
next
  case (handler_unmap e)
  then show ?case by (simp add: ending_inv_def still_mapped_def file_saved_def unmapped)
qed (auto simp: ending_inv_def still_mapped_def file_saved_def)

lemma ending_inv_reach:
  assumes "ending_reach k wr childless (ending p) e" "g_running p" "state_ok (pool_shared p)"
  shows "ending_inv k wr (pool_shared p) (data_file p) e"
  using assms(1)
proof (induction rule: rtranclp_induct)
  case base
  have "made_from (pool_shared p) (pool_shared p)"
    unfolding made_from_def using assms(3) by (auto intro: exI [of _ "[]"])
  with assms(2) show ?case by (simp add: ending_inv_def still_mapped_def ending_def)
qed (rule ending_inv_step)



section \<open>A signal before the coordinator\<close>

text \<open>
  SIGINT while \<open>handle_signal\<close> is still installed: the workers are forked all the same, the map thread returns at once and
  the coordinator's loop is not entered. The server exits with the code 0 and leaves its workers behind.
\<close>

definition interrupted_start :: "Pool \<Rightarrow> Pool" where
  "interrupted_start p = (let r = handle_signal SIGINT (g_running p) in p\<lparr>g_running := r, waiting := r\<rparr>)"

lemma early_sigint_leaves_workers:
  assumes "start_coordinator_process forks r seeded f s = Some p" "length forks = WORKER_COUNT" "state_ok s"
    and "limited_id c" "i < WORKER_COUNT"
  shows "server_finish wr (interrupted_start p) = Exit 0 (cleanup_resources wr s f)"
    "\<exists>p'. session_step c now (interrupted_start p) p' \<and> seen_in c now (pool_shared p') = seen_in c now s + 1"
proof -
  note p = started [OF assms(1,2)]
  let ?q = "interrupted_start p"
  have q: "pool_shared ?q = s" "data_file ?q = f" "workers ?q = replicate WORKER_COUNT (Some r)"
    by (simp_all add: interrupted_start_def p Let_def)
  show "server_finish wr ?q = Exit 0 (cleanup_resources wr s f)" by (simp add: server_finish_def q)
  show "\<exists>p'. session_step c now ?q p' \<and> seen_in c now (pool_shared p') = seen_in c now s + 1"
    using session_serves [of ?q c i r now] assms(3-5) q by auto
qed

end
