(* ===== verification/Log_System.thy ===== *)
theory Log_System
  imports RH_Prelude
begin

text \<open>
  src/common/log_system.c: the log target \<open>log_fp\<close>, its opening and closing, and the log lines. The
  variadic message is an argument, formatted already; the calendar time is the record \<open>tm\<close> that
  \<open>localtime\<close> returns. What has been written is the content of stderr and of the files, by name.
\<close>

section \<open>State\<close>

datatype log_target = Stderr | LogFile string

record Log =
  log_fp :: "log_target option"
  err_text :: string
  file_text :: "string \<Rightarrow> string"

definition emit :: "log_target \<Rightarrow> string \<Rightarrow> Log \<Rightarrow> Log" where
  "emit t txt l =
     (case t of Stderr \<Rightarrow> l\<lparr>err_text := err_text l @ txt\<rparr>
      | LogFile f \<Rightarrow> l\<lparr>file_text := (file_text l)(f := file_text l f @ txt)\<rparr>)"

text \<open>What the target holds so far.\<close>

definition written :: "log_target \<Rightarrow> Log \<Rightarrow> string" where
  "written t l = (case t of Stderr \<Rightarrow> err_text l | LogFile f \<Rightarrow> file_text l f)"

lemma written_emit [simp]: "written t' (emit t txt l) = (if t' = t then written t l @ txt else written t' l)"
  by (cases t; cases t') (auto simp: written_def emit_def)

lemma log_fp_emit [simp]: "log_fp (emit t txt l) = log_fp l"
  by (cases t) (simp_all add: emit_def)

section \<open>Operations\<close>

text \<open>\<open>can_open\<close> says for which names \<open>fopen(name, "a")\<close> succeeds; appending keeps what the file holds.\<close>

definition log_init :: "(string \<Rightarrow> bool) \<Rightarrow> string option \<Rightarrow> Log \<Rightarrow> Log" where
  "log_init can_open filename l =
     (case filename of
        Some f \<Rightarrow>
          if can_open f then l\<lparr>log_fp := Some (LogFile f)\<rparr>
          else (emit Stderr (''Failed to open log file '' @ f @ '', using stderr.'' @ [CHR 0x0A]) l)\<lparr>log_fp := Some Stderr\<rparr>
      | None \<Rightarrow> l\<lparr>log_fp := Some Stderr\<rparr>)"

definition log_cleanup :: "Log \<Rightarrow> Log" where
  "log_cleanup l = (case log_fp l of Some (LogFile f) \<Rightarrow> l\<lparr>log_fp := None\<rparr> | _ \<Rightarrow> l)"

record tm =
  tm_year :: nat
  tm_mon :: nat
  tm_mday :: nat
  tm_hour :: nat
  tm_min :: nat
  tm_sec :: nat

text \<open>\<open>"%Y-%m-%d %H:%M:%S"\<close>\<close>

definition time_str :: "tm \<Rightarrow> string" where
  "time_str t = show_nat (tm_year t) @ ''-'' @ pad_digits 2 (tm_mon t) @ ''-'' @ pad_digits 2 (tm_mday t) @ '' ''
     @ pad_digits 2 (tm_hour t) @ '':'' @ pad_digits 2 (tm_min t) @ '':'' @ pad_digits 2 (tm_sec t)"

definition log_line :: "string \<Rightarrow> tm \<Rightarrow> string \<Rightarrow> string" where
  "log_line level t msg = ''['' @ time_str t @ ''] ['' @ level @ ''] '' @ msg @ [CHR 0x0A]"

definition log_base :: "string \<Rightarrow> tm \<Rightarrow> string \<Rightarrow> Log \<Rightarrow> Log" where
  "log_base level t msg l =
     (let l = (if log_fp l = None then l\<lparr>log_fp := Some Stderr\<rparr> else l)
      in emit (the (log_fp l)) (log_line level t msg) l)"

definition log_info :: "tm \<Rightarrow> string \<Rightarrow> Log \<Rightarrow> Log" where "log_info = log_base ''INFO''"
definition log_warn :: "tm \<Rightarrow> string \<Rightarrow> Log \<Rightarrow> Log" where "log_warn = log_base ''WARN''"
definition log_error :: "tm \<Rightarrow> string \<Rightarrow> Log \<Rightarrow> Log" where "log_error = log_base ''ERROR''"

text \<open>\<open>DEBUG\<close> is not defined by the build, so \<open>log_debug\<close> does nothing.\<close>

definition log_debug :: "tm \<Rightarrow> string \<Rightarrow> Log \<Rightarrow> Log" where "log_debug t msg l = l"

datatype log_call = Info tm string | Warn tm string | Error tm string | Debug tm string

fun do_log :: "log_call \<Rightarrow> Log \<Rightarrow> Log" where
  "do_log (Info t m) = log_info t m"
| "do_log (Warn t m) = log_warn t m"
| "do_log (Error t m) = log_error t m"
| "do_log (Debug t m) = log_debug t m"

section \<open>What the log holds\<close>

fun line_of :: "log_call \<Rightarrow> string" where
  "line_of (Info t m) = log_line ''INFO'' t m"
| "line_of (Warn t m) = log_line ''WARN'' t m"
| "line_of (Error t m) = log_line ''ERROR'' t m"
| "line_of (Debug t m) = []"

lemma do_log_target:
  assumes "log_fp l = Some t"
  shows "log_fp (do_log c l) = Some t"
    "written t' (do_log c l) = written t' l @ (if t' = t then line_of c else [])"
  using assms by (cases c; simp add: log_info_def log_warn_def log_error_def log_debug_def log_base_def)+

lemma do_logs_target:
  assumes "log_fp l = Some t"
  shows "written t' (fold do_log cs l) = written t' l @ (if t' = t then concat (map line_of cs) else [])"
  using assms
proof (induction cs arbitrary: l)
  case (Cons c cs)
  from Cons.IH [OF do_log_target(1) [OF Cons.prems]] show ?case
    using do_log_target(2) [OF Cons.prems] by simp
qed simp

lemma log_init_target:
  "log_fp (log_init ok f l) = Some (case f of Some name \<Rightarrow> if ok name then LogFile name else Stderr | None \<Rightarrow> Stderr)"
  by (cases f) (simp_all add: log_init_def)

text \<open>
  after \<open>log_init\<close> every sequence of log calls appends exactly its lines, in their order, to the
  chosen target and nothing to any other, and keeps what a log file held before. A file that cannot be
  opened is replaced by stderr, after a message that says so.
\<close>

theorem log_appends:
  shows "written t (fold do_log cs (log_init ok filename l)) =
    written t l
    @ (if t = Stderr \<and> (\<exists>f. filename = Some f \<and> \<not> ok f)
       then ''Failed to open log file '' @ the filename @ '', using stderr.'' @ [CHR 0x0A] else [])
    @ (if t = (case filename of Some f \<Rightarrow> if ok f then LogFile f else Stderr | None \<Rightarrow> Stderr)
       then concat (map line_of cs) else [])"
  unfolding do_logs_target [OF log_init_target]
  by (cases filename) (auto simp: log_init_def written_def emit_def split: log_target.splits)

text \<open>
  the time stamp fills \<open>time_str[20]\<close> exactly, with its terminating NUL, in every year of four
  digits, so every line starts with 23 characters and the level.
\<close>

theorem time_stamp_fits:
  assumes "1000 \<le> tm_year t" "tm_year t \<le> 9999"
  shows "length (time_str t) = 19"
proof -
  have d: "\<not> tm_year t < 10" "\<not> tm_year t div 10 < 10" "\<not> tm_year t div 10 div 10 < 10" "tm_year t div 10 div 10 div 10 < 10"
    using assms by (simp_all add: div_mult2_eq [symmetric] not_less less_eq_div_iff_mult_less_eq div_less_iff_less_mult)
  have "length (show_nat (tm_year t)) = 4"
    by (simp add: show_nat.simps [of "tm_year t"] show_nat.simps [of "tm_year t div 10"]
        show_nat.simps [of "tm_year t div 10 div 10"] show_nat.simps [of "tm_year t div 10 div 10 div 10"] d
        del: show_nat.simps)
  then show ?thesis by (simp add: time_str_def)
qed

theorem time_stamp_fits_witness:
  "time_str \<lparr>tm_year = 2025, tm_mon = 12, tm_mday = 6, tm_hour = 9, tm_min = 5, tm_sec = 59\<rparr> = ''2025-12-06 09:05:59''
   \<and> length ''2025-12-06 09:05:59'' = 19"
proof
  let ?t = "\<lparr>tm_year = 2025, tm_mon = 12, tm_mday = 6, tm_hour = 9, tm_min = 5, tm_sec = 59\<rparr> :: tm"
  show e: "time_str ?t = ''2025-12-06 09:05:59''"
    by code_simp
  show "length ''2025-12-06 09:05:59'' = 19" using time_stamp_fits [of ?t] e by simp
qed

end
