(* ===== verification/Counter_Widths.thy ===== *)
theory Counter_Widths
  imports Critical_Sections
begin

text \<open>
  The counters of the shared memory (src/common/include/shared_data.h) are integers of the model and
  \<open>int\<close>, \<open>long\<close> and \<open>time_t\<close> in the code. This theory describes what a critical section does to one
  cell of the driver array, and derives how fast the counters grow: within 2^31 sections none leaves its C type.
\<close>

section \<open>One cell of the driver array\<close>

inductive cell_change :: "Driver \<Rightarrow> Driver \<Rightarrow> bool" where
  keep: "cell_change d d"
| send: "cell_change d (dispatch_driver r1 r2 d)" if "eligible d" "r1 \<in> {0..89}" "r2 \<in> {0..179}"
| tick: "cell_change d (fst (tick_driver g d r))"

inductive_cases cell_changeE: "cell_change d d'"

definition joined :: "u32 \<Rightarrow> Driver \<Rightarrow> Driver" where
  "joined w d = d\<lparr>driver_id := w, is_available := True, fuel := 10\<rparr>"

lemma tick_list_nth:
  "i < length ds \<Longrightarrow> \<exists>r'. fst (tick_list g ds r) ! i = fst (tick_driver g (ds ! i) r')"
proof (induction ds arbitrary: r i)
  case (Cons d ds)
  then show ?case by (cases i) (auto simp: split_beta Let_def)
qed simp

lemma length_tick_list [simp]: "length (fst (tick_list g ds r)) = length ds"
  by (induction ds arbitrary: r) (simp_all add: split_beta Let_def)

lemma exec_round:
  assumes "wf_state s"
  shows "exec (Round r) s = s\<lparr>drivers := fst (tick_list init_map_obstacles (active_drivers s) r) @ drop (nat (driver_count s)) (drivers s)\<rparr>"
  by (simp add: map_tick_def split_beta Let_def)

lemma exec_serve:
  assumes "wf_state s"
  obtains "exec (Serve c r) s = s"
  | i r1 r2 fare where "i < nat (driver_count s)" "i < length (drivers s)" "eligible (drivers s ! i)"
      "r1 \<in> {0..89}" "r2 \<in> {0..179}" "fare = (if is_vip_client c then 150 else 100)"
      "exec (Serve c r) s = count_ride fare (update_driver i (dispatch_driver r1 r2) s)"
  using assms
proof (cases rule: ride_request_cases [where c = c and n = 256 and r = r])
  case fail
  then show thesis using that(1) by simp
next
  case (ok i)
  show thesis
    by (rule that(2) [OF ok(2-4) draw_ranges refl])
      (use ok(1,5) in \<open>simp add: ride_state_def\<close>)
qed

lemma exec_wf: "wf_state s \<Longrightarrow> wf_state (exec c s)"
proof (cases c)
  case (Serve i r)
  assume wf: "wf_state s"
  then show ?thesis unfolding Serve
    by (rule exec_serve [of s i r])
      (use wf in \<open>simp_all del: exec.simps add: count_ride_def wf_state_def update_driver_def\<close>)
next
  case (Round r)
  assume wf: "wf_state s"
  show ?thesis unfolding Round exec_round [OF wf] using wf by (auto simp: wf_state_def length_active_drivers [OF wf])
next
  case (Join w)
  then show "wf_state s \<Longrightarrow> wf_state (exec c s)" by (auto simp: join_driver_def Let_def wf_state_def update_driver_def)
qed (simp add: rate_limit_wf)

lemma exec_cell:
  assumes "wf_state s" "i < nat (driver_count s)"
  shows "cell_change (drivers s ! i) (drivers (exec c s) ! i)"
proof (cases c)
  case (Limit k now)
  then show ?thesis by (simp add: cell_change.keep)
next
  case (Serve k r)
  from assms(1) show ?thesis unfolding Serve
  proof (rule exec_serve [of s k r])
    fix j r1 r2 fare
    assume j: "j < nat (driver_count s)" "j < length (drivers s)" "eligible (drivers s ! j)" "r1 \<in> {0..89}" "r2 \<in> {0..179}"
      "exec (Serve k r) s = count_ride fare (update_driver j (dispatch_driver r1 r2) s)"
    have "drivers (exec (Serve k r) s) ! i = (if i = j then dispatch_driver r1 r2 (drivers s ! i) else drivers s ! i)"
      unfolding j(6) using j(2) by (simp add: count_ride_def update_driver_def nth_list_update)
    then show "cell_change (drivers s ! i) (drivers (exec (Serve k r) s) ! i)"
      using j(3-5) by (auto intro: cell_change.intros simp del: exec.simps)
  qed (simp only: cell_change.keep)
next
  case (Join w)
  then show ?thesis
    using assms by (auto simp: join_driver_def update_driver_def Let_def wf_state_def nth_list_update intro: cell_change.keep)
next
  case (Round r)
  have len: "i < length (active_drivers s)" using assms length_active_drivers by simp
  then obtain r' where "fst (tick_list init_map_obstacles (active_drivers s) r) ! i = fst (tick_driver init_map_obstacles (drivers s ! i) r')"
    using tick_list_nth active_drivers_nth by metis
  then show ?thesis unfolding Round exec_round [OF assms(1)] using len by (simp add: nth_append cell_change.tick)
qed

text \<open>An unused cell changes only when a driver joins in it.\<close>

lemma exec_unused:
  assumes "wf_state s" "nat (driver_count s) \<le> i" "i < MAX_DRIVERS" "0 \<le> driver_count s"
  shows "drivers (exec c s) ! i = drivers s ! i
    \<or> (\<exists>w. c = Join w \<and> i = nat (driver_count s) \<and> drivers (exec c s) ! i = joined w (drivers s ! i))"
proof (cases c)
  case (Serve k r)
  from assms(1) show ?thesis unfolding Serve
  proof (rule exec_serve [of s k r])
    fix j r1 r2 fare
    assume j: "j < nat (driver_count s)" "exec (Serve k r) s = count_ride fare (update_driver j (dispatch_driver r1 r2) s)"
    have "drivers (exec (Serve k r) s) ! i = drivers s ! i"
      unfolding j(2) using j(1) assms(2) by (simp add: count_ride_def update_driver_def)
    then show "drivers (exec (Serve k r) s) ! i = drivers s ! i
      \<or> (\<exists>w. Serve k r = Join w \<and> i = nat (driver_count s) \<and> drivers (exec (Serve k r) s) ! i = joined w (drivers s ! i))" ..
  qed simp
next
  case (Join w)
  show ?thesis
  proof (cases "i = nat (driver_count s)")
    case True
    then have "driver_count s < int MAX_DRIVERS" using assms(3) by simp
    then show ?thesis using True Join assms(1,3)
      by (auto simp: join_driver_def update_driver_def Let_def wf_state_def joined_def)
  qed (use assms Join in \<open>auto simp: join_driver_def update_driver_def Let_def\<close>)
next
  case (Round r)
  have len: "\<not> i < length (active_drivers s)" using assms length_active_drivers by simp
  have "drivers (exec (Round r) s) ! i = drivers s ! i"
    unfolding exec_round [OF assms(1)] using len assms length_active_drivers [OF assms(1)]
    by (simp add: nth_append wf_state_def)
  then show ?thesis unfolding Round ..
qed simp

text \<open>What no section changes of a driver, and how its ride counter moves.\<close>

lemma phase_frame:
  "driver_id (respawn g d) = driver_id d" "rating (respawn g d) = rating d" "rides_count (respawn g d) = rides_count d"
  "driver_id (fst (navigate d r)) = driver_id d" "rating (fst (navigate d r)) = rating d"
  "rides_count (fst (navigate d r)) = rides_count d"
  "driver_id (run_empty d) = driver_id d" "rating (run_empty d) = rating d" "rides_count (run_empty d) = rides_count d"
  "driver_id (pump d) = driver_id d" "rating (pump d) = rating d" "rides_count (pump d) = rides_count d"
  "driver_id (failsafe d) = driver_id d" "rating (failsafe d) = rating d" "rides_count (failsafe d) = rides_count d"
  "driver_id (fst (move g x y d r)) = driver_id d" "rating (fst (move g x y d r)) = rating d"
  "rides_count (fst (move g x y d r)) = rides_count d"
  by (simp_all add: respawn_def navigate_def arrived_at_def use_fuel_def arrive_at_target_def run_empty_def pump_def
      failsafe_def move_def drive_def wander_def split_beta Let_def)

lemma tick_frame:
  "driver_id (fst (tick_driver g d r)) = driver_id d" "rating (fst (tick_driver g d r)) = rating d"
  "rides_count (fst (tick_driver g d r)) = rides_count d"
  by (simp_all add: tick_driver_def split_beta Let_def phase_frame)

lemma cell_change_frame:
  assumes "cell_change d d'"
  shows "driver_id d' = driver_id d" "rating d' = rating d"
    "rides_count d \<le> rides_count d'" "rides_count d' \<le> rides_count d + 1"
  using assms by (auto elim!: cell_changeE simp: tick_frame dispatch_driver_def)

section \<open>How far the counters get\<close>

text \<open>All counters are at most \<open>n\<close>, the revenue at most 150 \<open>n\<close>, and the times are \<open>time_t\<close> values.\<close>

definition counted :: "int \<Rightarrow> SharedState \<Rightarrow> bool" where
  "counted n s \<longleftrightarrow> (\<forall>d \<in> set (drivers s). 0 \<le> rides_count d \<and> rides_count d \<le> n)
     \<and> (\<forall>k \<in> set (client_req_count s). 0 \<le> k \<and> k \<le> n) \<and> (\<forall>t \<in> set (client_last_seen s). int64_range t)
     \<and> 0 \<le> total_revenue s \<and> total_revenue s \<le> 150 * n"

fun clock_in_range :: "critical \<Rightarrow> bool" where
  "clock_in_range (Limit c now) = int64_range now"
| "clock_in_range _ = True"

lemma exec_totals:
  assumes "wf_state s"
  shows "total_revenue s \<le> total_revenue (exec c s) \<and> total_revenue (exec c s) \<le> total_revenue s + 150
    \<and> dispatch_mode (exec c s) = dispatch_mode s
    \<and> driver_count s \<le> driver_count (exec c s)"
proof (cases c)
  case (Serve k r)
  from assms show ?thesis unfolding Serve
    by (rule exec_serve [of s k r]) (simp_all del: exec.simps add: count_ride_def)
next
  case (Round r)
  show ?thesis unfolding Round exec_round [OF assms] by simp
qed (auto simp: join_driver_def Let_def)

lemma exec_tables:
  "client_last_seen (exec (Serve k r) s) = client_last_seen s" "client_req_count (exec (Serve k r) s) = client_req_count s"
  "client_last_seen (exec (Join w) s) = client_last_seen s" "client_req_count (exec (Join w) s) = client_req_count s"
  "client_last_seen (exec (Round r) s) = client_last_seen s" "client_req_count (exec (Round r) s) = client_req_count s"
  using ride_keeps_tables [of k 256 r s]
  by (simp_all add: join_driver_def Let_def map_tick_def split_beta)

lemma exec_limit_tables:
  assumes "counted n s" "0 \<le> n" "int64_range now"
  shows "(\<forall>k \<in> set (client_req_count (exec (Limit c now) s)). 0 \<le> k \<and> k \<le> n + 1)
    \<and> (\<forall>t \<in> set (client_last_seen (exec (Limit c now) s)). int64_range t)"
proof -
  let ?i = "nat c"
  have old: "0 \<le> k \<and> k \<le> n" if "k \<in> set (client_req_count s)" for k using assms(1) that by (simp add: counted_def)
  have seen: "int64_range t" if "t \<in> set (client_last_seen s)" for t using assms(1) that by (simp add: counted_def)
  have counts: "\<forall>k \<in> set ((client_req_count s)[?i := v]). 0 \<le> k \<and> k \<le> n + 1"
    if "?i < length (client_req_count s) \<Longrightarrow> 0 \<le> v \<and> v \<le> n + 1" for v
  proof (cases "?i < length (client_req_count s)")
    case True
    then show ?thesis using that old set_update_subset_insert [of "client_req_count s" ?i v] by fastforce
  next
    case False
    then show ?thesis using old by (fastforce simp: list_update_beyond)
  qed
  have more: "0 \<le> client_req_count s ! ?i + 1 \<and> client_req_count s ! ?i + 1 \<le> n + 1" if "?i < length (client_req_count s)"
    using old [OF nth_mem [OF that]] by simp
  have "\<forall>t \<in> set ((client_last_seen s)[?i := now]). int64_range t"
    using seen assms(3) set_update_subset_insert [of "client_last_seen s" ?i now] by blast
  note times = this
  consider "exec (Limit c now) s = s"
    | "exec (Limit c now) s = s\<lparr>client_req_count := (client_req_count s)[?i := client_req_count s ! ?i + 1]\<rparr>"
    | "exec (Limit c now) s = s\<lparr>client_last_seen := (client_last_seen s)[?i := now], client_req_count := (client_req_count s)[?i := 1]\<rparr>"
    by (cases "c \<le> 0 \<or> int MAX_CLIENTS \<le> c"; cases "client_last_seen s ! ?i = now")
      (simp_all add: check_and_update_rate_limit_def Let_def)
  then show ?thesis
  proof cases
    case 1
    show ?thesis unfolding 1 using old seen by fastforce
  next
    case 2
    show ?thesis unfolding 2 using counts [OF more] seen by simp
  next
    case 3
    show ?thesis unfolding 3 using counts [of 1] assms(2) times by simp
  qed
qed

lemma exec_counted:
  assumes "counted n s" "state_ok s" "0 \<le> n" "clock_in_range c"
  shows "counted (n + 1) (exec c s)"
proof -
  note ok = state_okD [OF assms(2)]
  have wf': "wf_state (exec c s)" by (rule exec_wf [OF ok(1)])
  have rides: "0 \<le> rides_count (drivers s ! i) \<and> rides_count (drivers s ! i) \<le> n" if "i < MAX_DRIVERS" for i
    using assms(1) ok(1) that nth_mem [of i "drivers s"] by (simp add: counted_def wf_state_def)
  have "0 \<le> rides_count (drivers (exec c s) ! i) \<and> rides_count (drivers (exec c s) ! i) \<le> n + 1" if i: "i < MAX_DRIVERS" for i
  proof (cases "i < nat (driver_count s)")
    case True
    from cell_change_frame(3,4) [OF exec_cell [OF ok(1) True, of c]] rides [OF i] show ?thesis by linarith
  next
    case False
    then show ?thesis using exec_unused [OF ok(1) _ i ok(2), of c] rides [OF i] by (auto simp: joined_def)
  qed
  then have "\<forall>d \<in> set (drivers (exec c s)). 0 \<le> rides_count d \<and> rides_count d \<le> n + 1"
    using wf' by (auto simp: in_set_conv_nth wf_state_def)
  moreover have "(\<forall>k \<in> set (client_req_count (exec c s)). 0 \<le> k \<and> k \<le> n + 1)
      \<and> (\<forall>t \<in> set (client_last_seen (exec c s)). int64_range t)"
  proof (cases c)
    case (Limit k now)
    then show ?thesis using exec_limit_tables [OF assms(1,3), of now k] assms(4) by simp
  qed (use assms(1) in \<open>auto simp: exec_tables counted_def simp del: exec.simps\<close>)
  moreover have "0 \<le> total_revenue (exec c s)" "total_revenue (exec c s) \<le> 150 * (n + 1)"
    using exec_totals [OF ok(1), of c] assms(1) by (auto simp: counted_def simp del: exec.simps)
  ultimately show ?thesis unfolding counted_def by blast
qed

text \<open>Every field that is an \<open>int\<close>, a \<open>long\<close> or a \<open>time_t\<close> of the code holds a value of that type.\<close>

definition widths_ok :: "SharedState \<Rightarrow> bool" where
  "widths_ok s \<longleftrightarrow> int32_range (driver_count s) \<and> int32_range (dispatch_mode s)
     \<and> (\<forall>d \<in> set (drivers s). int32_range (rides_count d) \<and> int32_range (fuel d))
     \<and> (\<forall>k \<in> set (client_req_count s). int32_range k) \<and> (\<forall>t \<in> set (client_last_seen s). int64_range t)
     \<and> int64_range (total_revenue s)"

lemma counted_widths:
  assumes "counted n s" "state_ok s" "n < 2 ^ 31" "int32_range (dispatch_mode s)"
  shows "widths_ok s"
proof -
  note ok = state_okD [OF assms(2)]
  have "int32_range (fuel d)" if "d \<in> set (drivers s)" for d
  proof -
    have "d \<in> set (active_drivers s) \<or> d \<in> set (drop (nat (driver_count s)) (drivers s))"
      using that by (metis Un_iff active_drivers_def append_take_drop_id set_append)
    then show ?thesis using ok(3,4) by (auto simp: driver_ok_def zero_driver_def int32_range_def)
  qed
  then show ?thesis
    using assms(1,3,4) ok(1,2) by (auto simp: counted_def widths_ok_def wf_state_def int32_range_def int64_range_def MAX_DRIVERS_def)
qed

lemma execs_counted:
  "counted n s \<Longrightarrow> state_ok s \<Longrightarrow> 0 \<le> n \<Longrightarrow> list_all clock_in_range cs \<Longrightarrow> counted (n + int (length cs)) (fold exec cs s)"
proof (induction cs arbitrary: n s)
  case (Cons c cs)
  have "counted (n + 1 + int (length cs)) (fold exec cs (exec c s))"
    by (rule Cons.IH) (use Cons.prems exec_counted fleet.exec_keeps in auto)
  then show ?case by (simp add: add.assoc)
qed simp

lemma execs_mode: "state_ok s \<Longrightarrow> dispatch_mode (fold exec cs s) = dispatch_mode s"
proof (induction cs arbitrary: s)
  case (Cons c cs)
  then show ?case using exec_totals [OF state_okD(1) [OF Cons.prems], of c] fleet.exec_keeps [OF Cons.prems] by simp
qed simp

text \<open>
  C18: the integers of the model are the integers of the code: from a fresh state, through every sequence
  of fewer than 2^31 critical sections of any kind in any order, every field declared \<open>int\<close>, \<open>long\<close> or
  \<open>time_t\<close> holds a value of its type, so no counter has overflowed.
\<close>

theorem counters_fit:
  assumes "state_ok s" "counted 0 s" "int32_range (dispatch_mode s)"
    and "length cs < 2 ^ 31" "list_all clock_in_range cs"
  shows "widths_ok (fold exec cs s)"
proof (rule counted_widths)
  show "counted (int (length cs)) (fold exec cs s)" using execs_counted [OF assms(2,1) _ assms(5)] by simp
  show "state_ok (fold exec cs s)" by (rule fleet.execs_keep [OF assms(1)])
  show "int (length cs) < 2 ^ 31" using assms(4) by simp
  show "int32_range (dispatch_mode (fold exec cs s))" using execs_mode [OF assms(1)] assms(3) by simp
qed

theorem counters_fit_witness:
  "widths_ok (fold exec [Join 7, Serve 3 (sconst 0), Limit 3 1765000000, Round (sconst 1), Serve 99 (sconst 2)] demo_state)"
  by (rule counters_fit [OF demo_state_ok])
    (auto simp: counted_def demo_state_def two_drivers_def zero_state_def zero_driver_def MAX_CLIENTS_def int32_range_def int64_range_def)

end
