(* ===== verification/Server_Log.thy ===== *)
theory Server_Log
  imports Shutdown Log_System Counter_Widths
begin

text \<open>
  What a server tells its operator when it starts and ends (src/server/server_main.c, the same lines of
  src/server/coordinator.c, and the \<open>perror\<close> calls of src/common/net_wrapper.c), in order. The functions follow
  the branches of \<open>server_main\<close>, \<open>save_state\<close> and \<open>cleanup_resources\<close>; \<open>why\<close> is the text of \<open>errno\<close>. The workers
  a start that fails leaves behind are here too.
\<close>

section \<open>The reports\<close>

datatype report = Out string | Err string | Info_line string | Warn_line string | Error_line string

definition perror :: "string \<Rightarrow> string \<Rightarrow> report" where
  "perror what why = Err (what @ '': '' @ why @ [CHR 0x0A])"

definition save_data_report :: "write_result \<Rightarrow> report list" where
  "save_data_report wr =
     (if wr = CannotOpen then [Error_line ''Failed to save data to server.dat''] else [Info_line ''Data saved to server.dat''])"

definition cleanup_report :: "write_result \<Rightarrow> report list" where
  "cleanup_report wr = save_data_report wr @ [Info_line ''Resources cleaned up.'']"

definition save_state_report :: "string \<Rightarrow> write_result \<Rightarrow> report" where
  "save_state_report why wr =
     (case wr of
        CannotOpen \<Rightarrow> Error_line (''Failed to save state to server.dat: '' @ why)
      | ShortWrite \<Rightarrow> Error_line (''Error writing state to file: '' @ why)
      | FullWrite \<Rightarrow> Info_line ([CHR 0xE2, CHR 0x9C, CHR 0x85] @ '' System state saved to server.dat''))"

definition sigint_report :: "string \<Rightarrow> write_result \<Rightarrow> report list" where
  "sigint_report why wr = [Out [CHR 0x0A], Info_line ''Received SIGINT. Shutting down...'', save_state_report why wr]"

definition socket_report :: "string \<Rightarrow> kernel \<Rightarrow> report list" where
  "socket_report why k =
     (if ret_socket k < 0 then [perror ''socket'' why]
      else if ret_setsockopt k < 0 then [perror ''setsockopt'' why]
      else if ret_bind k < 0 then [perror ''bind'' why]
      else if ret_listen k < 0 then [perror ''listen'' why]
      else [])"

definition mode_line :: "int \<Rightarrow> report" where
  "mode_line mode = Info_line (''Dispatch Logic Mode: '' @ (if mode = 1 then ''SMART (VIP Priority)'' else ''BASIC (Distance Only)''))"

definition driver_line :: "Driver \<Rightarrow> report" where
  "driver_line d = Info_line (''Driver '' @ show_int (sint (driver_id d)) @ '' inited. Rating: '' @ show_fixed 1 (rating d))"

definition started_line :: report where
  "started_line = Info_line (show_nat WORKER_COUNT @ '' Dispatcher processes started.'')"

definition fork_failed_line :: report where
  "fork_failed_line = Error_line ''Fork failed''"

text \<open>\<open>start_coordinator_process\<close>, where \<open>thread_ok\<close> says whether \<open>pthread_create\<close> gave a map thread.\<close>

definition coordinator_report :: "bool list \<Rightarrow> bool \<Rightarrow> rng \<Rightarrow> report list" where
  "coordinator_report forks thread_ok r =
     (if fork_workers (take WORKER_COUNT forks) r = None then [fork_failed_line]
      else started_line # (if thread_ok then [Info_line ''Map Monitor thread started.''] else []))"

text \<open>\<open>main\<close> up to the loop of \<open>wait()\<close>.\<close>

definition start_report :: "string \<Rightarrow> string \<Rightarrow> int list \<Rightarrow> system \<Rightarrow> bool \<Rightarrow> rng \<Rightarrow> report list" where
  "start_report argv0 why args sys thread_ok r =
     (case args of
        port # fleet_size # rest \<Rightarrow>
          let mode = (case rest of [] \<Rightarrow> 1 | m # _ \<Rightarrow> m) in
          [Info_line (''Server starting on port '' @ show_int port @ '' with '' @ show_int fleet_size @ '' drivers...''), mode_line mode]
          @ (if \<not> shm_open_ok sys then [perror ''shm_open failed'' why]
             else if \<not> ftruncate_ok sys then [perror ''ftruncate failed'' why]
             else if \<not> mmap_ok sys then [perror ''mmap failed'' why]
             else Info_line ''Starting fresh (Ignoring old save file)...''
               # (case server_init fleet_size mode r of
                    None \<Rightarrow> []
                  | Some (s, r) \<Rightarrow>
                      map driver_line (active_drivers s) @ socket_report why (sockets sys)
                      @ (if fst (create_server_socket (sockets sys) port) < 0 then cleanup_report (saved sys)
                         else coordinator_report (fork_ok sys) thread_ok r)))
      | _ \<Rightarrow> [Err (''Usage: '' @ argv0 @ '' <port> <driver_count> [mode: 0=Basic, 1=Smart]'' @ [CHR 0x0A])])"

definition finish_report :: "write_result \<Rightarrow> report list" where
  "finish_report wr = cleanup_report wr @ [Info_line ''Server stopped.'']"

text \<open>The insecure server (src/server/insecure_server.c): its start, with the restored state, and its end.\<close>

definition load_state_report :: "save_file \<Rightarrow> report list" where
  "load_state_report f =
     (if f = NoFile then []
      else Info_line ([CHR 0xF0, CHR 0x9F, CHR 0x94, CHR 0x84] @ '' Found save file. Loading state...'')
        # (case f of
             Image s \<Rightarrow> [Info_line ([CHR 0xE2, CHR 0x9C, CHR 0x85] @ '' State loaded!'')]
           | _ \<Rightarrow> [Warn_line ''Save file corrupted. Re-initializing.'']))"

definition ipc_report :: "string \<Rightarrow> bool \<Rightarrow> SharedState \<Rightarrow> save_file \<Rightarrow> report list" where
  "ipc_report why mapped garbage f =
     (if \<not> mapped then [Error_line (''mmap failed: '' @ why)]
      else load_state_report f
        @ (if \<not> fst (load_state garbage f zero_state) then [Info_line ''Initializing fresh system state...''] else [])
        @ [Info_line ''IPC initialized.''])"

definition insecure_started_line :: report where
  "insecure_started_line = Warn_line (show_nat WORKER_COUNT @ '' INSECURE Dispatchers started.'')"

definition insecure_coordinator_report :: "bool list \<Rightarrow> rng \<Rightarrow> report list" where
  "insecure_coordinator_report forks r =
     (if fork_workers (take WORKER_COUNT forks) r = None then [fork_failed_line] else [insecure_started_line])"

definition insecure_report :: "string \<Rightarrow> string \<Rightarrow> int list \<Rightarrow> kernel \<Rightarrow> bool \<Rightarrow> SharedState \<Rightarrow> bool list \<Rightarrow> rng \<Rightarrow> save_file \<Rightarrow> report list" where
  "insecure_report argv0 why args k mapped garbage forks r f =
     (case args of
        [port, n] \<Rightarrow>
          [Warn_line ([CHR 0xF0, CHR 0x9F, CHR 0x9A, CHR 0xA8] @ '' INSECURE SERVER STARTING (NO ENCRYPTION/CHECKSUM/RATE LIMIT) ''
              @ [CHR 0xF0, CHR 0x9F, CHR 0x9A, CHR 0xA8]),
           Info_line (''Server starting on port '' @ show_int port @ '' with '' @ show_int n @ '' drivers...'')]
          @ socket_report why k
          @ (if fst (create_server_socket k port) < 0 then [Error_line ''Failed to create server socket. Exiting.'']
             else ipc_report why mapped garbage f @ (if mapped then insecure_coordinator_report forks r else []))
      | _ \<Rightarrow> [Err (''Usage: '' @ argv0 @ '' <port> <driver_count>'' @ [CHR 0x0A])])"

definition insecure_finish_report :: "report list" where
  "insecure_finish_report = [Warn_line ''Insecure Server shutdown completed.'']"

section \<open>The workers of a start that fails\<close>

text \<open>The loop of \<open>fork()\<close> with the workers it has made: those before the first failure.\<close>

fun fork_loop :: "bool list \<Rightarrow> rng \<Rightarrow> rng option list \<Rightarrow> rng option list \<times> bool" where
  "fork_loop [] r ws = (ws, True)"
| "fork_loop (ok # oks) r ws = (if ok then fork_loop oks r (ws @ [Some r]) else (ws, False))"

lemma fork_loop_result: "fork_loop oks r ws = (ws @ replicate (length (takeWhile id oks)) (Some r), list_all id oks)"
proof (induction oks arbitrary: ws)
  case (Cons ok oks)
  have "ws @ [Some r] @ replicate n (Some r) = ws @ replicate (Suc n) (Some r)" for n by simp
  with Cons.IH [of "ws @ [Some r]"] show ?case by simp
qed simp

lemma fork_workers_loop: "fork_workers oks r = (let (ws, ok) = fork_loop oks r [] in if ok then Some ws else None)"
  unfolding fork_loop_result by (induction oks) (auto simp: Let_def split: if_splits)

text \<open>The server without its first process: nobody waits for the workers, and no map thread runs.\<close>

definition left_behind :: "bool list \<Rightarrow> rng \<Rightarrow> save_file \<Rightarrow> SharedState \<Rightarrow> Pool" where
  "left_behind forks r f s = \<lparr>pool_shared = s, workers = fst (fork_loop (take WORKER_COUNT forks) r []), monitor = r,
     data_file = f, g_running = False, waiting = False\<rparr>"

lemma failed_fork_exit:
  assumes "shm_open_ok sys" "ftruncate_ok sys" "mmap_ok sys" "server_init n mode r = Some (s, r')"
    and "0 \<le> fst (create_server_socket (sockets sys) port)" "\<not> list_all id (take WORKER_COUNT (fork_ok sys))"
  shows "server_main [port, n, mode] sys r seeded f = Exit 1 f"
    "last (start_report argv0 why [port, n, mode] sys thread_ok r) = fork_failed_line"
  using assms by (simp_all add: server_main_def start_report_def coordinator_report_def start_coordinator_process_def
      fork_workers_loop fork_loop_result Let_def)

lemma server_init_unseen:
  assumes "server_init n mode r = Some (s, r')" "limited_id c" shows "seen_in c now s = 0"
proof -
  have "client_last_seen s = client_last_seen zero_state" "client_req_count s = client_req_count zero_state"
    using assms(1) init_drivers_frame by (auto simp: server_init_def split_beta Let_def split: if_splits)
  moreover have "nat c < 2000" using assms(2) by (auto simp: limited_id_def)
  ultimately show ?thesis by (simp add: seen_in_def zero_state_clients)
qed

lemma abandoned_keeps_file: "pool_reach p p' \<Longrightarrow> \<not> waiting p \<Longrightarrow> data_file p' = data_file p"
proof -
  assume "pool_reach p p'" "\<not> waiting p"
  then have "data_file p' = data_file p \<and> \<not> waiting p'"
  proof (induction rule: pool_reach.induct)
    case (further p' p'')
    from further(2,1,3,4) show ?case by cases (auto simp: serve_def split_beta Let_def)
  qed simp
  then show ?thesis ..
qed


definition forks_fail_at_3 :: system where
  "forks_fail_at_3 = \<lparr>shm_open_ok = True, ftruncate_ok = True, mmap_ok = True,
     sockets = \<lparr>ret_socket = 3, ret_setsockopt = 0, ret_bind = 0, ret_listen = 0, ret_inet_pton = 1, ret_connect = 0\<rparr>,
     fork_ok = [True, True, True, False], saved = FullWrite\<rparr>"


section \<open>What the log tells\<close>

lemma hundred: "show_nat WORKER_COUNT = ''100''"
  by code_simp

text \<open>No other line is the one that reports the dispatchers.\<close>

lemma report_simps [simp]:
  "started_line \<noteq> mode_line m" "started_line \<noteq> perror x y" "started_line \<noteq> driver_line d" "started_line \<noteq> fork_failed_line"
  "started_line \<notin> set (cleanup_report wr)" "started_line \<notin> set (socket_report why k)"
  "started_line \<noteq> Info_line (CHR ''S'' # x)" "started_line \<noteq> Info_line (CHR ''M'' # x)" "started_line \<noteq> Err x"
  by (simp_all add: started_line_def hundred mode_line_def perror_def driver_line_def fork_failed_line_def save_data_report_def
      cleanup_report_def socket_report_def)

lemma coordinator_started:
  "started_line \<in> set (coordinator_report forks thread_ok r) \<longleftrightarrow> (\<exists>p. start_coordinator_process forks r seeded f s = Some p)"
  by (auto simp: coordinator_report_def start_coordinator_process_def split: option.split)

text \<open>
  the log of a start tells how it went: for all arguments and answers of the system it reports the
  dispatchers as started exactly when the server runs.
\<close>

theorem start_report_tells:
  "started_line \<in> set (start_report argv0 why args sys thread_ok r) \<longleftrightarrow> (\<exists>p. server_main args sys r seeded f = Running p)"
proof (cases "(\<exists>port n rest. args = port # n # rest) \<and> shm_open_ok sys \<and> ftruncate_ok sys \<and> mmap_ok sys")
  case True
  then obtain port n rest where args: "args = port # n # rest" and ok: "shm_open_ok sys" "ftruncate_ok sys" "mmap_ok sys" by blast
  let ?mode = "case rest of [] \<Rightarrow> 1 | m # _ \<Rightarrow> m"
  show ?thesis
  proof (cases "server_init n ?mode r")
    case None
    then show ?thesis using ok by (simp add: args start_report_def server_main_def Let_def)
  next
    case (Some sr)
    obtain s r' where sr: "sr = (s, r')" by (cases sr)
    have "started_line \<notin> driver_line ` A" for A by (metis imageE report_simps(3))
    then show ?thesis
      using Some ok coordinator_started [of "fork_ok sys" thread_ok r' seeded f s]
      by (simp add: args start_report_def server_main_def Let_def sr split: option.split)
  qed
next
  case False
  then show ?thesis
    by (auto simp: start_report_def server_main_def Let_def split: list.splits)
qed

text \<open>The insecure server's log does too.\<close>

lemma insecure_not_started:
  "insecure_started_line \<notin> set (socket_report why k)" "insecure_started_line \<notin> set (ipc_report why b g f)"
  "insecure_started_line \<noteq> Err x" "insecure_started_line \<noteq> Info_line x" "insecure_started_line \<noteq> Error_line x"
  "insecure_started_line \<noteq> Warn_line (CHR 0xF0 # x)"
  by (auto simp: insecure_started_line_def hundred socket_report_def perror_def ipc_report_def load_state_report_def
      split: save_file.splits)

lemma insecure_report_tells:
  "insecure_started_line \<in> set (insecure_report argv0 why args k mapped garbage forks r f)
    \<longleftrightarrow> (\<exists>p. insecure_main args k mapped garbage forks r seeded f = Inr p)"
proof (cases "\<exists>port n. args = [port, n]")
  case True
  then obtain port n where args: "args = [port, n]" by blast
  show ?thesis
    by (auto simp: args insecure_report_def insecure_main_def insecure_not_started insecure_coordinator_report_def ipc_start_def
        start_coordinator_process_insecure_def fork_failed_line_def split: option.splits)
next
  case False
  then show ?thesis by (auto simp: insecure_report_def insecure_main_def insecure_not_started split: list.splits)
qed

text \<open>
  the mode in the log is not always the mode of the server: the line, the map and the replies say SMART for mode 1 only,
  while in every state the server reaches drivers are ranked by the smart policy for every mode but 0. With mode 2 the log
  says "BASIC (Distance Only)", and the VIPs are served by rating.
\<close>

theorem mode_report_misleads:
  assumes "server_main [port, n, mode] sys r seeded f = Running p" "pool_reach p p'" "0 \<le> n" "n \<le> 256" "mode \<notin> {0, 1}"
  shows "Info_line ''Dispatch Logic Mode: BASIC (Distance Only)'' \<in> set (start_report argv0 why [port, n, mode] sys thread_ok r)
    \<and> pick_driver (pool_shared p') vip = find_driver_smart (pool_shared p') vip"
proof -
  obtain s r' where s: "server_init n mode r = Some (s, r')" "state_ok s" "dispatch_mode s = mode"
    using server_init_facts [OF assms(3,4), of mode r] by blast
  have p: "pool_shared p = s"
    using assms(1) s(1) by (auto simp: server_main_def start_coordinator_process_def Let_def split: if_splits option.splits)
  obtain cs where "pool_shared p' = fold exec cs (pool_shared p)"
    by (rule pool_trace [OF assms(2)]) (use p s(2) in simp_all)
  then have "dispatch_mode (pool_shared p') = mode" using execs_mode [OF s(2)] s(3) p by simp
  then have "pick_driver (pool_shared p') vip = find_driver_smart (pool_shared p') vip"
    using assms(5) by (simp add: pick_driver_def)
  moreover have "mode_line mode = Info_line ''Dispatch Logic Mode: BASIC (Distance Only)''" using assms(5) by (simp add: mode_line_def)
  then have "Info_line ''Dispatch Logic Mode: BASIC (Distance Only)'' \<in> set (start_report argv0 why [port, n, mode] sys thread_ok r)"
    by (simp add: start_report_def Let_def)
  ultimately show ?thesis by blast
qed

definition good_system :: system where
  "good_system = forks_fail_at_3\<lparr>fork_ok := all_forked\<rparr>"

theorem mode_report_misleads_witness:
  "\<exists>p. server_main [8080, 50, 2] good_system (sconst 0) (sconst 1) NoFile = Running p
    \<and> Info_line ''Dispatch Logic Mode: BASIC (Distance Only)'' \<in> set (start_report [] [] [8080, 50, 2] good_system True (sconst 0))
    \<and> pick_driver (pool_shared p) True = find_driver_smart (pool_shared p) True"
proof -
  obtain s r' where s: "server_init 50 2 (sconst 0) = Some (s, r')" using server_init_facts [of 50 2 "sconst 0"] by auto
  have "\<exists>p. server_main [8080, 50, 2] good_system (sconst 0) (sconst 1) NoFile = Running p"
    using s by (simp add: server_main_def good_system_def forks_fail_at_3_def create_server_socket_def Let_def
        start_coordinator_process_def all_forked_def fork_all)
  then obtain p where p: "server_main [8080, 50, 2] good_system (sconst 0) (sconst 1) NoFile = Running p" ..
  from mode_report_misleads [OF p pool_reach.start, of "[]" "[]" True True] p show ?thesis by simp
qed

text \<open>
  The log of the handler tells the truth about the file, that of the regular end does not: \<open>fwrite\<close> may have stopped
  half way, and the log still says that the data is saved.
\<close>

lemma save_reports:
  "(\<exists>txt. save_state_report why wr = Info_line txt) \<longleftrightarrow> save_state wr s f = Image s \<and> wr = FullWrite"
  "save_data_report ShortWrite = [Info_line ''Data saved to server.dat'']" "save_data_to_file ShortWrite s f = ShortFile"
  by (cases wr; simp add: save_state_report_def save_state_def save_data_report_def save_data_to_file_def)+

end
