(* ===== verification/Dispatcher_Messages.thy ===== *)
theory Dispatcher_Messages
  imports Sessions
begin

text \<open>
  What a worker tells its operator (src/server/dispatcher.c and src/server/ride_service.c): the lines that
  \<open>handle_client\<close> and what it calls print on the console or give to the log, in order. The functions follow the
  branches of \<open>Dispatcher\<close>. The line of a dispatch is written after the unlock: \<open>late\<close> is what the other
  processes do to the shared state until then.
\<close>

section \<open>The messages\<close>

text \<open>The argument of a \<open>printf\<close>, or of a \<open>log_info\<close>.\<close>

datatype message = Console string | Logged string

definition in_red :: "string \<Rightarrow> message" where
  "in_red txt = Console ([CHR 0x1B] @ ''[1;31m[SECURITY] '' @ txt @ [CHR 0x1B] @ ''[0m'' @ [CHR 0x0A])"

definition handshake_message :: message where
  "handshake_message = Logged ''[Security] DH Handshake Success. Session Key Established.''"

definition rejected_message :: message where
  "rejected_message = in_red ''Rejected: Request without Handshake!''"

definition mismatch_message :: message where
  "mismatch_message = in_red ''Checksum mismatch! Session Key might be wrong.''"

definition blocked_message :: "int \<Rightarrow> message" where
  "blocked_message client_id = in_red (''Blocked DoS attack from Client '' @ show_int client_id @ ''!'')"

definition dispatched_message :: "Driver \<Rightarrow> int \<Rightarrow> message" where
  "dispatched_message d client_id = Logged
     (''Dispatched Driver '' @ show_int (sint (driver_id d)) @ '' (Rate '' @ show_fixed 1 (rating d) @ '') to Client ''
      @ show_int client_id @ ''. Heading to ('' @ show_fixed 4 (target_lat d) @ '', '' @ show_fixed 4 (target_lon d) @ '')'')"

section \<open>Who prints what\<close>

definition ride_messages :: "(SharedState \<Rightarrow> SharedState) \<Rightarrow> int \<Rightarrow> rng \<Rightarrow> SharedState \<Rightarrow> message list" where
  "ride_messages late client_id r s =
     (let best = pick_driver s (is_vip_client client_id); (res, txt, r, s') = handle_ride_request_logic client_id 256 r s
      in if res = 0 then [dispatched_message (drivers (late s') ! nat best) client_id] else [])"

definition wrapper_messages ::
  "(SharedState \<Rightarrow> SharedState) \<Rightarrow> (SharedState \<Rightarrow> SharedState) \<Rightarrow> int \<Rightarrow> Conn \<Rightarrow> Worker \<Rightarrow> message list" where
  "wrapper_messages env late now c w =
     (let client_id = sint (req_client_id (ride_request_of (body_buf c)));
          (blocked, s) = check_and_update_rate_limit client_id now (shared w)
      in if blocked then [blocked_message client_id] else ride_messages late client_id (gen w) (env s))"

definition packet_messages ::
  "(SharedState \<Rightarrow> SharedState) \<Rightarrow> (SharedState \<Rightarrow> SharedState) \<Rightarrow> int \<Rightarrow> ProtocolHeader \<Rightarrow> Conn \<Rightarrow> Worker \<Rightarrow> message list" where
  "packet_messages env late now header c w =
     (if h_type header = MSG_TYPE_HANDSHAKE then [handshake_message]
      else if h_type header = MSG_TYPE_RIDE_REQ then
        if \<not> is_key_established c then [rejected_message]
        else (case rc4_crypt (take (unat (h_length header)) (body_buf c)) (c_bytes (session_key c)) of
                None \<Rightarrow> []
              | Some plain \<Rightarrow>
                  if calculate_checksum plain \<noteq> h_checksum header then [mismatch_message]
                  else if h_opcode header = OP_REQ_RIDE
                    then wrapper_messages env late now (c\<lparr>body_buf := overlay plain (body_buf c)\<rparr>) w
                  else [])
      else [])"

function client_messages ::
  "(SharedState \<Rightarrow> SharedState) \<Rightarrow> (SharedState \<Rightarrow> SharedState) \<Rightarrow> int \<Rightarrow> Conn \<Rightarrow> Worker \<Rightarrow> message list" where
  "client_messages env late now c w =
     (case read_packet c of
        (None, c) \<Rightarrow> []
      | (Some header, c) \<Rightarrow> packet_messages env late now header c w @
          (case handle_packet env now header c w of
             Continue c w \<Rightarrow> client_messages env late now c w
           | _ \<Rightarrow> []))"
  by pat_completeness auto
termination
  by (relation "measure (\<lambda>(env, late, now, c, w). rx_size (rx c))")
    (auto dest!: sym [where s = "(_, _)"] read_packet_progress handle_packet_continue)

declare client_messages.simps [simp del]

section \<open>How a connection can end\<close>

text \<open>
  The ends of a connection: its last message, the outcome of the worker and the shared state it leaves, from the
  state \<open>s\<close>.
\<close>

inductive ends_as :: "(SharedState \<Rightarrow> SharedState) \<Rightarrow> (SharedState \<Rightarrow> SharedState) \<Rightarrow> int \<Rightarrow> SharedState
    \<Rightarrow> message list \<Rightarrow> outcome \<Rightarrow> SharedState \<Rightarrow> bool" for env late now s where
  gone: "ends_as env late now s [] Returned s"
| rejected: "ends_as env late now s [rejected_message] Returned s"
| mismatch: "ends_as env late now s [mismatch_message] Returned s"
| joins: "ends_as env late now s [] Returned (join_driver d s)"
| blocked: "ends_as env late now s [blocked_message i] Crashed (snd (check_and_update_rate_limit i now s))"
    if "fst (check_and_update_rate_limit i now s)"
| no_car: "ends_as env late now s [] Returned (env (snd (check_and_update_rate_limit i now s)))"
    if "\<not> fst (check_and_update_rate_limit i now s)"
      "pick_driver (env (snd (check_and_update_rate_limit i now s))) (is_vip_client i) = - 1"
| dispatched: "ends_as env late now s [dispatched_message (drivers (late s') ! j) i] Returned s'"
    if "\<not> fst (check_and_update_rate_limit i now s)" "t = env (snd (check_and_update_rate_limit i now s))"
      "pick_driver t (is_vip_client i) = int j" "eligible (drivers t ! j)" "s' = ride_state i r t"

lemma wrapper_ends:
  assumes "key_ok c" "is_key_established c" "wf_state (shared w)" "\<And>s. wf_state s \<Longrightarrow> wf_state (env s)"
  shows "\<exists>c' w'. process_ride_request_wrapper env now (Some (session_key c)) c w \<in> {Break c' w', Crash c' w'}
    \<and> ends_as env late now (shared w) (wrapper_messages env late now c w)
        (case process_ride_request_wrapper env now (Some (session_key c)) c w of Crash _ _ \<Rightarrow> Crashed | _ \<Rightarrow> Returned) (shared w')"
proof -
  let ?i = "sint (req_client_id (ride_request_of (body_buf c)))"
  let ?s = "snd (check_and_update_rate_limit ?i now (shared w))"
  show ?thesis
  proof (cases "fst (check_and_update_rate_limit ?i now (shared w))")
    case True
    have "c_bytes blocked_text \<noteq> []" by (simp add: blocked_text_def c_bytes_def)
    then have "process_ride_request_wrapper env now (Some (session_key c)) c w = Crash c (w\<lparr>shared := ?s\<rparr>)"
      using True by (simp add: process_ride_request_wrapper_def Let_def split_beta send_response_packet_def)
    with ends_as.blocked [OF True, of env late] True show ?thesis by (simp add: wrapper_messages_def Let_def split_beta)
  next
    case False
    let ?t = "env ?s"
    let ?ride = "handle_ride_request_logic ?i 256 (gen w) ?t"
    obtain out where "rc4_crypt (c_bytes (fst (snd ?ride))) (c_bytes (session_key c)) = Some out"
      using key_rc4 [OF assms(1,2)] by blast
    then obtain c' where run: "process_ride_request_wrapper env now (Some (session_key c)) c w =
        Break c' (w\<lparr>shared := snd (snd (snd ?ride)), gen := fst (snd (snd ?ride))\<rparr>)"
      using False by (simp add: process_ride_request_wrapper_def Let_def split_beta send_response_packet_def)
    have "wf_state ?t" using assms(3,4) by (simp add: rate_limit_wf)
    then have "ends_as env late now (shared w) (wrapper_messages env late now c w) Returned (snd (snd (snd ?ride)))"
    proof (cases rule: ride_request_cases [where c = ?i and n = 256 and r = "gen w"])
      case fail
      then show ?thesis using ends_as.no_car [OF False, of env late] False
        by (simp add: wrapper_messages_def ride_messages_def Let_def split_beta)
    next
      case (ok j)
      then show ?thesis using ends_as.dispatched [where env = env, OF False refl ok(1,4) refl [of "ride_state ?i (gen w) ?t"]] False
        by (simp add: wrapper_messages_def ride_messages_def Let_def split_beta)
    qed
    with run show ?thesis by simp
  qed
qed

lemma packet_ends:
  assumes "key_ok c" "wf_state (shared w)" "\<And>s. wf_state s \<Longrightarrow> wf_state (env s)"
  shows "case handle_packet env now h c w of
      Continue c' w' \<Rightarrow> key_ok c' \<and> shared w' = shared w \<and> packet_messages env late now h c w \<in> {[], [handshake_message]}
    | Break c' w' \<Rightarrow> ends_as env late now (shared w) (packet_messages env late now h c w) Returned (shared w')
    | Crash c' w' \<Rightarrow> ends_as env late now (shared w) (packet_messages env late now h c w) Crashed (shared w')"
proof -
  have join: "case handle_join h c'' w of
      Continue c' w' \<Rightarrow> c' = c'' \<and> w' = w
    | Break c' w' \<Rightarrow> ends_as env late now (shared w) [] Returned (shared w')
    | Crash c' w' \<Rightarrow> False" for c''
    by (simp add: handle_join_def process_driver_join_def ends_as.joins)
  show ?thesis
  proof (cases "h_type h = MSG_TYPE_HANDSHAKE")
    case True
    then show ?thesis using handshake_continues [of c w] by (auto simp: handle_packet_def packet_messages_def)
  next
    case no_hs: False
    show ?thesis
    proof (cases "h_type h = MSG_TYPE_RIDE_REQ \<and> is_key_established c")
      case True
      then have est: "is_key_established c" ..
      obtain plain where p: "rc4_crypt (take (unat (h_length h)) (body_buf c)) (c_bytes (session_key c)) = Some plain"
        using key_rc4 [OF assms(1) est] by blast
      let ?c = "c\<lparr>body_buf := overlay plain (body_buf c)\<rparr>"
      have k: "key_ok ?c" "is_key_established ?c" "session_key ?c = session_key c" using assms(1) est by (simp_all add: key_ok_def)
      note unf = handle_packet_def packet_messages_def handle_ride_def
      consider "calculate_checksum plain \<noteq> h_checksum h"
        | "calculate_checksum plain = h_checksum h" "h_opcode h = OP_REQ_RIDE"
        | "calculate_checksum plain = h_checksum h" "h_opcode h \<noteq> OP_REQ_RIDE" by blast
      then show ?thesis
      proof cases
        case 1
        then show ?thesis using True p no_hs by (simp add: unf ends_as.mismatch)
      next
        case 2
        from wrapper_ends [where env = env and now = now and late = late, OF k(1,2) assms(2,3)] obtain c' w' where
          w: "process_ride_request_wrapper env now (Some (session_key c)) ?c w \<in> {Break c' w', Crash c' w'}"
          "ends_as env late now (shared w) (wrapper_messages env late now ?c w)
             (case process_ride_request_wrapper env now (Some (session_key c)) ?c w of Crash _ _ \<Rightarrow> Crashed | _ \<Rightarrow> Returned) (shared w')"
          by (auto simp only: k(3))
        then show ?thesis using True p no_hs 2 by (auto simp: unf)
      next
        case 3
        then show ?thesis using True p no_hs join [of ?c] k by (cases "handle_join h ?c w") (simp_all add: unf)
      qed
    next
      case no_req: False
      show ?thesis
      proof (cases "h_type h = MSG_TYPE_RIDE_REQ")
        case True
        then show ?thesis using no_hs no_req by (simp add: handle_packet_def packet_messages_def handle_ride_def ends_as.rejected)
      next
        case False
        then show ?thesis using no_hs join [of c] assms(1)
          by (cases "handle_join h c w") (simp_all add: handle_packet_def packet_messages_def)
      qed
    qed
  qed
qed

lemma key_ok_read: "read_packet c = (h, c1) \<Longrightarrow> key_ok c \<Longrightarrow> key_ok c1"
  by (auto simp: key_ok_def read_packet_def recv_header_def recv_body_def Let_def split_beta split: if_splits)

lemma client_ends:
  assumes "\<And>s. wf_state s \<Longrightarrow> wf_state (env s)"
  shows "key_ok c \<Longrightarrow> wf_state (shared w) \<Longrightarrow> handle_client env now c w = (res, c', w') \<Longrightarrow>
    \<exists>k last. client_messages env late now c w = replicate k handshake_message @ last
      \<and> ends_as env late now (shared w) last res (shared w')"
proof (induction "rx_size (rx c)" arbitrary: c w rule: less_induct)
  case less
  obtain h c1 where p: "read_packet c = (h, c1)" by (cases "read_packet c")
  note k1 = key_ok_read [OF p less.prems(1)]
  note step = less.prems(3) p handle_client.simps [of env now c] client_messages.simps [of env late now c]
  show ?case
  proof (cases h)
    case None
    then show ?thesis using step by (intro exI [of _ 0] exI [of _ "[]"]) (simp add: ends_as.gone)
  next
    case h: (Some header)
    note e = packet_ends [where env = env and h = header and now = now and late = late, OF k1 less.prems(2) assms]
    show ?thesis
    proof (cases "handle_packet env now header c1 w")
      case (Continue c2 w2)
      have c: "key_ok c2" "shared w2 = shared w" "packet_messages env late now header c1 w \<in> {[], [handshake_message]}"
        using e Continue by simp_all
      have "rx_size (rx c2) < rx_size (rx c)"
        using read_packet_progress [of c header c1] p h handle_packet_continue [OF Continue] by simp
      moreover have "handle_client env now c2 w2 = (res, c', w')" using step h Continue by simp
      ultimately obtain k last where l: "client_messages env late now c2 w2 = replicate k handshake_message @ last"
        "ends_as env late now (shared w) last res (shared w')"
        using less.hyps [of c2 w2] c(1,2) less.prems(2) by auto
      have m: "client_messages env late now c w = packet_messages env late now header c1 w @ replicate k handshake_message @ last"
        using step h Continue l(1) by simp
      show ?thesis
      proof (cases "packet_messages env late now header c1 w = []")
        case True
        then show ?thesis using m l(2) by auto
      next
        case False
        then have "client_messages env late now c w = replicate (Suc k) handshake_message @ last" using m c(3) by simp
        with l(2) show ?thesis by blast
      qed
    next
      case (Break c2 w2)
      then show ?thesis using e step h by (intro exI [of _ 0] exI) auto
    next
      case (Crash c2 w2)
      then show ?thesis using e step h by (intro exI [of _ 0] exI) auto
    qed
  qed
qed

section \<open>The record of a connection\<close>

text \<open>
  C13: the operator's record of a connection is true and complete: after one line per handshake it has at most one more,
  and that line tells how the connection ended. A rejected request and a checksum mismatch have changed nothing;
  a blocked one has touched the tables of the limiter only and the worker is gone; a dispatched one has sent the named
  driver on a trip and is one completed ride. Without such a line the peer has gone, a driver has joined or no
  driver was free.
\<close>

theorem messages_tell_the_end:
  assumes "wf_state (shared w)" "\<And>s. wf_state s \<Longrightarrow> wf_state (env s)"
    and "handle_client env now (new_conn es hb bb) w = (res, c', w')"
  shows "\<exists>k last. client_messages env late now (new_conn es hb bb) w = replicate k handshake_message @ last
    \<and> ends_as env late now (shared w) last res (shared w')"
proof -
  have "key_ok (new_conn es hb bb)" by (simp add: key_ok_def new_conn_def)
  from client_ends [OF assms(2) this assms(1,3)] show ?thesis .
qed

theorem messages_tell_the_end_witness:
  "\<exists>es i. last (client_messages id id 100 (new_conn es [] []) (idle_worker flooded)) = blocked_message i"
proof -
  obtain es c' w' where r: "handle_client id 100 (new_conn es [] []) (idle_worker flooded) = (Crashed, c', w')"
    by (rule flooded_crash)
  obtain k ms where m: "client_messages id id 100 (new_conn es [] []) (idle_worker flooded) = replicate k handshake_message @ ms"
    "ends_as id id 100 (shared (idle_worker flooded)) ms Crashed (shared w')"
    using messages_tell_the_end [of "idle_worker flooded" id 100 es "[]" "[]" Crashed c' w' id] flooded_wf r by auto
  from m(2) obtain i where "ms = [blocked_message i]" by cases simp_all
  with m(1) show ?thesis by (metis last_snoc)
qed

end
