(* ===== verification/Insecure_Pool.thy ===== *)
theory Insecure_Pool
  imports Insecure_Dispatcher
begin

text \<open>
  The processes of the insecure server (src/server/coordinator.c, \<open>start_coordinator_process_insecure\<close>):
  the steps of its workers, of its map thread and of SIGINT, as in \<open>Worker_Pool\<close>.
\<close>

section \<open>The steps\<close>

definition serve_insecure :: "nat \<Rightarrow> rng \<Rightarrow> (u8 \<times> Conn) option \<Rightarrow> Pool \<Rightarrow> Pool" where
  "serve_insecure i r a p =
     (let w = dispatcher_loop_insecure [a] \<lparr>shared = pool_shared p, gen = r\<rparr>
      in p\<lparr>pool_shared := shared w, workers := (workers p)[i := Some (gen w)]\<rparr>)"

inductive insecure_step :: "Pool \<Rightarrow> Pool \<Rightarrow> bool" where
  accept: "insecure_step p (serve_insecure i r a p)" if "i < length (workers p)" "workers p ! i = Some r"
| tick: "insecure_step p (p\<lparr>pool_shared := snd (map_tick (monitor p) (pool_shared p)), monitor := fst (map_tick (monitor p) (pool_shared p))\<rparr>)"
    if "g_running p"
| sigint: "insecure_step p (handle_sigint wr p)" if "waiting p"

text \<open>There is no step for the death of the last worker: the code has none to offer, as shown below.\<close>

section \<open>What every step keeps\<close>

definition insecure_inv :: "Pool \<Rightarrow> bool" where
  "insecure_inv p \<longleftrightarrow> state_ok (pool_shared p) \<and> length (workers p) = WORKER_COUNT \<and> (waiting p \<longrightarrow> None \<notin> set (workers p))"

lemma insecure_inv_step: "insecure_step p p' \<Longrightarrow> insecure_inv p \<Longrightarrow> insecure_inv p'"
proof (induction rule: insecure_step.induct)
  case (accept i p r a)
  then show ?case
    using consistent.insecure_loop_keeps [of "\<lparr>shared = pool_shared p, gen = r\<rparr>" "[a]"]
      set_update_subset_insert [of "workers p" i "Some (gen (dispatcher_loop_insecure [a] \<lparr>shared = pool_shared p, gen = r\<rparr>))"]
    by (auto simp: insecure_inv_def serve_insecure_def Let_def)
qed (simp_all add: insecure_inv_def fleet.tick_keeps handle_sigint_def)

lemma insecure_inv_reach: "insecure_step\<^sup>*\<^sup>* p p' \<Longrightarrow> insecure_inv p \<Longrightarrow> insecure_inv p'"
  by (induction rule: rtranclp_induct) (auto intro: insecure_inv_step)

lemma insecure_started:
  assumes "insecure_main [port, n] k mmap_ok garbage forks r seeded f = Inr p" "length forks = WORKER_COUNT"
  shows "p = \<lparr>pool_shared = ipc_init garbage f n, workers = replicate WORKER_COUNT (Some r), monitor = seeded,
    data_file = f, g_running = True, waiting = True\<rparr>"
  using assms fork_workers_all [of forks r]
  by (auto simp: insecure_main_def ipc_start_def start_coordinator_process_insecure_def split: if_splits option.splits)



end
