(* ===== verification/Demo_Clients.thy ===== *)
theory Demo_Clients
  imports Sessions Sockets
begin

text \<open>
  The two demonstration clients: src/client/single_client.c, which makes one request and prints the
  result, and src/client/malicious_client.c, which sends a request encrypted with a fixed wrong key and
  without a handshake. Uninitialised memory is an argument: the type bytes the malicious client never
  sets, and the buffers that \<open>recv_n\<close> fills.
\<close>

section \<open>The single client\<close>

text \<open>\<open>%s\<close> of a buffer: its bytes up to the first NUL.\<close>

definition buf_text :: "u8 list \<Rightarrow> string" where
  "buf_text buf = map (\<lambda>b. char_of (unat b)) (takeWhile (\<lambda>b. b \<noteq> 0) buf)"

definition single_banner :: "int \<Rightarrow> string" where
  "single_banner client_id =
     (if client_id \<le> 10
      then [CHR 0x0A] @ ''>>> Client ID '' @ show_int client_id @ '': Requesting as a '' @ [CHR 0x1B] @ ''[1;36mVIP Customer''
        @ [CHR 0x1B] @ ''[0m.'' @ [CHR 0x0A]
      else [CHR 0x0A] @ ''>>> Client ID '' @ show_int client_id @ '': Requesting as a Standard Customer.'' @ [CHR 0x0A])"

definition single_report :: "int \<Rightarrow> u8 list \<Rightarrow> string" where
  "single_report result msg =
     (if result = 0 then [CHR 0xE2, CHR 0x9C, CHR 0x85] @ '' Success! '' @ buf_text msg @ [CHR 0x0A]
      else if result = - 2 then [CHR 0xE2, CHR 0x9A, CHR 0xA0, CHR 0xEF, CHR 0xB8, CHR 0x8F] @ '' Blocked! '' @ buf_text msg
        @ '' (DoS Limit Reached)'' @ [CHR 0x0A]
      else [CHR 0xE2, CHR 0x9D, CHR 0x8C] @ '' Request failed or rejected. Response: '' @ buf_text msg @ [CHR 0x0A])"

text \<open>The exit code and the standard output, \<open>None\<close> for undefined behaviour.\<close>

definition single_main :: "nat \<Rightarrow> kernel \<Rightarrow> int \<Rightarrow> int \<Rightarrow> rng \<Rightarrow> u8 list \<Rightarrow> u8 list \<Rightarrow> u8 list \<Rightarrow> Conn \<Rightarrow> (int \<times> string) option" where
  "single_main argc k port client_id r jh jb msg c =
     (if argc < 4 then Some (- 1, [])
      else if fst (connect_to_server k port) < 0 then Some (- 1, [])
      else (case perform_ride_request client_id r jh jb msg c of
              None \<Rightarrow> None
            | Some (result, msg, _, _) \<Rightarrow> Some (0, single_banner client_id @ single_report result msg)))"

section \<open>The malicious client\<close>

definition WRONG_SECRET_KEY :: string where "WRONG_SECRET_KEY = ''HACKER_WRONG_2025_KEY!''"

definition malicious_request :: "u32 \<Rightarrow> int \<Rightarrow> RideRequestData" where
  "malicious_request junk client_id =
     \<lparr>req_client_id = word_of_int client_id, req_type = junk, req_lat = LAT_BITS, req_lon = LON_BITS\<rparr>"

definition malicious_header :: "u8 \<Rightarrow> u32 \<Rightarrow> int \<Rightarrow> ProtocolHeader" where
  "malicious_header jtype junk client_id =
     \<lparr>h_length = of_nat ride_request_size, h_type = jtype, h_opcode = OP_REQ_RIDE,
      h_checksum = calculate_checksum (ride_request_bytes (malicious_request junk client_id))\<rparr>"

definition perform_malicious_request ::
  "u8 \<Rightarrow> u32 \<Rightarrow> int \<Rightarrow> u8 list \<Rightarrow> u8 list \<Rightarrow> Conn \<Rightarrow> (int \<times> u8 list \<times> Conn) option" where
  "perform_malicious_request jtype junk client_id jh msg c =
     (case rc4_crypt (ride_request_bytes (malicious_request junk client_id)) (c_bytes WRONG_SECRET_KEY) of
        None \<Rightarrow> None
      | Some cipher \<Rightarrow>
          let (n, c) = c_send (header_bytes (malicious_header jtype junk client_id)) c in
          if n \<le> 0 then Some (- 1, msg, c) else
          let (n, c) = c_send cipher c in
          if n \<le> 0 then Some (- 1, msg, c) else
          let (n, resp, c) = c_recv header_size jh c in
          if 0 < n then
            let len = unat (h_length (header_of resp)) in
            if 0 < len \<and> len < 1024 then
              let (n, msg, c) = c_recv len msg c in
              if 0 < n then Some (0, msg[len := 0], c) else Some (- 1, msg, c)
            else Some (- 1, msg, c)
          else Some (- 1, msg, c))"

definition malicious_verdict :: "int \<Rightarrow> u8 list \<Rightarrow> string" where
  "malicious_verdict result msg =
     (if result = - 1
      then ''[RESULT] '' @ [CHR 0xE2, CHR 0x9C, CHR 0x85]
        @ '' SUCCESS: Server dropped connection or sent no reply (Security Refusal).'' @ [CHR 0x0A]
        @ ''         (Server should have logged '' @ [CHR 0x27] @ ''Checksum mismatch'' @ [CHR 0x27] @ '').'' @ [CHR 0x0A]
      else ''[RESULT] '' @ [CHR 0xE2, CHR 0x9A, CHR 0xA0, CHR 0xEF, CHR 0xB8, CHR 0x8F]
        @ '' FAILURE: Server returned a response ('' @ buf_text msg @ ''). Check Server Log.'' @ [CHR 0x0A])"

definition malicious_main :: "string \<Rightarrow> nat \<Rightarrow> kernel \<Rightarrow> int \<Rightarrow> int \<Rightarrow> u8 \<Rightarrow> u32 \<Rightarrow> u8 list \<Rightarrow> Conn \<Rightarrow> (int \<times> string) option" where
  "malicious_main argv0 argc k port client_id jtype junk jh c =
     (if argc < 4 then Some (1, ''Usage: '' @ argv0 @ '' <Server IP> <Port> <Malicious Client ID>'' @ [CHR 0x0A])
      else let starting = ''[ATTACK] Starting malicious client '' @ show_int client_id @ '' (ID: '' @ show_int client_id @ '')...'' @ [CHR 0x0A] in
      if fst (connect_to_server k port) < 0 then Some (- 1, starting @ ''[ERROR] Connection failed.'' @ [CHR 0x0A])
      else (case perform_malicious_request jtype junk client_id jh (replicate 1024 0) c of
              None \<Rightarrow> None
            | Some (result, msg, _) \<Rightarrow>
                Some (0, starting @ ''[ATTACK] Sending forged packet with WRONG KEY and valid Checksum...'' @ [CHR 0x0A]
                  @ malicious_verdict result msg)))"

section \<open>Facts\<close>

lemma wrong_key_ascii: "ascii_key (c_bytes WRONG_SECRET_KEY)"
  by (simp add: ascii_key_def c_bytes_def WRONG_SECRET_KEY_def)

lemma malicious_cipher:
  obtains cipher where
    "rc4_crypt (ride_request_bytes (malicious_request junk client_id)) (c_bytes WRONG_SECRET_KEY) = Some cipher"
    "length cipher = 24"
proof -
  obtain cipher where c: "rc4_crypt (ride_request_bytes (malicious_request junk client_id)) (c_bytes WRONG_SECRET_KEY) = Some cipher"
    using rc4.crypt_total [OF wrong_key_ascii] by blast
  have "length cipher = 24"
    using rc4_length [OF c] rrq.enc_length [of "malicious_request junk client_id"] by (simp add: ride_request_size_def)
  with c show thesis by (rule that)
qed

lemma handle_client_eof:
  assumes "rx_clean (rx c)" "rx_bytes (rx c) = []"
  shows "\<exists>c'. handle_client env now c w = (Returned, c', w) \<and> sent c' = sent c"
proof -
  obtain es where "recv_n header_size (rx c) = (0, [], es)" by (rule recv_n_empty [OF assms])
  then show ?thesis by (simp add: handle_client.simps [of env now c] read_packet_def recv_header_def)
qed

lemma server_on_malicious:
  assumes "rx_clean es" "rx_bytes es = header_bytes (malicious_header jtype junk client_id) @ cipher" "length cipher = 24"
  shows "\<exists>c' w'. handle_client env now (new_conn es hb bb) w = (Returned, c', w') \<and> shared w' = shared w
    \<and> (jtype \<noteq> MSG_TYPE_HANDSHAKE \<longrightarrow> w' = w \<and> sent c' = [])"
proof -
  let ?h = "malicious_header jtype junk client_id"
  have es: "rx_clean (rx (new_conn es hb bb))" "rx_bytes (rx (new_conn es hb bb)) = header_bytes ?h @ cipher @ []"
    using assms by (simp_all add: new_conn_def)
  have len: "length cipher = unat (h_length ?h)" "length cipher \<le> 1024"
    using assms(3) by (simp_all add: malicious_header_def ride_request_size_def)
  obtain es' where e: "rx_clean es'" "rx_bytes es' = []"
    "handle_client env now (new_conn es hb bb) w =
       (case handle_packet env now ?h ((new_conn es hb bb)\<lparr>rx := es', header_buf := overlay (header_bytes ?h) (header_buf (new_conn es hb bb)),
               body_buf := overlay cipher (body_buf (new_conn es hb bb))\<rparr>) w of
          Continue c w \<Rightarrow> handle_client env now c w
        | Break c w \<Rightarrow> (Returned, c, w) | Crash c w \<Rightarrow> (Crashed, c, w))"
    by (rule handle_client_packet [OF es len])
  let ?c = "(new_conn es hb bb)\<lparr>rx := es', header_buf := overlay (header_bytes ?h) (header_buf (new_conn es hb bb)),
               body_buf := overlay cipher (body_buf (new_conn es hb bb))\<rparr>"
  have op: "h_opcode ?h = OP_REQ_RIDE" "h_type ?h = jtype" by (simp_all add: malicious_header_def)
  show ?thesis
  proof (cases "jtype = MSG_TYPE_HANDSHAKE")
    case True
    obtain c2 w2 where c2: "handle_handshake ?c w = Continue c2 w2" "shared w2 = shared w"
      using handshake_continues [of ?c w] by blast
    have "handle_packet env now ?h ?c w = Continue c2 w2" using True op c2(1) by (simp add: handle_packet_def)
    moreover have "rx_clean (rx c2)" "rx_bytes (rx c2) = []"
      using handle_packet_continue [OF calculation] e(1,2) by simp_all
    ultimately show ?thesis using handle_client_eof [of c2 env now w2] e(3) c2(2) True by auto
  next
    case False
    show ?thesis
    proof (cases "jtype = MSG_TYPE_RIDE_REQ")
      case True
      then have "handle_packet env now ?h ?c w = Break ?c w"
        using op by (simp add: handle_packet_def handle_ride_def protocol_consts new_conn_def)
      then show ?thesis using e(3) by (simp add: new_conn_def)
    next
      case other: False
      then have "handle_packet env now ?h ?c w = Continue ?c w"
        using op False by (simp add: handle_packet_def handle_join_def protocol_consts)
      moreover have "rx_clean (rx ?c)" "rx_bytes (rx ?c) = []" "sent ?c = []" using e(1,2) by (simp_all add: new_conn_def)
      ultimately show ?thesis using handle_client_eof [of ?c env now w] e(3) by auto
    qed
  qed
qed

section \<open>Properties\<close>

text \<open>
  the forged request is never served, whatever the uninitialised message type: the connection ends
  with the shared state untouched, and unless the type byte happens to be that of a handshake nothing
  is sent, so the client reports the refusal. The reason is the missing handshake: the packet is turned
  away before it is decrypted, so neither its key nor its checksum plays a part.
\<close>

theorem malicious_refused:
  "\<exists>from_client.
    (\<forall>es hb bb. rx_clean es \<and> rx_bytes es = from_client \<longrightarrow>
       (\<exists>c' w'. handle_client env now (new_conn es hb bb) w = (Returned, c', w') \<and> shared w' = shared w
          \<and> (jtype \<noteq> MSG_TYPE_HANDSHAKE \<longrightarrow> w' = w \<and> sent c' = [])))
    \<and> (\<forall>es jh msg. rx_clean es \<and> rx_bytes es = [] \<longrightarrow>
       (\<exists>c'. perform_malicious_request jtype junk client_id jh msg (new_conn es [] []) = Some (- 1, msg, c')
          \<and> sent c' = from_client))"
proof -
  obtain cipher where c: "rc4_crypt (ride_request_bytes (malicious_request junk client_id)) (c_bytes WRONG_SECRET_KEY) = Some cipher"
    "length cipher = 24" by (rule malicious_cipher)
  let ?out = "header_bytes (malicious_header jtype junk client_id) @ cipher"
  have client: "\<exists>c'. perform_malicious_request jtype junk client_id jh msg (new_conn es [] []) = Some (- 1, msg, c') \<and> sent c' = ?out"
    if "rx_clean es" "rx_bytes es = []" for es jh msg
  proof -
    note es = that
    obtain es' where "recv_n header_size es = (0, [], es')" by (rule recv_n_empty [OF es])
    then show ?thesis using c by (simp add: perform_malicious_request_def new_conn_def c_recv_def Let_def)
  qed
  show ?thesis
    by (rule exI [of _ ?out]) (use server_on_malicious [OF _ _ c(2)] client in blast)
qed

theorem malicious_refused_witness:
  "\<exists>es c' c''. handle_client id 100 (new_conn es [] []) (idle_worker zero_state) = (Returned, c', idle_worker zero_state)
     \<and> sent c' = [] \<and> perform_malicious_request 1 0 666 [] [] (new_conn [] [] []) = Some (- 1, [], c'') \<and> sent c'' = rx_bytes es"
proof -
  obtain fc where S: "\<forall>es hb bb. rx_clean es \<and> rx_bytes es = fc \<longrightarrow>
       (\<exists>c' w'. handle_client id 100 (new_conn es hb bb) (idle_worker zero_state) = (Returned, c', w')
          \<and> shared w' = shared (idle_worker zero_state)
          \<and> ((1 :: u8) \<noteq> MSG_TYPE_HANDSHAKE \<longrightarrow> w' = idle_worker zero_state \<and> sent c' = []))"
    and C: "\<forall>es jh msg. rx_clean es \<and> rx_bytes es = [] \<longrightarrow>
       (\<exists>c'. perform_malicious_request 1 0 666 jh msg (new_conn es [] []) = Some (- 1, msg, c') \<and> sent c' = fc)"
    using malicious_refused [of id 100 "idle_worker zero_state" 1 0 666] by blast
  obtain es where es: "rx_clean es" "rx_bytes es = fc" using some_stream by blast
  have t: "(1 :: u8) \<noteq> MSG_TYPE_HANDSHAKE" by (simp add: protocol_consts)
  obtain c' where "handle_client id 100 (new_conn es [] []) (idle_worker zero_state) = (Returned, c', idle_worker zero_state)" "sent c' = []"
    using S es t by blast
  moreover obtain c'' where "perform_malicious_request 1 0 666 [] [] (new_conn [] [] []) = Some (- 1, [], c'')" "sent c'' = rx_bytes es"
    using C es(2) by (metis rx_bytes.simps(1) rx_clean_def empty_iff list.set(1))
  ultimately show ?thesis by blast
qed

text \<open>
  when the server hangs up after the handshake, as it does on a request over the limit, the single
  client prints as the response of the server whatever its stack held in the message buffer.
\<close>

theorem single_client_prints_garbage:
  assumes "generate_private_key r = (a, r')" "generate_private_key r2 = (b, r2')" "calculate_public_key b = Some srv_pub"
    and "rx_clean es" "rx_bytes es = hello_reply srv_pub" "argc \<ge> 4" "0 \<le> fst (connect_to_server k port)"
  shows "single_main argc k port client_id r jh jb msg (new_conn es [] []) =
    Some (0, single_banner client_id @ [CHR 0xE2, CHR 0x9D, CHR 0x8C] @ '' Request failed or rejected. Response: '' @ buf_text msg @ [CHR 0x0A])"
proof -
  obtain pa pb s where k: "calculate_public_key a = Some pa" "calculate_public_key b = Some pb"
    "calculate_shared_secret pb a = Some s" "calculate_shared_secret pa b = Some s"
    "dh_residue pa" "dh_residue pb" "int64_range s" "ascii_key (c_bytes (derive_session_key s 64))"
    by (rule session_keys [OF assms(1,2)])
  have pb: "pb = srv_pub" using k(2) assms(3) by simp
  obtain cipher where cipher: "rc4_crypt (ride_request_bytes (make_request client_id)) (c_bytes (derive_session_key s 64)) = Some cipher"
    using rc4.crypt_total [OF k(8)] by blast
  have "\<exists>c'. perform_ride_request client_id r jh jb msg (new_conn es [] []) = Some (- 1, msg, r', c')
      \<and> sent c' = client_stream pa client_id cipher"
    by (rule client_cut_off [OF _ _ _ _ assms(1) k(1,6,3) cipher]) (use assms(4,5) pb in \<open>simp_all add: new_conn_def\<close>)
  then show ?thesis using assms(6,7) by (auto simp: single_main_def single_report_def)
qed

theorem single_client_prints_garbage_witness:
  "\<exists>es k. single_main 4 k 8080 7 (sconst 0) [] [] (c_bytes ''secret'' @ [0]) (new_conn es [] []) =
    Some (0, single_banner 7 @ [CHR 0xE2, CHR 0x9D, CHR 0x8C] @ '' Request failed or rejected. Response: ''
      @ buf_text (c_bytes ''secret'' @ [0]) @ [CHR 0x0A])"
proof -
  have g: "generate_private_key (sconst 0) = (1, sconst 0)" by (simp add: generate_private_key_def rand_mod_def c_rand_def)
  obtain p where p: "calculate_public_key 1 = Some p" using dh.pub_defined [of 1] by (auto simp: dh_priv_def)
  obtain es where es: "rx_clean es" "rx_bytes es = hello_reply p" using some_stream by blast
  let ?k = "\<lparr>ret_socket = 3, ret_setsockopt = 0, ret_bind = 0, ret_listen = 0, ret_inet_pton = 1, ret_connect = 0\<rparr>"
  have "0 \<le> fst (connect_to_server ?k 8080)" by (simp add: connect_to_server_def)
  from single_client_prints_garbage [OF g g p es _ this, of 4] show ?thesis by blast
qed

end
