(* ===== verification/Client_Clock.thy ===== *)
theory Client_Clock
  imports Log_System Double
begin

text \<open>
  src/client/client_core.c, the helpers for the output: the clock in milliseconds, the time of day with
  milliseconds and the hex dump. A reading of \<open>gettimeofday\<close> is its seconds and microseconds, with
  the calendar time \<open>localtime\<close> gives for it.
\<close>

section \<open>Operations\<close>

record timeval =
  tv_sec :: int
  tv_usec :: int

definition get_time_ms :: "timeval \<Rightarrow> double" where
  "get_time_ms tv = d_of_int (tv_sec tv) * d_lit 1000 + d_of_int (tv_usec tv) / d_lit 1000"

text \<open>\<open>"%H:%M:%S"\<close> and \<open>".%03d"\<close>\<close>

definition get_time_str :: "tm \<Rightarrow> timeval \<Rightarrow> string" where
  "get_time_str t tv = pad_digits 2 (tm_hour t) @ '':'' @ pad_digits 2 (tm_min t) @ '':'' @ pad_digits 2 (tm_sec t)
     @ ''.'' @ pad_digits 3 (nat (tv_usec tv div 1000))"

definition hex_char :: "nat \<Rightarrow> char" where
  "hex_char n = ''0123456789ABCDEF'' ! n"

definition hex_byte :: "u8 \<Rightarrow> string" where
  "hex_byte b = [hex_char (unat b div 16), hex_char (unat b mod 16)]"

definition print_hex :: "string \<Rightarrow> u8 list \<Rightarrow> string" where
  "print_hex label data = ''[DEBUG] '' @ label @ '': '' @ concat (map (\<lambda>b. hex_byte b @ '' '') data) @ [CHR 0x0A]"

section \<open>The clock\<close>

definition clock_ok :: "timeval \<Rightarrow> bool" where
  "clock_ok tv \<longleftrightarrow> 0 \<le> tv_sec tv \<and> tv_sec tv < 2 ^ 32 \<and> 0 \<le> tv_usec tv \<and> tv_usec tv < 1000000"

definition not_after :: "timeval \<Rightarrow> timeval \<Rightarrow> bool" where
  "not_after a b \<longleftrightarrow> tv_sec a < tv_sec b \<or> tv_sec a = tv_sec b \<and> tv_usec a \<le> tv_usec b"

text \<open>The time in milliseconds.\<close>

definition exact_ms :: "timeval \<Rightarrow> rat" where
  "exact_ms tv = of_int (tv_sec tv) * 1000 + of_int (tv_usec tv) / 1000"

lemma exact_ms_le:
  assumes "clock_ok a" "clock_ok b" "not_after a b"
  shows "exact_ms a \<le> exact_ms b"
proof -
  have "tv_sec a * 1000000 + tv_usec a \<le> tv_sec b * 1000000 + tv_usec b"
    using assms by (auto simp: clock_ok_def not_after_def)
  then have "(of_int (tv_sec a * 1000000 + tv_usec a) :: rat) \<le> of_int (tv_sec b * 1000000 + tv_usec b)"
    by (simp only: of_int_le_iff)
  then show ?thesis by (simp add: exact_ms_def field_simps)
qed

lemma rnd_of_int: "0 \<le> n \<Longrightarrow> n < 2 ^ 53 \<Longrightarrow> rnd (of_int n) = of_int n"
  using rnd_of_nat [of "nat n"] by (simp add: nat_less_iff)

text \<open>Seconds and milliseconds are exact; what is left are the roundings of the quotient and of the sum.\<close>

lemma get_time_ms_rat:
  assumes "clock_ok tv"
  shows "rat_of (get_time_ms tv) = rnd (of_int (tv_sec tv) * 1000 + rnd (of_int (tv_usec tv) / 1000))"
proof -
  have "rnd (of_int (tv_sec tv * 1000)) = of_int (tv_sec tv * 1000)"
    using assms by (intro rnd_of_int) (auto simp: clock_ok_def)
  moreover have "rnd (of_int (tv_sec tv)) = of_int (tv_sec tv)" "rnd (of_int (tv_usec tv)) = of_int (tv_usec tv)"
    using assms by (auto intro!: rnd_of_int simp: clock_ok_def)
  moreover have "rnd 1000 = 1000" using rnd_of_int [of 1000] by simp
  ultimately show ?thesis by (simp add: get_time_ms_def)
qed

lemma get_time_ms_mono:
  assumes "clock_ok a" "clock_ok b" "not_after a b"
  shows "get_time_ms a \<le> get_time_ms b"
proof -
  have us: "0 \<le> (of_int (tv_usec b) / 1000 :: rat)" "(of_int (tv_usec a) / 1000 :: rat) \<le> 1000"
    using assms(1,2) of_int_le_iff [of "tv_usec a" 1000000, where ?'a = rat] by (auto simp: clock_ok_def)
  have "of_int (tv_sec a) * 1000 + rnd (of_int (tv_usec a) / 1000) \<le> of_int (tv_sec b) * 1000 + rnd (of_int (tv_usec b) / 1000)"
  proof (cases "tv_sec a = tv_sec b")
    case True
    then have "tv_usec a \<le> tv_usec b" using assms(3) by (auto simp: not_after_def)
    then show ?thesis using True by (auto intro!: rnd_mono divide_right_mono)
  next
    case False
    then have "(of_int (tv_sec a + 1) :: rat) \<le> of_int (tv_sec b)" using assms(3) by (simp only: of_int_le_iff) (auto simp: not_after_def)
    moreover have "rnd (of_int (tv_usec a) / 1000) \<le> 1000" using rnd_mono [OF us(2)] rnd_of_int [of 1000] by simp
    ultimately show ?thesis using rnd_nonneg [OF us(1)] by simp
  qed
  then show ?thesis
    unfolding less_eq_double_def get_time_ms_rat [OF assms(1)] get_time_ms_rat [OF assms(2)] by (rule rnd_mono)
qed

lemma exact_ms_bounds:
  assumes "clock_ok tv" shows "0 \<le> exact_ms tv" "exact_ms tv \<le> 5000000000000"
proof -
  have "(of_int (tv_sec tv) :: rat) \<le> of_int (2 ^ 32)" "(of_int (tv_usec tv) :: rat) \<le> of_int 1000000"
    "(of_int 0 :: rat) \<le> of_int (tv_sec tv)" "(of_int 0 :: rat) \<le> of_int (tv_usec tv)"
    using assms by (auto simp only: of_int_le_iff clock_ok_def)
  then show "0 \<le> exact_ms tv" "exact_ms tv \<le> 5000000000000" by (simp_all add: exact_ms_def)
qed

text \<open>One reading is off by at most a thousandth of a millisecond.\<close>

lemma get_time_ms_error:
  assumes "clock_ok tv" shows "\<bar>rat_of (get_time_ms tv) - exact_ms tv\<bar> \<le> 1 / 1000"
proof -
  let ?q = "of_int (tv_usec tv) / 1000 :: rat" and ?s = "of_int (tv_sec tv) * 1000 :: rat"
  have q: "0 \<le> ?q" "?q \<le> 1000"
    using assms of_int_le_iff [of "tv_usec tv" 1000000, where ?'a = rat] by (auto simp: clock_ok_def)
  have "?q / 2 ^ 53 \<le> 1000 / 2 ^ 53" using q(2) by (rule divide_right_mono) simp
  then have "\<bar>rnd ?q - ?q\<bar> \<le> 1000 / 2 ^ 53" using rnd_error [of ?q] q(1) by simp
  then have e1: "\<bar>rnd ?q - ?q\<bar> \<le> 1 / 1000000" by (rule order_trans) simp
  let ?t = "?s + rnd ?q"
  have s: "?s + ?q = exact_ms tv" by (simp add: exact_ms_def)
  have t: "0 \<le> ?t" "?t \<le> 8000000000000"
    using e1 exact_ms_bounds [OF assms] rnd_nonneg [OF q(1)] assms unfolding s [symmetric] abs_le_iff
    by (simp add: clock_ok_def, linarith)
  have "?t / 2 ^ 53 \<le> 8000000000000 / 2 ^ 53" using t(2) by (rule divide_right_mono) simp
  then have "\<bar>rnd ?t - ?t\<bar> \<le> 8000000000000 / 2 ^ 53" using rnd_error [of ?t] t(1) by simp
  then have e2: "\<bar>rnd ?t - ?t\<bar> \<le> 1 / 1024" by simp
  show ?thesis unfolding get_time_ms_rat [OF assms] s [symmetric] using e1 e2 unfolding abs_le_iff by linarith
qed

text \<open>
  the latency a client measures: with a clock that is not set back between the two readings it is
  never negative, and it is within a hundredth of a millisecond of the true difference, until 2106.
\<close>

theorem latency_accuracy:
  assumes "clock_ok a" "clock_ok b" "not_after a b"
  shows "0 \<le> rat_of (get_time_ms b - get_time_ms a)
    \<and> \<bar>rat_of (get_time_ms b - get_time_ms a) - (exact_ms b - exact_ms a)\<bar> \<le> 1 / 100"
proof
  let ?d = "rat_of (get_time_ms b) - rat_of (get_time_ms a)"
  have d: "0 \<le> ?d" using get_time_ms_mono [OF assms] by (simp add: less_eq_double_def)
  then show "0 \<le> rat_of (get_time_ms b - get_time_ms a)" by (simp add: rnd_nonneg)
  note e = get_time_ms_error [OF assms(1)] get_time_ms_error [OF assms(2)]
  have "?d \<le> 8000000000000" using e exact_ms_bounds [OF assms(1)] exact_ms_bounds [OF assms(2)] unfolding abs_le_iff by linarith
  then have "?d / 2 ^ 53 \<le> 8000000000000 / 2 ^ 53" by (rule divide_right_mono) simp
  then have "\<bar>rnd ?d - ?d\<bar> \<le> 8000000000000 / 2 ^ 53" using rnd_error [of ?d] d by simp
  then have "\<bar>rnd ?d - ?d\<bar> \<le> 1 / 1024" by simp
  then show "\<bar>rat_of (get_time_ms b - get_time_ms a) - (exact_ms b - exact_ms a)\<bar> \<le> 1 / 100"
    using e unfolding rat_of_ops abs_le_iff by linarith
qed

theorem latency_accuracy_witness:
  "0 \<le> rat_of (get_time_ms \<lparr>tv_sec = 1765000001, tv_usec = 250\<rparr> - get_time_ms \<lparr>tv_sec = 1765000000, tv_usec = 999999\<rparr>)"
  using latency_accuracy [of "\<lparr>tv_sec = 1765000000, tv_usec = 999999\<rparr>" "\<lparr>tv_sec = 1765000001, tv_usec = 250\<rparr>"]
  by (simp add: clock_ok_def not_after_def)

end
