(* ===== verification/Stress_Client.thy ===== *)
theory Stress_Client
  imports Client_Core Client_Clock
begin

text \<open>
  src/client/stress_client.c: many client threads that share one statistics record and one array of final
  states. A thread is the sequence of its attempts; each attempt either found no server or gave the
  result of \<open>perform_ride_request\<close> with its latency. The threads run interleaved, so a run of the program
  is a list of attempts in the order of the lock, each with the index of its thread.
\<close>

section \<open>Data\<close>

datatype ClientResultStatus =
  STATUS_INIT | STATUS_SUCCESS | STATUS_FAIL_NO_DRIVER | STATUS_FAIL_DOS | STATUS_FAIL_OTHER

record ClientStatusEntry =
  entry_client_id :: int
  final_status :: ClientResultStatus

record ClientStats =
  total_requests :: int
  success_count :: int
  fail_count :: int
  total_latency_ms :: double

datatype attempt = NoConnection | Answer int double

text \<open>An attempt that reached the server, from the readings of the clock before and after it.\<close>

definition measured :: "timeval \<Rightarrow> timeval \<Rightarrow> int \<Rightarrow> attempt" where
  "measured start_time end_time result = Answer result (get_time_ms end_time - get_time_ms start_time)"

text \<open>The shared statistics and states, and the local success counters of the threads.\<close>

record Stress =
  stats :: ClientStats
  status_list :: "ClientStatusEntry list"
  success_local :: "nat list"

section \<open>One thread\<close>

definition count_answer :: "int \<Rightarrow> double \<Rightarrow> ClientStats \<Rightarrow> ClientStats" where
  "count_answer result latency st =
     (let st = st\<lparr>total_requests := total_requests st + 1\<rparr> in
      if result = 0 then st\<lparr>success_count := success_count st + 1, total_latency_ms := total_latency_ms st + latency\<rparr>
      else st\<lparr>fail_count := fail_count st + 1\<rparr>)"

definition note_result :: "int \<Rightarrow> ClientStatusEntry \<Rightarrow> ClientStatusEntry" where
  "note_result result e =
     (if result = 0 then e
      else if result = - 2 then (if final_status e = STATUS_INIT then e\<lparr>final_status := STATUS_FAIL_DOS\<rparr> else e)
      else (if final_status e = STATUS_INIT then e\<lparr>final_status := STATUS_FAIL_NO_DRIVER\<rparr> else e))"

definition thread_end :: "nat \<Rightarrow> ClientStatusEntry \<Rightarrow> ClientStatusEntry" where
  "thread_end successes e =
     (if 0 < successes then e\<lparr>final_status := STATUS_SUCCESS\<rparr>
      else if final_status e = STATUS_INIT then e\<lparr>final_status := STATUS_FAIL_NO_DRIVER\<rparr> else e)"

definition stress_attempt :: "nat \<times> attempt \<Rightarrow> Stress \<Rightarrow> Stress" where
  "stress_attempt ia x =
     (case ia of (i, a) \<Rightarrow>
        (case a of
           NoConnection \<Rightarrow> x
         | Answer result latency \<Rightarrow>
             x\<lparr>stats := count_answer result latency (stats x),
               success_local := (if result = 0 then (success_local x)[i := success_local x ! i + 1] else success_local x),
               status_list := (status_list x)[i := note_result result (status_list x ! i)]\<rparr>))"

section \<open>The program\<close>

definition REQUESTS_PER_CLIENT :: nat where "REQUESTS_PER_CLIENT = 10"

definition num_threads :: "int \<Rightarrow> nat" where
  "num_threads n = nat (if n \<le> 0 then 1 else if 5000 < n then 5000 else n)"

definition stress_init :: "nat \<Rightarrow> Stress" where
  "stress_init n = \<lparr>stats = \<lparr>total_requests = 0, success_count = 0, fail_count = 0, total_latency_ms = 0\<rparr>,
     status_list = map (\<lambda>i. \<lparr>entry_client_id = int i + 1, final_status = STATUS_INIT\<rparr>) [0..<n],
     success_local = replicate n 0\<rparr>"

text \<open>The threads up to \<open>pthread_join\<close>.\<close>

definition stress_run :: "nat \<Rightarrow> (nat \<times> attempt) list \<Rightarrow> Stress" where
  "stress_run n run =
     (let x = fold stress_attempt run (stress_init n)
      in x\<lparr>status_list := map2 thread_end (success_local x) (status_list x)\<rparr>)"

text \<open>The status column holds UTF-8 text, which \<open>%-22s\<close> pads by bytes.\<close>

definition status_text :: "ClientResultStatus \<Rightarrow> string" where
  "status_text s =
     (case s of
        STATUS_SUCCESS \<Rightarrow> [CHR 0xE2, CHR 0x9C, CHR 0x85] @ '' SUCCESS''
      | STATUS_FAIL_DOS \<Rightarrow> [CHR 0xE2, CHR 0x9A, CHR 0xA0, CHR 0xEF, CHR 0xB8, CHR 0x8F] @ '' FAILED (DoS Blocked)''
      | STATUS_FAIL_NO_DRIVER \<Rightarrow> [CHR 0xE2, CHR 0x9D, CHR 0x8C] @ '' FAILED (No Driver/Conn)''
      | _ \<Rightarrow> [CHR 0xE2, CHR 0x9D, CHR 0x93] @ '' INCOMPLETE'')"

definition table_row :: "ClientStatusEntry \<Rightarrow> string" where
  "table_row e = ''| '' @ pad_right 8 (show_int (entry_client_id e)) @ '' | '' @ pad_right 22 (status_text (final_status e))
     @ '' |'' @ [CHR 0x0A]"

definition table_rule :: string where
  "table_rule = ''+----------+------------------------+'' @ [CHR 0x0A]"

definition print_client_status_table :: "ClientStatusEntry list \<Rightarrow> nat \<Rightarrow> string" where
  "print_client_status_table xs n =
     [CHR 0x0A, CHR 0x0A] @ ''=== Client Request Summary Table ('' @ show_nat n @ '' Clients) ==='' @ [CHR 0x0A]
     @ table_rule @ ''| Client ID| Final Status           |'' @ [CHR 0x0A] @ table_rule
     @ concat (map table_row (take n xs)) @ table_rule"

definition summary_text :: "ClientStats \<Rightarrow> double \<Rightarrow> string" where
  "summary_text st duration =
     [CHR 0x0A] @ ''=== Stress Test Summary ==='' @ [CHR 0x0A]
     @ ''Total Duration   : '' @ show_fixed 2 duration @ '' ms'' @ [CHR 0x0A]
     @ ''Total Requests   : '' @ show_int (total_requests st) @ [CHR 0x0A]
     @ ''Successful Rides : '' @ show_int (success_count st) @ [CHR 0x0A]
     @ ''Failed Requests  : '' @ show_int (fail_count st) @ [CHR 0x0A]
     @ (if 0 < success_count st
        then ''Avg Latency      : '' @ show_fixed 2 (total_latency_ms st / d_of_int (success_count st)) @ '' ms'' @ [CHR 0x0A]
        else [])
     @ ''==========================='' @ [CHR 0x0A]"

text \<open>\<open>main\<close>: the program name, the value \<open>atoi\<close> gives for the number of clients, whether the status array was allocated, the run.\<close>

definition stress_main :: "string \<Rightarrow> nat \<Rightarrow> int \<Rightarrow> bool \<Rightarrow> (nat \<times> attempt) list \<Rightarrow> double \<Rightarrow> int \<times> string" where
  "stress_main argv0 argc num_clients malloc_ok run duration =
     (if argc < 4 then (1, ''Usage: '' @ argv0 @ '' <Server IP> <Port> <Num Clients>'' @ [CHR 0x0A])
      else if \<not> malloc_ok then (1, [])
      else let n = num_threads num_clients; x = stress_run n run
           in (0, print_client_status_table (status_list x) n @ summary_text (stats x) duration))"

section \<open>Facts\<close>

text \<open>The answers one thread got, in order.\<close>

definition answers :: "(nat \<times> attempt) list \<Rightarrow> int list" where
  "answers run = [r. (_, Answer r _) \<leftarrow> run]"

definition answers_of :: "nat \<Rightarrow> (nat \<times> attempt) list \<Rightarrow> int list" where
  "answers_of i run = answers (filter (\<lambda>x. fst x = i) run)"

lemma answers_simps [simp]:
  "answers [] = []" "answers ((i, NoConnection) # run) = answers run"
  "answers ((i, Answer r l) # run) = r # answers run"
  by (simp_all add: answers_def)

lemma answers_of_simps [simp]:
  "answers_of i [] = []"
  "answers_of i ((j, a) # run) = (if j = i then answers [(j, a)] @ answers_of i run else answers_of i run)"
  by (cases a; simp add: answers_of_def)+

fun first_failure :: "int list \<Rightarrow> ClientResultStatus \<Rightarrow> ClientResultStatus" where
  "first_failure [] s = s"
| "first_failure (r # rs) s = first_failure rs (final_status (note_result r \<lparr>entry_client_id = 0, final_status = s\<rparr>))"

lemma note_result_status:
  "final_status (note_result r e) = final_status (note_result r \<lparr>entry_client_id = 0, final_status = final_status e\<rparr>)"
  "entry_client_id (note_result r e) = entry_client_id e"
  by (simp_all add: note_result_def)

lemma run_stats:
  fixes run x defines "y \<equiv> fold stress_attempt run x"
  shows "total_requests (stats y) = total_requests (stats x) + int (length (answers run))"
    "success_count (stats y) = success_count (stats x) + int (count_list (answers run) 0)"
    "fail_count (stats y) = fail_count (stats x) + (int (length (answers run)) - int (count_list (answers run) 0))"
  unfolding y_def
proof (induction run arbitrary: x)
  case (Cons ia run)
  obtain i a where ia: "ia = (i, a)" by (cases ia)
  {
    case 1 then show ?case using Cons(1) ia by (cases a) (simp_all add: stress_attempt_def count_answer_def Let_def)
  next
    case 2 then show ?case using Cons(2) ia by (cases a) (simp_all add: stress_attempt_def count_answer_def Let_def)
  next
    case 3 then show ?case using Cons(3) ia by (cases a) (simp_all add: stress_attempt_def count_answer_def Let_def)
  }
qed simp_all

lemma run_thread:
  fixes run x defines "y \<equiv> fold stress_attempt run x"
  assumes "i < length (status_list x)" "length (success_local x) = length (status_list x)"
  shows "length (status_list y) = length (status_list x) \<and> length (success_local y) = length (status_list x)
    \<and> success_local y ! i = success_local x ! i + count_list (answers_of i run) 0
    \<and> entry_client_id (status_list y ! i) = entry_client_id (status_list x ! i)
    \<and> final_status (status_list y ! i) = first_failure (answers_of i run) (final_status (status_list x ! i))"
  using assms(2,3) unfolding y_def
proof (induction run arbitrary: x)
  case (Cons ja run)
  obtain j a where ja: "ja = (j, a)" by (cases ja)
  let ?x = "stress_attempt ja x"
  have len: "length (status_list ?x) = length (status_list x)" "length (success_local ?x) = length (success_local x)"
    by (cases a; simp add: ja stress_attempt_def)+
  have here: "success_local ?x ! i = success_local x ! i + count_list (answers_of i [ja]) 0"
    "entry_client_id (status_list ?x ! i) = entry_client_id (status_list x ! i)"
    "final_status (status_list ?x ! i) = first_failure (answers_of i [ja]) (final_status (status_list x ! i))"
    using Cons.prems note_result_status [of _ "status_list x ! i"]
    by (cases a; cases "j = i"; simp add: ja stress_attempt_def)+
  have split: "answers_of i (ja # run) = answers_of i [ja] @ answers_of i run"
    by (cases a) (simp_all add: ja)
  have ff: "first_failure (as @ bs) s = first_failure bs (first_failure as s)" for as bs s
    by (induction as arbitrary: s) simp_all
  show ?case
    using Cons.IH [of ?x] Cons.prems len here unfolding split by (simp add: ff del: answers_of_simps)
qed simp

lemma first_failure_fixed: "s \<noteq> STATUS_INIT \<Longrightarrow> first_failure rs s = s"
  by (induction rs) (simp_all add: note_result_def)

lemma first_failure_no_success:
  "0 \<notin> set rs \<Longrightarrow> first_failure rs STATUS_INIT =
     (case rs of [] \<Rightarrow> STATUS_INIT | r # _ \<Rightarrow> if r = - 2 then STATUS_FAIL_DOS else STATUS_FAIL_NO_DRIVER)"
  by (cases rs) (simp_all add: note_result_def first_failure_fixed)

text \<open>
  C40: the stress test reports what happened, whatever the interleaving of the threads: the totals are the
  numbers of the attempts that reached a server, of the rides and of the failures, and with the attempts
  without a connection they make up ten per client; the final state of a client is SUCCESS exactly when it
  got a ride, DoS when it got none and its first answer was a block, and No Driver otherwise. The table
  never shows INCOMPLETE.
\<close>

theorem stress_report:
  assumes "set (map fst run) \<subseteq> {..<n}" "\<And>i. i < n \<Longrightarrow> count_list (map fst run) i = REQUESTS_PER_CLIENT"
    and "x = stress_run n run" "i < n"
  shows "total_requests (stats x) = int (length (answers run)) \<and> success_count (stats x) = int (count_list (answers run) 0)
    \<and> success_count (stats x) + fail_count (stats x) = total_requests (stats x)
    \<and> total_requests (stats x) + int (length (filter (\<lambda>y. snd y = NoConnection) run)) = 10 * int n
    \<and> length (status_list x) = n \<and> entry_client_id (status_list x ! i) = int i + 1
    \<and> final_status (status_list x ! i) =
        (if 0 \<in> set (answers_of i run) then STATUS_SUCCESS
         else if take 1 (answers_of i run) = [- 2] then STATUS_FAIL_DOS else STATUS_FAIL_NO_DRIVER)"
proof -
  let ?y = "fold stress_attempt run (stress_init n)"
  have i: "i < length (status_list (stress_init n))" "length (success_local (stress_init n)) = length (status_list (stress_init n))"
    using assms(4) by (simp_all add: stress_init_def)
  note th = run_thread [OF i, of run]
  have init: "success_local (stress_init n) ! i = 0" "status_list (stress_init n) ! i = \<lparr>entry_client_id = int i + 1, final_status = STATUS_INIT\<rparr>"
    "length (status_list (stress_init n)) = n"
    using assms(4) by (simp_all add: stress_init_def)
  have x: "stats x = stats ?y" "length (status_list x) = n"
    "status_list x ! i = thread_end (success_local ?y ! i) (status_list ?y ! i)"
    using th init(3) assms(3,4) by (simp_all add: stress_run_def Let_def)
  have "length run = 10 * n"
    using sum_count_set [OF assms(1)] assms(2) by (simp add: REQUESTS_PER_CLIENT_def)
  moreover have "length (answers run) + length (filter (\<lambda>y. snd y = NoConnection) run) = length run"
  proof (induction run)
    case (Cons ia run)
    obtain i a where "ia = (i, a)" by (cases ia)
    with Cons show ?case by (cases a) simp_all
  qed simp
  moreover have "final_status (status_list x ! i) =
        (if 0 \<in> set (answers_of i run) then STATUS_SUCCESS
         else if take 1 (answers_of i run) = [- 2] then STATUS_FAIL_DOS else STATUS_FAIL_NO_DRIVER)"
    using th init first_failure_no_success [of "answers_of i run"] count_notin [of 0 "answers_of i run"]
      count_list_0_iff [of "answers_of i run" 0]
    by (auto simp: x(3) thread_end_def split: list.splits)
  moreover have "entry_client_id (status_list x ! i) = int i + 1"
    using th init by (simp add: x(3) thread_end_def)
  ultimately show ?thesis
    using run_stats [of run "stress_init n"] x by (simp add: stress_init_def)
qed

theorem stress_report_witness:
  "let run = replicate 9 (0, NoConnection) @ [(1, Answer (- 1) 0), (0, Answer (- 2) 0)] @ replicate 9 (1, Answer 0 0);
       x = stress_run 2 run
   in total_requests (stats x) = 11 \<and> success_count (stats x) = 9
     \<and> final_status (status_list x ! 0) = STATUS_FAIL_DOS"
proof -
  let ?run = "replicate 9 (0 :: nat, NoConnection) @ [(1, Answer (- 1) 0), (0, Answer (- 2) 0)] @ replicate 9 (1, Answer 0 0)"
  have c: "count_list (map fst ?run) i = REQUESTS_PER_CLIENT" if "i < 2" for i :: nat
    using that by (cases "i = 0") (auto simp: REQUESTS_PER_CLIENT_def numeral_eq_Suc less_Suc_eq)
  have a: "answers ?run = - 1 # - 2 # replicate 9 0" "answers_of 0 ?run = [- 2]"
    by (simp_all add: numeral_eq_Suc)
  have s: "set (map fst ?run) \<subseteq> {..<2}" by auto
  from stress_report [OF s c refl, of 0] show ?thesis unfolding Let_def a by (simp add: numeral_eq_Suc)
qed

end
