(* ===== verification/Stress_Thread.thy ===== *)
theory Stress_Thread
  imports Stress_Client
begin

text \<open>
  One thread of src/client/stress_client.c by itself: \<open>stress_client_thread_func\<close> with its arguments, the lines it
  prints and the time it sleeps. \<open>Stress_Client\<close> has the statistics all threads share, for every
  interleaving; the last lemmas here say that each thread finds there what it would find alone.
\<close>

section \<open>The arguments and the state of a thread\<close>

record ThreadArgs =
  client_id :: int
  server_ip :: string
  server_port :: int
  requests_per_thread :: nat

text \<open>What \<open>main\<close> passes to thread \<open>i\<close>.\<close>

definition thread_args :: "string \<Rightarrow> int \<Rightarrow> nat \<Rightarrow> ThreadArgs" where
  "thread_args ip port i = \<lparr>client_id = int i + 1, server_ip = ip, server_port = port, requests_per_thread = REQUESTS_PER_CLIENT\<rparr>"

record Progress =
  printed :: string
  slept :: int
  successes :: nat
  own_entry :: ClientStatusEntry
  own_gen :: rng

section \<open>One attempt\<close>

definition pad_left :: "nat \<Rightarrow> string \<Rightarrow> string" where
  "pad_left k s = replicate (k - length s) CHR '' '' @ s"

text \<open>Only the first 30 clients report, with the time and what \<open>msg_buffer\<close> holds.\<close>

definition progress_line :: "int \<Rightarrow> string \<Rightarrow> string \<Rightarrow> int \<Rightarrow> string" where
  "progress_line c time_buf msg_buffer result =
     (if 30 < c then []
      else if result = 0
        then ''['' @ time_buf @ ''] Client '' @ pad_left 3 (show_int c) @ '': '' @ msg_buffer @ [CHR 0x0A]
      else if result = - 2
        then [CHR 0x1B] @ ''[1;33m[Client '' @ show_int c @ ''] Blocked! Retrying.'' @ [CHR 0x1B] @ ''[0m'' @ [CHR 0x0A]
      else ''[Client '' @ show_int c @ ''] Request failed/no driver. Retrying.'' @ [CHR 0x0A])"

text \<open>The argument of \<open>usleep\<close>.\<close>

definition retry_delay :: "int \<Rightarrow> rng \<Rightarrow> int \<times> rng" where
  "retry_delay result r =
     (if result = 0 then (200 * 1000, r)
      else if result = - 2 then let (v, r) = rand_mod 500 r in ((v + 500) * 1000, r)
      else let (v, r) = rand_mod 300 r in ((v + 200) * 1000, r))"

type_synonym round_trip = "string \<times> string \<times> attempt"

definition thread_attempt :: "int \<Rightarrow> round_trip \<Rightarrow> Progress \<Rightarrow> Progress" where
  "thread_attempt c rt x =
     (case rt of (time_buf, msg_buffer, a) \<Rightarrow>
        (case a of
           NoConnection \<Rightarrow> x\<lparr>slept := slept x + 100 * 1000\<rparr>
         | Answer result latency \<Rightarrow>
             let (delay, r) = retry_delay result (own_gen x)
             in x\<lparr>successes := (if result = 0 then successes x + 1 else successes x),
                  printed := printed x @ progress_line c time_buf msg_buffer result,
                  own_entry := note_result result (own_entry x),
                  slept := slept x + delay, own_gen := r\<rparr>))"

section \<open>The thread\<close>

text \<open>It makes \<open>requests_per_thread\<close> attempts, whatever they give, and then settles its final state.\<close>

definition stress_client_thread_func :: "ThreadArgs \<Rightarrow> rng \<Rightarrow> round_trip list \<Rightarrow> ClientStatusEntry \<Rightarrow> Progress" where
  "stress_client_thread_func args r rts e =
     (let x = fold (thread_attempt (client_id args)) (take (requests_per_thread args) rts)
                \<lparr>printed = [], slept = 0, successes = 0, own_entry = e, own_gen = r\<rparr>
      in x\<lparr>own_entry := thread_end (successes x) (own_entry x)\<rparr>)"

section \<open>Facts\<close>

lemma retry_delay_bounds: "200000 \<le> fst (retry_delay result r)" "fst (retry_delay result r) \<le> 999000"
  using rand_mod_bounds [of 500 r] rand_mod_bounds [of 300 r]
  by (auto simp: retry_delay_def split_beta Let_def)

lemma attempts_sleep:
  "slept x + 100000 * int (length rts) \<le> slept (fold (thread_attempt c) rts x)
   \<and> slept (fold (thread_attempt c) rts x) \<le> slept x + 999000 * int (length rts)"
proof (induction rts arbitrary: x)
  case (Cons rt rts)
  obtain t m a where rt: "rt = (t, m, a)" by (cases rt)
  have "slept x + 100000 \<le> slept (thread_attempt c rt x) \<and> slept (thread_attempt c rt x) \<le> slept x + 999000"
  proof (cases a)
    case (Answer result l)
    then show ?thesis using retry_delay_bounds [of result "own_gen x"] by (simp add: rt thread_attempt_def split_beta Let_def)
  qed (simp add: rt thread_attempt_def)
  with Cons.IH [of "thread_attempt c rt x"] show ?case by simp
qed simp

text \<open>The answers among the attempts of one thread.\<close>

definition got :: "round_trip list \<Rightarrow> int list" where
  "got rts = [r. (_, _, Answer r _) \<leftarrow> rts]"

lemma got_simps [simp]:
  "got [] = []" "got ((t, m, NoConnection) # rts) = got rts" "got ((t, m, Answer r l) # rts) = r # got rts"
  by (simp_all add: got_def)

lemma attempts_entry:
  "successes (fold (thread_attempt c) rts x) = successes x + count_list (got rts) 0
   \<and> entry_client_id (own_entry (fold (thread_attempt c) rts x)) = entry_client_id (own_entry x)
   \<and> final_status (own_entry (fold (thread_attempt c) rts x)) = first_failure (got rts) (final_status (own_entry x))"
proof (induction rts arbitrary: x)
  case (Cons rt rts)
  obtain t m a where rt: "rt = (t, m, a)" by (cases rt)
  show ?case
  proof (cases a)
    case (Answer result l)
    with Cons.IH [of "thread_attempt c rt x"] note_result_status [of result "own_entry x"] show ?thesis
      by (simp add: rt thread_attempt_def split_beta Let_def)
  qed (use Cons.IH [of "thread_attempt c rt x"] in \<open>simp add: rt thread_attempt_def\<close>)
qed simp

lemma thread_end_cong:
  "final_status e = final_status e' \<Longrightarrow> entry_client_id e = entry_client_id e' \<Longrightarrow> thread_end k e = thread_end k e'"
  by (cases e; cases e') (simp add: thread_end_def)

text \<open>
  the threads of the stress test do not disturb each other: in every interleaving the entry of a client in
  the table is the one its thread would have left alone, for the same attempts. A thread sleeps from 1 to
  9.99 seconds in all.
\<close>

theorem threads_independent:
  assumes "i < n" "length rts = REQUESTS_PER_CLIENT" "[a. (j, a) \<leftarrow> run, j = i] = map (snd \<circ> snd) rts"
    and "x = stress_client_thread_func (thread_args ip port i) r rts \<lparr>entry_client_id = int i + 1, final_status = STATUS_INIT\<rparr>"
  shows "status_list (stress_run n run) ! i = own_entry x \<and> 1000000 \<le> slept x \<and> slept x \<le> 9990000"
proof -
  let ?e = "\<lparr>entry_client_id = int i + 1, final_status = STATUS_INIT\<rparr>"
  let ?p = "\<lparr>printed = [], slept = 0, successes = 0, own_entry = ?e, own_gen = r\<rparr>"
  let ?x = "fold (thread_attempt (int i + 1)) rts ?p" and ?y = "fold stress_attempt run (stress_init n)"
  have x: "x = ?x\<lparr>own_entry := thread_end (successes ?x) (own_entry ?x)\<rparr>"
    using assms(2) by (simp add: assms(4) stress_client_thread_func_def thread_args_def Let_def)
  have same: "answers_of i run = got rts"
  proof -
    have a: "answers_of i run = [r. Answer r _ \<leftarrow> [a. (j, a) \<leftarrow> run, j = i]]"
    proof (induction run)
      case (Cons ja run)
      obtain j a where "ja = (j, a)" by (cases ja)
      with Cons show ?case by (cases a) simp_all
    qed simp
    have "got rts = [r. Answer r _ \<leftarrow> map (snd \<circ> snd) rts]"
    proof (induction rts)
      case (Cons rt rts)
      obtain t m a where "rt = (t, m, a)" by (cases rt)
      with Cons show ?case by (cases a) simp_all
    qed simp
    then show ?thesis unfolding a assms(3) by simp
  qed
  have init: "i < length (status_list (stress_init n))" "length (success_local (stress_init n)) = length (status_list (stress_init n))"
    "success_local (stress_init n) ! i = 0" "status_list (stress_init n) ! i = ?e" "length (status_list (stress_init n)) = n"
    using assms(1) by (simp_all add: stress_init_def)
  note th = run_thread [OF init(1,2), of run] and en = attempts_entry [of "int i + 1" rts ?p]
  have "status_list (stress_run n run) ! i = thread_end (success_local ?y ! i) (status_list ?y ! i)"
    using th assms(1) init(5) by (simp add: stress_run_def Let_def)
  also have "\<dots> = thread_end (successes ?x) (own_entry ?x)"
    using th en init(3,4) same thread_end_cong [of "status_list ?y ! i" "own_entry ?x"] by simp
  finally have "status_list (stress_run n run) ! i = own_entry x" by (simp add: x)
  then show ?thesis using attempts_sleep [of ?p rts "int i + 1"] assms(2) by (simp add: x REQUESTS_PER_CLIENT_def)
qed

theorem threads_independent_witness:
  "status_list (stress_run 1 (replicate 10 (0, NoConnection))) ! 0
     = own_entry (stress_client_thread_func (thread_args ''127.0.0.1'' 8080 0) (sconst 0) (replicate 10 ([], [], NoConnection))
         \<lparr>entry_client_id = 1, final_status = STATUS_INIT\<rparr>)"
  using threads_independent [of 0 1 "replicate 10 ([], [], NoConnection)" "replicate 10 (0, NoConnection)", OF _ _ _ refl,
      of "''127.0.0.1''" 8080 "sconst 0"]
  by (simp add: REQUESTS_PER_CLIENT_def numeral_eq_Suc)

end
