(* ===== verification/Rendezvous.thy ===== *)
theory Rendezvous
  imports Sessions "HOL-Library.Sublist"
begin

text \<open>
  The dialogue of a client with a worker as it happens: both sides start with nothing received, each
  writes what its own input so far lets it write and then waits in \<open>recv_n\<close>, and the network delivers
  what has been written in pieces of any size. The theorems show that the two never wait for each other,
  and where every run of the dialogue ends.
\<close>

section \<open>What a side has written\<close>

text \<open>
  With the bytes \<open>d\<close> received and the connection open, the client has written \<open>out\<close> and is done or
  waits for more; so for the worker. The chunks, the interrupts and the contents of the uninitialised
  buffers are arbitrary.
\<close>

inductive client_says :: "int \<Rightarrow> rng \<Rightarrow> u8 list \<Rightarrow> u8 list \<Rightarrow> bool" for client_id rc where
  "open_after es d \<Longrightarrow> perform_ride_request client_id rc jh jb msg (new_conn es [] []) = Some (res, m, r', c') \<Longrightarrow>
     client_says client_id rc d (sent c')"

inductive worker_says :: "(SharedState \<Rightarrow> SharedState) \<Rightarrow> int \<Rightarrow> Worker \<Rightarrow> u8 list \<Rightarrow> u8 list \<Rightarrow> bool" for env now w where
  "open_after es u \<Longrightarrow> handle_client env now (new_conn es hb bb) w = (res, c', w') \<Longrightarrow>
     worker_says env now w u (sent c')"

inductive_cases client_saysE: "client_says client_id rc d out"
inductive_cases worker_saysE: "worker_says env now w u out"

text \<open>
  The state of the wire: what the worker has received and what the client has. A step delivers some
  more of what the other side has written.
\<close>

inductive deliver :: "(u8 list \<Rightarrow> u8 list \<Rightarrow> bool) \<Rightarrow> (u8 list \<Rightarrow> u8 list \<Rightarrow> bool) \<Rightarrow>
    u8 list \<times> u8 list \<Rightarrow> u8 list \<times> u8 list \<Rightarrow> bool" for client worker where
  up: "client d out \<Longrightarrow> prefix u' out \<Longrightarrow> strict_prefix u u' \<Longrightarrow> deliver client worker (u, d) (u', d)"
| down: "worker u out \<Longrightarrow> prefix d' out \<Longrightarrow> strict_prefix d d' \<Longrightarrow> deliver client worker (u, d) (u, d')"

inductive_cases deliverE: "deliver client worker x y"

section \<open>A dialogue of two messages each\<close>

text \<open>
  The client says \<open>hello\<close>, and all of \<open>fc\<close> once it has \<open>ack\<close>; the worker says \<open>ack\<close> once it has
  \<open>hello\<close>, and all of \<open>fs\<close> once it has \<open>fc\<close>.
\<close>

definition client_part :: "u8 list \<Rightarrow> u8 list \<Rightarrow> u8 list \<Rightarrow> u8 list \<Rightarrow> u8 list" where
  "client_part hello ack fc d = (if prefix ack d then fc else hello)"

definition worker_part :: "u8 list \<Rightarrow> u8 list \<Rightarrow> u8 list \<Rightarrow> u8 list \<Rightarrow> u8 list \<Rightarrow> u8 list" where
  "worker_part hello ack fc fs u = (if u = fc then fs else if prefix hello u then ack else [])"

lemma client_part_mono: "prefix hello fc \<Longrightarrow> prefix d d' \<Longrightarrow> prefix (client_part hello ack fc d) (client_part hello ack fc d')"
  by (auto simp: client_part_def dest: prefix_order.trans)

lemma worker_part_mono:
  "prefix ack fs \<Longrightarrow> prefix u u' \<Longrightarrow> prefix u' fc \<Longrightarrow>
     prefix (worker_part hello ack fc fs u) (worker_part hello ack fc fs u')"
  by (auto simp: worker_part_def dest: prefix_order.trans prefix_order.antisym)

lemma dialogue_run:
  assumes h: "prefix hello fc" "prefix ack fs"
    and C: "\<And>d out. prefix d fs \<Longrightarrow> client d out \<Longrightarrow> out = client_part hello ack fc d"
    and W: "\<And>u out. prefix u fc \<Longrightarrow> worker u out \<Longrightarrow> out = worker_part hello ack fc fs u"
    and run: "(deliver client worker ^^ k) ([], []) (u, d)"
  shows "prefix u (client_part hello ack fc d) \<and> prefix d (worker_part hello ack fc fs u) \<and> k \<le> length u + length d"
  using run
proof (induction k arbitrary: u d)
  case (Suc k)
  then obtain u0 d0 where r: "(deliver client worker ^^ k) ([], []) (u0, d0)" and s: "deliver client worker (u0, d0) (u, d)"
    by auto
  note IH = Suc.IH [OF r]
  have fc: "prefix (client_part hello ack fc d0) fc" using h by (simp add: client_part_def)
  have fs: "prefix (worker_part hello ack fc fs u0) fs" using h by (simp add: worker_part_def)
  have u0: "prefix u0 fc" and d0: "prefix d0 fs" using IH fc fs by (blast intro: prefix_order.trans)+
  from s show ?case
  proof (cases rule: deliver.cases)
    case (up out)
    then have "out = client_part hello ack fc d" using C d0 by blast
    with up have u: "prefix u (client_part hello ack fc d)" "prefix u0 u" "length u0 < length u"
      by (auto simp: strict_prefix_def prefix_length_less)
    moreover have "prefix u fc" using u(1) fc up by (auto intro: prefix_order.trans)
    ultimately have "prefix d (worker_part hello ack fc fs u)"
      using IH worker_part_mono [OF h(2) u(2), of fc hello] up by (auto intro: prefix_order.trans)
    with u IH up show ?thesis by auto
  next
    case (down out)
    then have "out = worker_part hello ack fc fs u" using W u0 by blast
    with down have d: "prefix d (worker_part hello ack fc fs u)" "prefix d0 d" "length d0 < length d"
      by (auto simp: strict_prefix_def prefix_length_less)
    moreover have "prefix u (client_part hello ack fc d)"
      using IH client_part_mono [OF h(1) d(2), of ack] down by (auto intro: prefix_order.trans)
    ultimately show ?thesis using IH down by auto
  qed
qed (simp add: client_part_def)

lemma strict_prefix_if: "prefix xs ys \<Longrightarrow> xs \<noteq> ys \<Longrightarrow> strict_prefix xs ys"
  by (simp add: strict_prefix_def)

lemma dialogue_progress:
  assumes C: "\<And>d. prefix d fs \<Longrightarrow> client d (client_part hello ack fc d)"
    and W: "\<And>u. prefix u fc \<Longrightarrow> worker u (worker_part hello ack fc fs u)"
    and h: "prefix hello fc" "prefix ack fs"
    and u: "prefix u (client_part hello ack fc d)" and d: "prefix d (worker_part hello ack fc fs u)"
    and ne: "(u, d) \<noteq> (fc, fs)"
  shows "\<exists>x. deliver client worker (u, d) x"
proof -
  have u': "prefix u fc" and d': "prefix d fs"
    using u d h by (auto simp: client_part_def worker_part_def split: if_splits intro: prefix_order.trans)
  show ?thesis
  proof (cases "u = client_part hello ack fc d")
    case False
    with u show ?thesis by (blast intro: up [where client = client, OF C [OF d']] strict_prefix_if)
  next
    case True
    then have "d \<noteq> worker_part hello ack fc fs u"
      using ne by (auto simp: client_part_def worker_part_def split: if_splits)
    with d show ?thesis by (blast intro: down [where worker = worker, OF W [OF u']] strict_prefix_if)
  qed
qed

section \<open>The client on an open connection\<close>

lemma prefix_split:
  assumes "prefix d (xs @ ys)" obtains "strict_prefix d xs" | ds where "d = xs @ ds" "prefix ds ys"
  using assms by (cases "d = xs") (auto simp: prefix_append strict_prefix_def)

lemma c_recv_waits:
  assumes "open_after (rx c) bs" "length bs < n" obtains es where "c_recv n buf c = (- 1, overlay bs buf, c\<lparr>rx := es\<rparr>)"
  by (rule recv_waits [OF assms]) (auto simp: c_recv_def)

lemma receive_reply_sent: "receive_reply key jh msg c = Some (res, m, c') \<Longrightarrow> sent c' = sent c"
  by (auto simp: receive_reply_def c_recv_def Let_def split_beta split: if_splits option.splits)

lemma receive_reply_total:
  assumes "ascii_key (c_bytes key)" shows "\<exists>res m c'. receive_reply key jh msg c = Some (res, m, c')"
  using rc4.crypt_total [OF assms] by (auto simp: receive_reply_def Let_def split_beta split: option.splits)
    (metis option.distinct(1))

lemma client_waits:
  assumes rx: "open_after (rx c) d" "strict_prefix d (hello_reply srv_pub)" and tx: "tx c = []" "sent c = []"
    and priv: "generate_private_key r = (a, r')" "calculate_public_key a = Some my_pub"
  shows "\<exists>m c'. perform_ride_request client_id r jh jb msg c = Some (- 1, m, r', c')
    \<and> sent c' = header_bytes hello_header @ handshake_bytes \<lparr>public_key = word_of_int my_pub\<rparr>"
proof -
  let ?hello = "header_bytes hello_header @ handshake_bytes \<lparr>public_key = word_of_int my_pub\<rparr>"
  let ?c1 = "c\<lparr>sent := ?hello\<rparr>"
  have o: "open_after (rx ?c1) d" using rx(1) by simp
  have "\<exists>es. perform_dh_handshake r jh jb c = Some (- 1, [], r', ?c1\<lparr>rx := es\<rparr>)"
  proof (cases rule: prefix_split [OF prefix_order.less_imp_le [OF rx(2) [unfolded hello_reply_def]]])
    case 1
    then have "length d < header_size" using prefix_length_less by fastforce
    from c_recv_waits [OF o this] obtain es where "c_recv header_size jh ?c1 = (- 1, overlay d jh, ?c1\<lparr>rx := es\<rparr>)" .
    then show ?thesis using tx priv by (auto simp: perform_dh_handshake_def)
  next
    case (2 ds)
    then have "ds \<noteq> handshake_bytes \<lparr>public_key = word_of_int srv_pub\<rparr>" using rx(2) by (auto simp: hello_reply_def strict_prefix_def)
    with 2(2) have l: "length ds < handshake_size" using prefix_length_less [OF strict_prefix_if] by fastforce
    obtain es1 where e1: "c_recv header_size jh ?c1 = (int header_size, overlay (header_bytes handshake_header) jh, ?c1\<lparr>rx := es1\<rparr>)"
      "open_after es1 ds"
      by (rule waiting.c_recv [OF o [unfolded 2(1)]]) simp_all
    then have "open_after (rx (?c1\<lparr>rx := es1\<rparr>)) ds" by simp
    from c_recv_waits [OF this l] obtain es2 where
      "c_recv handshake_size jb (?c1\<lparr>rx := es1\<rparr>) = (- 1, overlay ds jb, ?c1\<lparr>rx := es1\<rparr>\<lparr>rx := es2\<rparr>)" .
    with e1(1) show ?thesis using tx priv by (auto simp: perform_dh_handshake_def hdr.dec_overlay handshake_header_def)
  qed
  then show ?thesis by (auto simp: perform_ride_request_def)
qed

lemma client_goes_on:
  assumes rx: "open_after (rx c) (hello_reply srv_pub @ rest)" and tx: "tx c = []" "sent c = []"
    and priv: "generate_private_key r = (a, r')" "calculate_public_key a = Some my_pub"
    and sec: "dh_residue srv_pub" "calculate_shared_secret srv_pub a = Some s" "ascii_key (c_bytes (derive_session_key s 64))"
    and enc: "rc4_crypt (ride_request_bytes (make_request client_id)) (c_bytes (derive_session_key s 64)) = Some cipher"
  shows "\<exists>res m c'. perform_ride_request client_id r jh jb msg c = Some (res, m, r', c') \<and> sent c' = client_stream my_pub client_id cipher"
proof -
  let ?key = "derive_session_key s 64"
  obtain es1 where h: "perform_dh_handshake r jh jb c = Some (0, ?key, r', c\<lparr>rx := es1,
       sent := sent c @ header_bytes hello_header @ handshake_bytes \<lparr>public_key = word_of_int my_pub\<rparr>\<rparr>)"
    by (rule waiting.client_handshake [OF rx [unfolded hello_reply_def] tx(1) priv sec(1,2)])
  let ?c2 = "c\<lparr>rx := es1, sent := client_stream my_pub client_id cipher\<rparr>"
  obtain res m c' where rep: "receive_reply ?key jh msg ?c2 = Some (res, m, c')" using receive_reply_total [OF sec(3)] by blast
  have "perform_ride_request client_id r jh jb msg c = Some (res, m, r', c')"
    using request_after_handshake [OF tx h enc] rep by simp
  with receive_reply_sent [OF rep] show ?thesis by auto
qed

section \<open>The worker on an open connection\<close>

lemma read_packet_waits:
  assumes rx: "open_after (rx c) u" "strict_prefix u (header_bytes h @ body)"
    and len: "length body = unat (h_length h)" "length body \<le> 1024"
  shows "\<exists>c'. read_packet c = (None, c') \<and> sent c' = sent c"
proof (cases rule: prefix_split [OF prefix_order.less_imp_le [OF rx(2)]])
  case 1
  then have "length u < header_size" using prefix_length_less by fastforce
  then obtain es where "recv_n header_size (rx c) = (- 1, u, es)" by (rule recv_waits [OF rx(1)])
  then show ?thesis by (auto simp: read_packet_def recv_header_def)
next
  case (2 ds)
  then have "ds \<noteq> body" using rx(2) by (auto simp: strict_prefix_def)
  with 2(2) len have l: "length ds < unat (h_length h)" using prefix_length_less [OF strict_prefix_if] by fastforce
  then have pos: "h_length h \<noteq> 0" "\<not> 1024 < h_length h" using len by (auto simp: word_less_nat_alt)
  obtain es1 where r1: "recv_n header_size (rx c) = (int header_size, header_bytes h, es1)" "open_after es1 ds"
    by (rule waiting.recv [OF rx(1) [unfolded 2(1)]]) simp
  obtain es2 where "recv_n (unat (h_length h)) es1 = (- 1, ds, es2)" by (rule recv_waits [OF r1(2) l])
  moreover have "- 1 \<noteq> uint (h_length h)" using uint_ge_0 [of "h_length h"] by linarith
  ultimately show ?thesis
    using r1(1) pos by (auto simp: read_packet_def recv_header_def recv_body_def hdr.dec_overlay
        header_size_def word_gt_0 Let_def)
qed

lemma client_waits_packet:
  assumes "open_after (rx c) u" "strict_prefix u (header_bytes h @ body)"
    and "length body = unat (h_length h)" "length body \<le> 1024"
  shows "\<exists>c'. handle_client env now c w = (Returned, c', w) \<and> sent c' = sent c"
  using read_packet_waits [OF assms] by (auto simp: handle_client.simps [of env now c])

lemma worker_waits_hello:
  assumes "open_after es u" "strict_prefix u (header_bytes hello_header @ handshake_bytes k)"
  shows "\<exists>c'. handle_client env now (new_conn es hb bb) w = (Returned, c', w) \<and> sent c' = []"
proof -
  have "length (handshake_bytes k) = unat (h_length hello_header)" "length (handshake_bytes k) \<le> 1024"
    by (simp_all add: hello_header_def handshake_size_def)
  from client_waits_packet [OF _ assms(2) this, of "new_conn es hb bb" env now w] assms(1) show ?thesis
    by (simp add: new_conn_def)
qed

lemma worker_waits_request:
  assumes es: "open_after es ((header_bytes hello_header @ handshake_bytes \<lparr>public_key = word_of_int my_pub\<rparr>) @ rest)"
    and rest: "strict_prefix rest (header_bytes (request_header client_id) @ cipher)" "length cipher = ride_request_size"
    and priv: "generate_private_key (gen w) = (b, r)" "calculate_public_key b = Some srv_pub"
    and sec: "dh_residue my_pub" "calculate_shared_secret my_pub b = Some s"
  shows "\<exists>c'. handle_client env now (new_conn es hb bb) w = (Returned, c', w\<lparr>gen := r\<rparr>) \<and> sent c' = hello_reply srv_pub"
proof -
  obtain c where c: "open_after (rx c) rest" "sent c = hello_reply srv_pub"
    "handle_client env now (new_conn es hb bb) w = handle_client env now c (w\<lparr>gen := r\<rparr>)"
    by (rule waiting.session_hello [OF es priv sec])
  have "length cipher = unat (h_length (request_header client_id))" "length cipher \<le> 1024"
    using rest(2) by (simp_all add: request_header_def ride_header_def ride_request_size_def)
  from client_waits_packet [OF c(1) rest(1) this, of env now "w\<lparr>gen := r\<rparr>"] c show ?thesis by simp
qed

section \<open>The dialogue of a session\<close>

definition hello_stream :: "int \<Rightarrow> u8 list" where
  "hello_stream my_pub = header_bytes hello_header @ handshake_bytes \<lparr>public_key = word_of_int my_pub\<rparr>"

lemma not_prefix_strict: "prefix d fs \<Longrightarrow> prefix ack fs \<Longrightarrow> \<not> prefix ack d \<Longrightarrow> strict_prefix d ack"
  using prefix_same_cases by (auto simp: strict_prefix_def)

lemma client_says_part:
  assumes d: "prefix d fs" "prefix (hello_reply pb) fs"
    and priv: "generate_private_key rc = (a, rc')" "calculate_public_key a = Some pa"
    and sec: "dh_residue pb" "calculate_shared_secret pb a = Some s" "ascii_key (c_bytes (derive_session_key s 64))"
    and enc: "rc4_crypt (ride_request_bytes (make_request client_id)) (c_bytes (derive_session_key s 64)) = Some cipher"
  shows "client_says client_id rc d out \<longleftrightarrow>
    out = client_part (hello_stream pa) (hello_reply pb) (client_stream pa client_id cipher) d"
proof -
  let ?out = "client_part (hello_stream pa) (hello_reply pb) (client_stream pa client_id cipher) d"
  have run: "\<exists>res m c'. perform_ride_request client_id rc jh jb msg (new_conn es [] []) = Some (res, m, rc', c') \<and> sent c' = ?out"
    if "open_after es d" for es jh jb msg
  proof (cases "prefix (hello_reply pb) d")
    case True
    then obtain rest where "d = hello_reply pb @ rest" by (auto simp: prefix_def)
    with that have "open_after (rx (new_conn es [] [])) (hello_reply pb @ rest)" by (simp add: new_conn_def)
    from client_goes_on [OF this _ _ priv sec enc] True show ?thesis by (simp add: new_conn_def client_part_def)
  next
    case False
    then have "strict_prefix d (hello_reply pb)" by (rule not_prefix_strict [OF d])
    from client_waits [OF _ this _ _ priv, of "new_conn es [] []"] that False show ?thesis
      by (simp add: new_conn_def client_part_def hello_stream_def) blast
  qed
  obtain es where es: "open_after es d" using open_exists by blast
  show ?thesis
  proof
    assume "client_says client_id rc d out"
    then show "out = ?out"
    proof (rule client_saysE)
      fix es jh jb msg res m r' c'
      assume "out = sent c'" "open_after es d" "perform_ride_request client_id rc jh jb msg (new_conn es [] []) = Some (res, m, r', c')"
      with run [of es jh jb msg] show ?thesis by auto
    qed
  next
    assume "out = ?out"
    moreover obtain res m c' where "perform_ride_request client_id rc [] [] [] (new_conn es [] []) = Some (res, m, rc', c')" "sent c' = ?out"
      using run [OF es] by blast
    ultimately show "client_says client_id rc d out" using client_says.intros [OF es] by metis
  qed
qed

lemma worker_says_part:
  assumes u: "prefix u (client_stream pa client_id cipher)" and len: "length cipher = ride_request_size"
    and priv: "generate_private_key (gen w) = (b, rs)" "calculate_public_key b = Some pb"
    and sec: "dh_residue pa" "calculate_shared_secret pa b = Some s"
    and last: "\<And>es hb bb. open_after es (client_stream pa client_id cipher) \<Longrightarrow>
      \<exists>c'. handle_client env now (new_conn es hb bb) w = (oc, c', w') \<and> sent c' = fs"
  shows "worker_says env now w u out \<longleftrightarrow>
    out = worker_part (hello_stream pa) (hello_reply pb) (client_stream pa client_id cipher) fs u"
proof -
  let ?fc = "client_stream pa client_id cipher"
  let ?out = "worker_part (hello_stream pa) (hello_reply pb) ?fc fs u"
  have h: "prefix (hello_stream pa) ?fc" by (simp add: client_stream_def hello_stream_def)
  have run: "\<exists>o' c' w'. handle_client env now (new_conn es hb bb) w = (o', c', w') \<and> sent c' = ?out"
    if es: "open_after es u" for es hb bb
  proof (cases "u = ?fc")
    case True
    then show ?thesis using last [of es hb bb] es by (auto simp: worker_part_def)
  next
    case ne: False
    show ?thesis
    proof (cases "prefix (hello_stream pa) u")
      case True
      then obtain rest where rest: "u = hello_stream pa @ rest" by (auto simp: prefix_def)
      with u ne have "strict_prefix rest (header_bytes (request_header client_id) @ cipher)"
        by (auto simp: client_stream_def hello_stream_def strict_prefix_def)
      from worker_waits_request [OF es [unfolded rest hello_stream_def] this len priv sec, of env now hb bb] True ne
      show ?thesis by (auto simp: worker_part_def)
    next
      case False
      then have "strict_prefix u (hello_stream pa)" by (rule not_prefix_strict [OF u h])
      from worker_waits_hello [OF es this [unfolded hello_stream_def], of env now hb bb w] ne False show ?thesis
        by (auto simp: worker_part_def)
    qed
  qed
  obtain es where es: "open_after es u" using open_exists by blast
  show ?thesis
  proof
    assume "worker_says env now w u out"
    then show "out = ?out"
    proof (rule worker_saysE)
      fix es hb bb o' c' w'
      assume "out = sent c'" "open_after es u" "handle_client env now (new_conn es hb bb) w = (o', c', w')"
      with run [of es hb bb] show ?thesis by auto
    qed
  next
    assume "out = ?out"
    moreover obtain o' c' w' where "handle_client env now (new_conn es [] []) w = (o', c', w')" "sent c' = ?out"
      using run [OF es] by blast
    ultimately show "worker_says env now w u out" using worker_says.intros [OF es] by metis
  qed
qed

text \<open>Every run of a session's dialogue ends, and ends with both streams delivered in full.\<close>

lemma session_dialogue:
  assumes priv: "generate_private_key rc = (a, rc')" "generate_private_key (gen w) = (b, rs)"
    and sec: "secrets client_id a b pa pb s cipher"
    and fs: "prefix (hello_reply pb) fs"
    and last: "\<And>es hb bb. open_after es (client_stream pa client_id cipher) \<Longrightarrow>
      \<exists>c'. handle_client env now (new_conn es hb bb) w = (oc, c', w') \<and> sent c' = fs"
    and run: "(deliver (client_says client_id rc) (worker_says env now w) ^^ k) ([], []) (u, d)"
  shows "k \<le> length u + length d \<and> prefix u (client_stream pa client_id cipher) \<and> prefix d fs
    \<and> ((u, d) = (client_stream pa client_id cipher, fs)
       \<or> (\<exists>x. deliver (client_says client_id rc) (worker_says env now w) (u, d) x))"
proof -
  let ?fc = "client_stream pa client_id cipher"
  note k = secretsD [OF sec]
  have len: "length cipher = ride_request_size" using rc4_length [OF k(9)] rrq.enc_length by simp
  have h: "prefix (hello_stream pa) ?fc" by (simp add: client_stream_def hello_stream_def)
  let ?C = "client_part (hello_stream pa) (hello_reply pb) ?fc" and ?W = "worker_part (hello_stream pa) (hello_reply pb) ?fc fs"
  have C: "client_says client_id rc d out \<longleftrightarrow> out = ?C d" if "prefix d fs" for d out
    by (rule client_says_part [OF that fs priv(1) k(1,6,3,8,9)])
  have W: "worker_says env now w u out \<longleftrightarrow> out = ?W u" if "prefix u ?fc" for u out
    by (rule worker_says_part [OF that len priv(2) k(2,5,4) last])
  have r: "prefix u (?C d) \<and> prefix d (?W u) \<and> k \<le> length u + length d"
    by (rule dialogue_run [OF h fs _ _ run]) (simp_all add: C W)
  have "\<exists>x. deliver (client_says client_id rc) (worker_says env now w) (u, d) x" if "(u, d) \<noteq> (?fc, fs)"
    by (rule dialogue_progress [OF _ _ h fs _ _ that]) (use C W r in auto)
  moreover have "prefix u ?fc" "prefix d fs"
    using r h fs by (auto simp: client_part_def worker_part_def split: if_splits intro: prefix_order.trans)
  ultimately show ?thesis using r by blast
qed

section \<open>Properties\<close>

text \<open>
  C1: a client within its limit and its worker never wait for each other, whatever the pieces the
  network delivers: every run of their dialogue, from two empty streams, ends after finitely many steps,
  it can only stop with both streams delivered in full, and then both sides are done: the worker has
  served the request once and hung up, the client has the worker's return code and text.
\<close>

theorem dialogue_served:
  assumes "state_ok (shared w)" "\<And>s. state_ok s \<Longrightarrow> state_ok (env s)" "int32_range client_id"
    and "\<not> fst (check_and_update_rate_limit client_id now (shared w))"
    and "generate_private_key (gen w) = (b, rs)" "generate_private_key rc = (a, rc')"
    and "served env now client_id rs (shared w) = (res, reply, rs', s')"
  shows "\<exists>to_server to_client.
    (\<forall>k u d. (deliver (client_says client_id rc) (worker_says env now w) ^^ k) ([], []) (u, d) \<longrightarrow>
       k \<le> length u + length d \<and> prefix u to_server \<and> prefix d to_client
       \<and> ((u, d) = (to_server, to_client) \<or> (\<exists>x. deliver (client_says client_id rc) (worker_says env now w) (u, d) x)))
    \<and> (\<forall>es hb bb. open_after es to_server \<longrightarrow>
       (\<exists>c'. handle_client env now (new_conn es hb bb) w = (Returned, c', w\<lparr>shared := s', gen := rs'\<rparr>)
          \<and> sent c' = to_client))
    \<and> (\<forall>es jh jb msg. open_after es to_client \<and> length msg = 1024 \<longrightarrow>
       (\<exists>m c'. perform_ride_request client_id rc jh jb msg (new_conn es [] []) = Some (res, m, rc', c')
          \<and> take (length reply) m = c_bytes reply))"
proof -
  obtain pa pb s cipher out where k: "secrets client_id a b pa pb s cipher"
    and server: "\<forall>es hb bb. open_after es (client_stream pa client_id cipher) \<longrightarrow>
       (\<exists>c'. handle_client env now (new_conn es hb bb) w = (Returned, c', w\<lparr>shared := s', gen := rs'\<rparr>)
          \<and> sent c' = server_stream pb (c_bytes reply) out)"
    and client: "\<forall>es jh jb msg. open_after es (server_stream pb (c_bytes reply) out) \<and> length msg = 1024 \<longrightarrow>
       (\<exists>m c'. perform_ride_request client_id rc jh jb msg (new_conn es [] []) = Some (res, m, rc', c')
          \<and> sent c' = client_stream pa client_id cipher \<and> take (length reply) m = c_bytes reply)"
    by (rule waiting.session_sides [OF assms])
  let ?fs = "server_stream pb (c_bytes reply) out"
  have fs: "prefix (hello_reply pb) ?fs" by (simp add: hello_reply_def server_stream_def)
  note run = session_dialogue [OF assms(6,5) k fs server [rule_format]]
  show ?thesis
    by (rule exI [of _ "client_stream pa client_id cipher"], rule exI [of _ ?fs]) (intro conjI allI impI; use run server client in blast)
qed

theorem dialogue_served_witness:
  "\<exists>to_server to_client es1 es2 c' m c''. open_after es1 to_server \<and> open_after es2 to_client
     \<and> (\<forall>k u d. (deliver (client_says 7 (sconst 5)) (worker_says id 100 (idle_worker zero_state)) ^^ k) ([], []) (u, d) \<longrightarrow>
        k \<le> length u + length d \<and> prefix u to_server \<and> prefix d to_client)
     \<and> handle_client id 100 (new_conn es1 [] []) (idle_worker zero_state)
         = (Returned, c', idle_worker (snd (check_and_update_rate_limit 7 100 zero_state))) \<and> sent c' = to_client
     \<and> perform_ride_request 7 (sconst 5) [] [] (replicate 1024 0) (new_conn es2 [] [])
         = Some (- 1, m, sconst 5, c'')"
proof -
  note i = idle_session
  let ?w = "(idle_worker zero_state)\<lparr>shared := snd (check_and_update_rate_limit 7 100 zero_state), gen := sconst 0\<rparr>"
  obtain fc fs where
    R: "\<forall>k u d. (deliver (client_says 7 (sconst 5)) (worker_says id 100 (idle_worker zero_state)) ^^ k) ([], []) (u, d) \<longrightarrow>
        k \<le> length u + length d \<and> prefix u fc \<and> prefix d fs \<and> ((u, d) = (fc, fs) \<or>
          (\<exists>x. deliver (client_says 7 (sconst 5)) (worker_says id 100 (idle_worker zero_state)) (u, d) x))"
    and S: "\<forall>es hb bb. open_after es fc \<longrightarrow>
       (\<exists>c'. handle_client id 100 (new_conn es hb bb) (idle_worker zero_state) = (Returned, c', ?w) \<and> sent c' = fs)"
    and C: "\<forall>es jh jb msg. open_after es fs \<and> length msg = 1024 \<longrightarrow>
       (\<exists>m c'. perform_ride_request 7 (sconst 5) jh jb msg (new_conn es [] []) = Some (- 1, m, sconst 5, c')
          \<and> take (length no_driver_text) m = c_bytes no_driver_text)"
    using dialogue_served [OF i(1) _ _ i(2-5)] by (auto simp: int32_range_def)
  obtain es1 es2 where "open_after es1 fc" "open_after es2 fs" using open_exists by meson
  moreover have "?w = idle_worker (snd (check_and_update_rate_limit 7 100 zero_state))" by (simp add: idle_worker_def)
  moreover have "length (replicate 1024 0) = 1024" by simp
  ultimately show ?thesis using R S C by metis
qed

text \<open>
  C11: a client over its limit and its worker do not wait for each other either: every run of the
  dialogue ends with both streams delivered, the worker crashed after its half of the handshake with
  nothing changed but the counter of the limiter, and the client, which finds the connection closed,
  with -1 and an untouched message buffer: the code of a failed request, not -2, the code of a blocked one.
\<close>

theorem dialogue_blocked:
  assumes "wf_state (shared w)" "limited_id client_id" "3 \<le> seen_in client_id now (shared w)"
    and "generate_private_key (gen w) = (b, rs)" "generate_private_key rc = (a, rc')"
  shows "\<exists>to_server to_client.
    (\<forall>k u d. (deliver (client_says client_id rc) (worker_says env now w) ^^ k) ([], []) (u, d) \<longrightarrow>
       k \<le> length u + length d \<and> prefix u to_server \<and> prefix d to_client
       \<and> ((u, d) = (to_server, to_client) \<or> (\<exists>x. deliver (client_says client_id rc) (worker_says env now w) (u, d) x)))
    \<and> (\<forall>es hb bb. open_after es to_server \<longrightarrow>
       (\<exists>c'. handle_client env now (new_conn es hb bb) w =
            (Crashed, c', w\<lparr>shared := snd (check_and_update_rate_limit client_id now (shared w)), gen := rs\<rparr>)
          \<and> sent c' = to_client))
    \<and> (\<forall>es jh jb msg. closed_after es to_client \<longrightarrow>
       (\<exists>c'. perform_ride_request client_id rc jh jb msg (new_conn es [] []) = Some (- 1, msg, rc', c')))"
proof -
  obtain pa pb s cipher where k: "secrets client_id a b pa pb s cipher"
    and server: "\<forall>es hb bb. open_after es (client_stream pa client_id cipher) \<longrightarrow>
       (\<exists>c'. handle_client env now (new_conn es hb bb) w =
            (Crashed, c', w\<lparr>shared := snd (check_and_update_rate_limit client_id now (shared w)), gen := rs\<rparr>)
          \<and> sent c' = hello_reply pb)"
    and client: "\<forall>es jh jb msg. closed_after es (hello_reply pb) \<longrightarrow>
       (\<exists>c'. perform_ride_request client_id rc jh jb msg (new_conn es [] []) = Some (- 1, msg, rc', c')
          \<and> sent c' = client_stream pa client_id cipher)"
    by (rule waiting.blocked_sides [OF assms, where env = env])
  note run = session_dialogue [OF assms(5,4) k prefix_order.refl server [rule_format]]
  show ?thesis
    by (rule exI [of _ "client_stream pa client_id cipher"], rule exI [of _ "hello_reply pb"])
      (intro conjI allI impI; use run server client in blast)
qed

theorem dialogue_blocked_witness:
  "\<exists>to_server to_client es1 es2 c' w' c''. open_after es1 to_server \<and> closed_after es2 to_client
     \<and> (\<forall>k u d. (deliver (client_says 7 (sconst 5)) (worker_says id 100 (idle_worker flooded)) ^^ k) ([], []) (u, d) \<longrightarrow>
        k \<le> length u + length d \<and> prefix u to_server \<and> prefix d to_client)
     \<and> handle_client id 100 (new_conn es1 [] []) (idle_worker flooded) = (Crashed, c', w') \<and> sent c' = to_client
     \<and> perform_ride_request 7 (sconst 5) [] [] [1, 2, 3] (new_conn es2 [] []) = Some (- 1, [1, 2, 3], sconst 5, c'')"
  using dialogue_blocked [OF flooded_session, of id]
proof (elim exE conjE)
  let ?D = "deliver (client_says 7 (sconst 5)) (worker_says id 100 (idle_worker flooded))"
  let ?w = "(idle_worker flooded)\<lparr>shared := snd (check_and_update_rate_limit 7 100 (shared (idle_worker flooded))), gen := sconst 0\<rparr>"
  fix fc fs
  assume R: "\<forall>k u d. (?D ^^ k) ([], []) (u, d) \<longrightarrow> k \<le> length u + length d \<and> prefix u fc \<and> prefix d fs
        \<and> ((u, d) = (fc, fs) \<or> (\<exists>x. ?D (u, d) x))"
    and S: "\<forall>es hb bb. open_after es fc \<longrightarrow>
        (\<exists>c'. handle_client id 100 (new_conn es hb bb) (idle_worker flooded) = (Crashed, c', ?w) \<and> sent c' = fs)"
    and C: "\<forall>es jh jb msg. closed_after es fs \<longrightarrow>
        (\<exists>c'. perform_ride_request 7 (sconst 5) jh jb msg (new_conn es [] []) = Some (- 1, msg, sconst 5, c'))"
  obtain es1 es2 where "open_after es1 fc" "closed_after es2 fs"
    using open_exists some_stream by (auto simp: closed_after_def) metis
  with R S C show ?thesis by metis
qed

end
