(* ===== verification/Stress_Server.thy ===== *)
theory Stress_Server
  imports Stress_Thread Rendezvous Critical_Sections
begin

text \<open>
  The stress test (src/client/stress_client.c) against the server (src/server/dispatcher.c and the
  services): the threads of the one and the workers of the other, interleaved at the critical sections. A
  session of a thread is two sections of the worker that accepted it, and whatever the other processes
  do in between; the receive time-out of two seconds lets the thread give up at any point, while the worker goes on. The
  theorems compare the books of the two programs, and tie the sessions to the code of both sides.
\<close>

section \<open>Threads and workers\<close>

text \<open>
  A worker has accepted the connection of a thread and waits for its request, or is between the two sections of that
  request: then it remembers the time, and the memory and the state of \<open>rand\<close> before the first. A thread in a session knows
  its worker; one that was told a result has not entered it in the statistics yet.
\<close>

datatype duty = Free rng | Accepted nat rng | Busy nat int SharedState rng | Gone

datatype caller = Between | Calling nat | Told int

text \<open>
  \<open>timeouts\<close> counts the sessions the threads gave up, \<open>unheard\<close> holds the threads whose ride was served after that.
\<close>

record Arena =
  memory :: SharedState
  crew :: "duty list"
  callers :: "caller list"
  books :: Stress
  timeouts :: nat
  unheard :: "nat list"

definition client_no :: "nat \<Rightarrow> int" where
  "client_no j = client_id (thread_args [] 0 j)"

definition tell :: "nat \<Rightarrow> nat \<Rightarrow> int \<Rightarrow> caller list \<Rightarrow> caller list" where
  "tell i j res cs = (if cs ! j = Calling i then cs[j := Told res] else cs)"

inductive arena_step :: "Arena \<Rightarrow> Arena \<Rightarrow> bool" where
  refused: "arena_step a (a\<lparr>books := stress_attempt (j, NoConnection) (books a)\<rparr>)"
    if "j < length (callers a)" "callers a ! j = Between"
| unserved: "arena_step a (a\<lparr>callers := (callers a)[j := Told (- 1)], timeouts := timeouts a + 1\<rparr>)"
    if "j < length (callers a)" "callers a ! j = Between"
| accepted: "arena_step a (a\<lparr>crew := (crew a)[i := Accepted j r], callers := (callers a)[j := Calling i]\<rparr>)"
    if "j < length (callers a)" "callers a ! j = Between" "i < length (crew a)" "crew a ! i = Free r"
| timed_out: "arena_step a (a\<lparr>callers := (callers a)[j := Told (- 1)], timeouts := timeouts a + 1\<rparr>)"
    if "j < length (callers a)" "callers a ! j = Calling i"
| hung_up: "arena_step a (a\<lparr>crew := (crew a)[i := Free r']\<rparr>)"
    if "i < length (crew a)" "crew a ! i = Accepted j r" "callers a ! j \<noteq> Calling i" "r' \<in> {r, snd (generate_private_key r)}"
| blocked: "arena_step a (a\<lparr>memory := s', crew := (crew a)[i := Gone], callers := tell i j (- 1) (callers a)\<rparr>)"
    if "i < length (crew a)" "crew a ! i = Accepted j r" "check_and_update_rate_limit (client_no j) now (memory a) = (True, s')"
| counted: "arena_step a (a\<lparr>memory := s', crew := (crew a)[i := Busy j now (memory a) r]\<rparr>)"
    if "i < length (crew a)" "crew a ! i = Accepted j r" "check_and_update_rate_limit (client_no j) now (memory a) = (False, s')"
| ridden: "arena_step a (a\<lparr>memory := s', crew := (crew a)[i := Free r'], callers := tell i j res (callers a),
      unheard := (if res = 0 \<and> callers a ! j \<noteq> Calling i then unheard a @ [j] else unheard a)\<rparr>)"
    if "i < length (crew a)" "crew a ! i = Busy j now s0 r"
      "handle_ride_request_logic (client_no j) 256 (snd (generate_private_key r)) (memory a) = (res, reply, r', s')"
| noted: "arena_step a (a\<lparr>callers := (callers a)[j := Between], books := stress_attempt (j, Answer res latency) (books a)\<rparr>)"
    if "j < length (callers a)" "callers a ! j = Told res"
| round: "arena_step a (a\<lparr>memory := snd (map_tick r (memory a))\<rparr>)"

inductive arena_reach :: "Arena \<Rightarrow> Arena \<Rightarrow> bool" for a where
  start: "arena_reach a a"
| further: "arena_reach a a''" if "arena_reach a a'" "arena_step a' a''"

definition arena_start :: "nat \<Rightarrow> SharedState \<Rightarrow> rng \<Rightarrow> Arena" where
  "arena_start n s r = \<lparr>memory = s, crew = replicate WORKER_COUNT (Free r), callers = replicate n Between,
     books = stress_init n, timeouts = 0, unheard = []\<rparr>"

section \<open>Books\<close>

text \<open>The rides of thread \<open>j\<close>: those it has counted, and the one it has been told of.\<close>

definition rides_of :: "Arena \<Rightarrow> nat \<Rightarrow> nat" where
  "rides_of a j = success_local (books a) ! j + (if callers a ! j = Told 0 then 1 else 0)"

fun told_failure :: "caller \<Rightarrow> bool" where
  "told_failure (Told r) \<longleftrightarrow> r \<noteq> 0"
| "told_failure _ \<longleftrightarrow> False"

text \<open>The failures of the threads: entered in the statistics, and told.\<close>

definition failures :: "Arena \<Rightarrow> int" where
  "failures a = fail_count (stats (books a)) + int (length (filter told_failure (callers a)))"

definition fare :: "int \<Rightarrow> int" where
  "fare c = (if c \<le> 10 then 150 else 100)"

text \<open>A worker that is gone, or serves a thread that does not wait for it any more, has cost a failure.\<close>

fun serves :: "duty \<Rightarrow> nat option" where
  "serves (Accepted j r) = Some j"
| "serves (Busy j now s0 r) = Some j"
| "serves _ = None"

definition given_up :: "Arena \<Rightarrow> nat \<Rightarrow> bool" where
  "given_up a i \<longleftrightarrow> (\<exists>j. serves (crew a ! i) = Some j \<and> callers a ! j \<noteq> Calling i)"

definition burden :: "Arena \<Rightarrow> nat \<Rightarrow> nat" where
  "burden a i = (if crew a ! i = Gone \<or> given_up a i then 1 else 0)"

definition sessions_ok :: "Arena \<Rightarrow> bool" where
  "sessions_ok a \<longleftrightarrow>
     (\<forall>i j. i < length (crew a) \<longrightarrow> serves (crew a ! i) = Some j \<longrightarrow> j < length (callers a))
     \<and> (\<forall>i j now s0 r. i < length (crew a) \<longrightarrow> crew a ! i = Busy j now s0 r \<longrightarrow>
          state_ok s0 \<and> \<not> fst (check_and_update_rate_limit (client_no j) now s0))"

definition books_agree :: "SharedState \<Rightarrow> Arena \<Rightarrow> bool" where
  "books_agree s a \<longleftrightarrow>
     total_success_requests (memory a)
       = total_success_requests s + of_nat ((\<Sum>j < length (callers a). rides_of a j) + length (unheard a))
     \<and> total_revenue (memory a) = total_revenue s + (\<Sum>j < length (callers a). fare (client_no j) * int (rides_of a j))
         + sum_list (map (fare \<circ> client_no) (unheard a))
     \<and> (\<Sum>i < length (crew a). int (burden a i)) \<le> failures a"

definition books_kept :: "nat \<Rightarrow> Arena \<Rightarrow> bool" where
  "books_kept n a \<longleftrightarrow> length (callers a) = n
     \<and> (\<exists>run. set (map fst run) \<subseteq> {..<n} \<and> books a = fold stress_attempt run (stress_init n))"

lemma told_update: "j < length xs \<Longrightarrow> length (filter P (xs[j := y])) + (if P (xs ! j) then 1 else 0)
    = length (filter P xs) + (if P y then 1 else 0)"
proof (induction xs arbitrary: j)
  case (Cons x xs)
  then show ?case by (cases j) (auto split: if_splits)
qed simp

lemma client_no_eq: "client_no j = int j + 1"
  by (simp add: client_no_def thread_args_def)

lemma client_no_range: "j < 5000 \<Longrightarrow> int32_range (client_no j)"
  by (simp add: client_no_eq int32_range_def)

lemma length_tell [simp]: "length (tell i j res cs) = length cs"
  by (simp add: tell_def)

section \<open>What a ride is worth\<close>

lemma ride_accounts:
  assumes "state_ok s" "handle_ride_request_logic c n r s = (res, text, r', s')"
  shows "(res = 0 \<and> total_success_requests s' = total_success_requests s + 1 \<and> total_revenue s' = total_revenue s + fare c)
    \<or> (res = - 1 \<and> s' = s)"
  using state_okD(1) [OF assms(1)]
proof (cases rule: ride_request_cases [where c = c and n = n and r = r])
  case (ok i)
  then show ?thesis
    using assms(2) by (simp add: ride_state_def count_ride_def update_driver_def fare_def is_vip_client_def)
qed (use assms(2) in simp)

lemma round_accounts [simp]:
  "total_success_requests (snd (map_tick r s)) = total_success_requests s" "total_revenue (snd (map_tick r s)) = total_revenue s"
  by (simp_all add: map_tick_def split_beta Let_def)

lemma limit_accounts:
  assumes "check_and_update_rate_limit c now s = (b, s')"
  shows "total_success_requests s' = total_success_requests s" "total_revenue s' = total_revenue s"
  using arg_cong [OF assms, of snd] by auto

section \<open>The books of the clients\<close>

lemma run_lengths:
  "length (status_list (fold stress_attempt run x)) = length (status_list x)
   \<and> length (success_local (fold stress_attempt run x)) = length (success_local x)"
proof (induction run arbitrary: x)
  case (Cons ja run)
  obtain j b where "ja = (j, b)" by (cases ja)
  with Cons [of "stress_attempt ja x"] show ?case by (cases b) (simp_all add: stress_attempt_def)
qed simp

lemma books_length: "books_kept n a \<Longrightarrow> length (success_local (books a)) = n"
  by (auto simp: books_kept_def run_lengths stress_init_def)

lemma books_kept_callers: "books_kept n a \<Longrightarrow> length (callers a) = n"
  by (simp add: books_kept_def)

lemma books_kept_add:
  assumes "books_kept n a" "j < n" "length (callers a') = n" "books a' = stress_attempt (j, x) (books a)"
  shows "books_kept n a'"
proof -
  obtain run where run: "set (map fst run) \<subseteq> {..<n}" "books a = fold stress_attempt run (stress_init n)"
    using assms(1) by (auto simp: books_kept_def)
  have "set (map fst (run @ [(j, x)])) \<subseteq> {..<n}" "books a' = fold stress_attempt (run @ [(j, x)]) (stress_init n)"
    using run assms(2,4) by auto
  with assms(3) show ?thesis unfolding books_kept_def by blast
qed

lemma kept_step: "arena_step a a' \<Longrightarrow> books_kept n a \<Longrightarrow> books_kept n a'"
proof (induction rule: arena_step.induct)
  case (refused j a)
  show ?case by (rule books_kept_add [of n a j _ NoConnection]) (use refused books_kept_callers in simp_all)
next
  case (noted j a res latency)
  show ?case by (rule books_kept_add [of n a j _ "Answer res latency"]) (use noted books_kept_callers in simp_all)
qed (simp_all add: books_kept_def)

lemma sessions_step:
  "arena_step a a' \<Longrightarrow> sessions_ok a \<Longrightarrow> state_ok (memory a) \<Longrightarrow> sessions_ok a'"
proof (induction rule: arena_step.induct)
  case (counted i a j r now s')
  then have "j < length (callers a)" "\<not> fst (check_and_update_rate_limit (client_no j) now (memory a))"
    by (auto simp: sessions_ok_def)
  with counted show ?case unfolding sessions_ok_def by (auto simp: nth_list_update)
qed (auto simp: sessions_ok_def nth_list_update split: if_splits)

lemma memory_step: "arena_step a a' \<Longrightarrow> state_ok (memory a) \<Longrightarrow> state_ok (memory a')"
proof (induction rule: arena_step.induct)
  case (blocked i a j r now s')
  then show ?case using rate_limit_state_ok [of "memory a" "client_no j" now] by simp
next
  case (counted i a j r now s')
  then show ?case using rate_limit_state_ok [of "memory a" "client_no j" now] by simp
next
  case (ridden i a j now s0 r res reply r' s')
  then show ?case using ride_request_state_ok [of "memory a" "client_no j" 256 "snd (generate_private_key r)"] by simp
qed (auto intro: fleet.tick_keeps)

section \<open>Both books are the same\<close>

lemma stats_step:
  "fail_count (stats (stress_attempt (j, Answer r l) y)) = fail_count (stats y) + (if r = 0 then 0 else 1)"
  "fail_count (stats (stress_attempt (j, NoConnection) y)) = fail_count (stats y)"
  by (simp_all add: stress_attempt_def count_answer_def Let_def)

text \<open>
  A step books no ride, or one ride of a thread that waits for it, or one ride of a thread that has given up.
\<close>

definition books_same :: "Arena \<Rightarrow> Arena \<Rightarrow> bool" where
  "books_same a a' \<longleftrightarrow> (\<forall>k < length (callers a). rides_of a' k = rides_of a k) \<and> unheard a' = unheard a
     \<and> total_success_requests (memory a') = total_success_requests (memory a)
     \<and> total_revenue (memory a') = total_revenue (memory a)"

definition books_ride :: "nat \<Rightarrow> Arena \<Rightarrow> Arena \<Rightarrow> bool" where
  "books_ride j a a' \<longleftrightarrow> j < length (callers a)
     \<and> ((\<forall>k < length (callers a). rides_of a' k = rides_of a k + (if k = j then 1 else 0)) \<and> unheard a' = unheard a
       \<or> (\<forall>k < length (callers a). rides_of a' k = rides_of a k) \<and> unheard a' = unheard a @ [j])
     \<and> total_success_requests (memory a') = total_success_requests (memory a) + 1
     \<and> total_revenue (memory a') = total_revenue (memory a) + fare (client_no j)"

lemma step_books:
  assumes "arena_step a a'" "books_kept n a" "sessions_ok a" "state_ok (memory a)"
  shows "books_same a a' \<or> (\<exists>j. books_ride j a a')"
  using assms
proof (induction rule: arena_step.induct)
  case (refused j a)
  then show ?case by (simp add: books_same_def rides_of_def stress_attempt_def)
next
  case (blocked i a j r now s')
  then have "j < length (callers a)" by (auto simp: sessions_ok_def)
  then show ?case using limit_accounts [OF blocked(3)] by (simp add: books_same_def rides_of_def tell_def nth_list_update)
next
  case (counted i a j r now s')
  then show ?case using limit_accounts [OF counted(3)] by (simp add: books_same_def rides_of_def)
next
  case (ridden i a j now s0 r res reply r' s')
  then have j: "j < length (callers a)" by (auto simp: sessions_ok_def)
  from ride_accounts [OF ridden(6,3)] show ?case
  proof (elim disjE conjE)
    assume "res = 0" "total_success_requests s' = total_success_requests (memory a) + 1"
      "total_revenue s' = total_revenue (memory a) + fare (client_no j)"
    with j show ?thesis by (intro disjI2 exI [of _ j]) (auto simp: books_ride_def rides_of_def tell_def nth_list_update)
  next
    assume "res = - 1" "s' = memory a"
    with j show ?thesis by (intro disjI1) (simp add: books_same_def rides_of_def tell_def nth_list_update)
  qed
next
  case (noted j a res latency)
  then show ?case using books_length [OF noted(3)] books_kept_callers [OF noted(3)]
    by (intro disjI1) (simp add: books_same_def rides_of_def stress_attempt_def nth_list_update)
qed (simp_all add: books_same_def rides_of_def nth_list_update)

lemma step_lengths: "arena_step a a' \<Longrightarrow> length (callers a') = length (callers a) \<and> length (crew a') = length (crew a)"
  by (induction rule: arena_step.induct) simp_all

lemma failures_callers:
  "j < length (callers a) \<Longrightarrow> failures (a\<lparr>callers := (callers a)[j := y]\<rparr>)
     = failures a - (if told_failure (callers a ! j) then 1 else 0) + (if told_failure y then 1 else 0)"
  using told_update [of j "callers a" told_failure y] by (simp add: failures_def split: if_splits)

lemma failures_frame:
  "callers a' = callers a \<Longrightarrow> books a' = books a \<Longrightarrow> failures a' = failures a"
  by (simp add: failures_def)

text \<open>The burden grows by at most one, and then a failure is told.\<close>

lemma step_burden:
  "arena_step a a' \<Longrightarrow> sessions_ok a \<Longrightarrow>
     (\<forall>k < length (crew a). burden a' k \<le> burden a k) \<and> failures a \<le> failures a'
   \<or> (\<exists>i. (\<forall>k < length (crew a). k \<noteq> i \<longrightarrow> burden a' k \<le> burden a k) \<and> failures a' = failures a + 1)"
proof (induction rule: arena_step.induct)
  case (refused j a)
  then show ?case by (simp add: burden_def given_up_def failures_def stats_step)
next
  case (unserved j a)
  then have "burden (a\<lparr>callers := (callers a)[j := Told (- 1)], timeouts := timeouts a + 1\<rparr>) k \<le> burden a k" for k
    by (auto simp: burden_def given_up_def nth_list_update)
  with unserved failures_callers [of j a "Told (- 1)"] show ?case by (simp add: failures_def)
next
  case (accepted j a i r)
  then have "burden (a\<lparr>crew := (crew a)[i := Accepted j r], callers := (callers a)[j := Calling i]\<rparr>) k \<le> burden a k" for k
    by (auto simp: burden_def given_up_def nth_list_update)
  with accepted failures_callers [of j a "Calling i"] show ?case by (simp add: failures_def)
next
  case (timed_out j a i)
  then have "burden (a\<lparr>callers := (callers a)[j := Told (- 1)], timeouts := timeouts a + 1\<rparr>) k \<le> burden a k" if "k \<noteq> i" for k
    using that by (auto simp: burden_def given_up_def nth_list_update)
  with timed_out failures_callers [of j a "Told (- 1)"] show ?case by (auto simp: failures_def)
next
  case (hung_up i a j r r')
  then have "burden (a\<lparr>crew := (crew a)[i := Free r']\<rparr>) k \<le> burden a k" for k by (auto simp: burden_def given_up_def nth_list_update)
  then show ?case by (simp add: failures_def)
next
  case (blocked i a j r now s')
  then have j: "j < length (callers a)" by (auto simp: sessions_ok_def)
  let ?a' = "a\<lparr>memory := s', crew := (crew a)[i := Gone], callers := tell i j (- 1) (callers a)\<rparr>"
  have b: "burden ?a' k \<le> burden a k" if "k \<noteq> i \<or> callers a ! j \<noteq> Calling i" for k
    using that blocked(1,2) j by (auto simp: burden_def given_up_def tell_def nth_list_update)
  have "failures ?a' = failures a + (if callers a ! j = Calling i then 1 else 0)"
    using failures_callers [OF j, of "Told (- 1)"] by (simp add: tell_def failures_def)
  with b show ?case by (cases "callers a ! j = Calling i") auto
next
  case (counted i a j r now s')
  then have "burden (a\<lparr>memory := s', crew := (crew a)[i := Busy j now (memory a) r]\<rparr>) k \<le> burden a k" for k
    by (auto simp: burden_def given_up_def nth_list_update)
  then show ?case by (simp add: failures_def)
next
  case (ridden i a j now s0 r res reply r' s')
  then have j: "j < length (callers a)" by (auto simp: sessions_ok_def)
  let ?a' = "a\<lparr>memory := s', crew := (crew a)[i := Free r'], callers := tell i j res (callers a),
      unheard := (if res = 0 \<and> callers a ! j \<noteq> Calling i then unheard a @ [j] else unheard a)\<rparr>"
  have "burden ?a' k \<le> burden a k" for k
    using ridden(1,2) j by (auto simp: burden_def given_up_def tell_def nth_list_update)
  moreover have "failures a \<le> failures ?a'"
    using failures_callers [OF j, of "Told res"] by (auto simp: tell_def failures_def split: if_splits)
  ultimately show ?case by blast
next
  case (noted j a res latency)
  let ?a' = "a\<lparr>callers := (callers a)[j := Between], books := stress_attempt (j, Answer res latency) (books a)\<rparr>"
  have "burden ?a' k \<le> burden a k" for k using noted(1,2) by (auto simp: burden_def given_up_def nth_list_update)
  moreover have "failures ?a' = failures a"
    using failures_callers [OF noted(1), of Between] noted(2) by (simp add: failures_def stats_step)
  ultimately show ?case by simp
next
  case (round a r)
  then show ?case by (simp add: burden_def given_up_def failures_def)
qed

lemma sum_burden:
  fixes n :: nat
  assumes "(\<forall>k < n. f k \<le> g k) \<and> x \<le> y \<or> (\<exists>i. (\<forall>k < n. k \<noteq> i \<longrightarrow> f k \<le> g k) \<and> y = x + 1)"
    and "\<And>k. f k \<le> (1 :: nat)" "(\<Sum>k < n. int (g k)) \<le> x"
  shows "(\<Sum>k < n. int (f k)) \<le> y"
  using assms(1)
proof (elim disjE exE conjE)
  assume "\<forall>k < n. f k \<le> g k" "x \<le> y"
  then show ?thesis using sum_mono [of "{..<n}" "\<lambda>k. int (f k)" "\<lambda>k. int (g k)"] assms(3) by simp
next
  fix i assume i: "\<forall>k < n. k \<noteq> i \<longrightarrow> f k \<le> g k" "y = x + 1"
  have "int (f k) \<le> int (g k) + (if k = i then 1 else 0)" if "k < n" for k
    using i(1) that assms(2) [of k] by (cases "k = i") auto
  then have "(\<Sum>k < n. int (f k)) \<le> (\<Sum>k < n. int (g k) + (if k = i then 1 else 0))" by (intro sum_mono) simp
  also have "\<dots> = (\<Sum>k < n. int (g k)) + (if i < n then 1 else 0)" by (simp add: sum.distrib)
  also have "\<dots> \<le> (\<Sum>k < n. int (g k)) + 1" by simp
  finally show ?thesis using i(2) assms(3) by simp
qed

lemma burden_le: "burden a k \<le> 1"
  by (simp add: burden_def)

lemma agree_step:
  assumes "arena_step a a'" "books_agree s a" "books_kept n a" "sessions_ok a" "state_ok (memory a)"
  shows "books_agree s a'"
proof -
  note len = step_lengths [OF assms(1)]
  have "(\<Sum>i < length (crew a). int (burden a' i)) \<le> failures a'"
    by (rule sum_burden [OF step_burden [OF assms(1,4)] burden_le]) (use assms(2) in \<open>simp add: books_agree_def\<close>)
  then have burden: "(\<Sum>i < length (crew a'). int (burden a' i)) \<le> failures a'" using len by simp
  from step_books [OF assms(1,3-5)] show ?thesis
  proof (elim disjE exE)
    assume "books_same a a'"
    then show ?thesis using assms(2) burden len by (simp add: books_same_def books_agree_def)
  next
    fix j assume r: "books_ride j a a'"
    then have j: "j < length (callers a)" by (simp add: books_ride_def)
    from r have "(\<forall>k < length (callers a). rides_of a' k = rides_of a k + (if k = j then 1 else 0)) \<and> unheard a' = unheard a
       \<or> (\<forall>k < length (callers a). rides_of a' k = rides_of a k) \<and> unheard a' = unheard a @ [j]" by (simp add: books_ride_def)
    then show ?thesis
    proof (elim disjE conjE)
      assume rides: "\<forall>k < length (callers a). rides_of a' k = rides_of a k + (if k = j then 1 else 0)" and u: "unheard a' = unheard a"
      have "(\<Sum>k < length (callers a). rides_of a' k) = (\<Sum>k < length (callers a). rides_of a k) + 1"
        using j rides by (simp add: sum.distrib)
      moreover have "(\<Sum>k < length (callers a). fare (client_no k) * int (rides_of a' k))
          = (\<Sum>k < length (callers a). fare (client_no k) * int (rides_of a k)) + fare (client_no j)"
      proof -
        have "fare (client_no k) * int (rides_of a' k) = fare (client_no k) * int (rides_of a k) + (if k = j then fare (client_no j) else 0)"
          if "k < length (callers a)" for k
          using rides that by (simp add: distrib_left)
        then show ?thesis using j by (simp add: sum.distrib)
      qed
      ultimately show ?thesis using r assms(2) burden len u by (simp add: books_ride_def books_agree_def)
    next
      assume "\<forall>k < length (callers a). rides_of a' k = rides_of a k" "unheard a' = unheard a @ [j]"
      then show ?thesis using r assms(2) burden len by (simp add: books_ride_def books_agree_def)
    qed
  qed
qed

text \<open>Every ride nobody heard of was served in a session that had been given up.\<close>

definition timeouts_cover :: "Arena \<Rightarrow> bool" where
  "timeouts_cover a \<longleftrightarrow> length (unheard a) + (\<Sum>i < length (crew a). if given_up a i then 1 else 0) \<le> timeouts a"

lemma sum_shift:
  fixes f g :: "nat \<Rightarrow> nat"
  assumes "\<And>k. k < n \<Longrightarrow> f k + (if k = i then x else 0) \<le> g k + (if k = i then y else 0)" "i < n \<or> x = 0"
  shows "(\<Sum>k < n. f k) + x \<le> (\<Sum>k < n. g k) + y"
proof -
  have "(\<Sum>k < n. f k + (if k = i then x else 0)) \<le> (\<Sum>k < n. g k + (if k = i then y else 0))"
    by (intro sum_mono) (simp add: assms(1))
  moreover have "(\<Sum>k < n. f k + (if k = i then x else 0)) = (\<Sum>k < n. f k) + x" using assms(2) by (auto simp: sum.distrib)
  moreover have "(\<Sum>k < n. g k + (if k = i then y else 0)) = (\<Sum>k < n. g k) + (if i < n then y else 0)" by (simp add: sum.distrib)
  ultimately show ?thesis by (simp split: if_splits)
qed

lemma cover_quiet:
  assumes "timeouts_cover a" "length (crew a') = length (crew a)" "unheard a' = unheard a" "timeouts a \<le> timeouts a'"
    and "\<And>k. given_up a' k \<Longrightarrow> given_up a k"
  shows "timeouts_cover a'"
proof -
  have "(\<Sum>i < length (crew a). if given_up a' i then 1 else 0) \<le> (\<Sum>i < length (crew a). if given_up a i then 1 else (0 :: nat))"
    by (intro sum_mono) (use assms(5) in auto)
  with assms(1-4) show ?thesis by (simp add: timeouts_cover_def)
qed

lemma cover_shift:
  assumes "timeouts_cover a" "length (crew a') = length (crew a)" "i < length (crew a) \<or> x = 0"
    and "length (unheard a') + timeouts a + y \<le> length (unheard a) + timeouts a' + x"
    and "\<And>k. k \<noteq> i \<Longrightarrow> given_up a' k \<Longrightarrow> given_up a k"
    and "(if given_up a' i then 1 else 0) + x \<le> (if given_up a i then 1 else 0) + y"
  shows "timeouts_cover a'"
proof -
  have "(if given_up a' k then 1 else 0) + (if k = i then x else 0) \<le> (if given_up a k then 1 else 0) + (if k = i then y else 0)" for k
    using assms(5) [of k] assms(6) by auto
  from sum_shift [OF this assms(3)] show ?thesis using assms(1,2,4) by (simp add: timeouts_cover_def)
qed

lemma cover_step: "arena_step a a' \<Longrightarrow> sessions_ok a \<Longrightarrow> timeouts_cover a \<Longrightarrow> timeouts_cover a'"
proof (induction rule: arena_step.induct)
  case (refused j a)
  show ?case by (rule cover_quiet [OF refused(4)]) (simp_all add: given_up_def)
next
  case (unserved j a)
  show ?case by (rule cover_quiet [OF unserved(4)]) (use unserved(1,2) in \<open>auto simp: given_up_def nth_list_update split: if_splits\<close>)
next
  case (accepted j a i r)
  show ?case by (rule cover_quiet [OF accepted(6)])
    (use accepted(1-4) in \<open>auto simp: given_up_def nth_list_update split: if_splits\<close>)
next
  case (timed_out j a i)
  show ?case by (rule cover_shift [OF timed_out(4), where i = i and x = 0 and y = 1])
    (use timed_out(1,2) in \<open>auto simp: given_up_def nth_list_update split: if_splits\<close>)
next
  case (hung_up i a j r r')
  show ?case by (rule cover_quiet [OF hung_up(6)]) (use hung_up(1) in \<open>auto simp: given_up_def nth_list_update split: if_splits\<close>)
next
  case (blocked i a j r now s')
  then have "j < length (callers a)" by (auto simp: sessions_ok_def)
  then show ?case by - (rule cover_quiet [OF blocked(5)],
      use blocked(1,2) in \<open>auto simp: given_up_def tell_def nth_list_update split: if_splits\<close>)
next
  case (counted i a j r now s')
  show ?case by (rule cover_quiet [OF counted(5)])
    (use counted(1,2) in \<open>auto simp: given_up_def nth_list_update split: if_splits\<close>)
next
  case (ridden i a j now s0 r res reply r' s')
  then have j: "j < length (callers a)" by (auto simp: sessions_ok_def)
  show ?case
    by (rule cover_shift [OF ridden(5), where i = i and x = "if res = 0 \<and> callers a ! j \<noteq> Calling i then 1 else 0" and y = 0])
      (use ridden(1,2) j in \<open>auto simp: given_up_def tell_def nth_list_update split: if_splits\<close>)
next
  case (noted j a res latency)
  show ?case by (rule cover_quiet [OF noted(4)])
    (use noted(1,2) in \<open>auto simp: given_up_def nth_list_update split: if_splits\<close>)
next
  case (round a r)
  show ?case by (rule cover_quiet [OF round(2)]) (simp_all add: given_up_def)
qed

lemma arena_inv:
  assumes "arena_reach (arena_start n s r) a" "state_ok s"
  shows "state_ok (memory a)" "sessions_ok a" "books_kept n a" "books_agree s a" "timeouts_cover a"
proof -
  have "state_ok (memory a) \<and> sessions_ok a \<and> books_kept n a \<and> books_agree s a \<and> timeouts_cover a"
    using assms(1)
  proof induction
    case start
    let ?a = "arena_start n s r"
    have "books_kept n ?a" unfolding books_kept_def by (auto simp: arena_start_def intro: exI [of _ "[]"])
    moreover have "sessions_ok ?a" by (auto simp: sessions_ok_def arena_start_def)
    moreover have "books_agree s ?a"
      by (simp add: books_agree_def arena_start_def rides_of_def burden_def given_up_def failures_def stress_init_def)
    moreover have "timeouts_cover ?a" by (simp add: timeouts_cover_def arena_start_def given_up_def)
    ultimately show ?case using assms(2) by (simp add: arena_start_def)
  next
    case (further a a')
    then show ?case using memory_step sessions_step kept_step agree_step cover_step by meson
  qed
  then show "state_ok (memory a)" "sessions_ok a" "books_kept n a" "books_agree s a" "timeouts_cover a" by blast+
qed

section \<open>Properties\<close>

lemma success_sum:
  assumes "set (map fst run) \<subseteq> {..<n}"
  shows "success_count (stats (fold stress_attempt run (stress_init n)))
    = int (\<Sum>j < n. success_local (fold stress_attempt run (stress_init n)) ! j)"
proof -
  have "count_list (answers run) 0 = (\<Sum>j < n. count_list (answers_of j run) 0)"
    using assms
  proof (induction run)
    case (Cons ja run)
    obtain j b where ja: "ja = (j, b)" by (cases ja)
    with Cons.prems have j: "j < n" by simp
    have "(\<Sum>k < n. count_list (answers_of k (ja # run)) 0)
        = (\<Sum>k < n. count_list (answers_of k run) 0 + (if k = j then count_list (answers [ja]) 0 else 0))"
      by (intro sum.cong) (auto simp: ja)
    also have "\<dots> = count_list (answers run) 0 + count_list (answers [ja]) 0"
      using Cons j by (simp add: sum.distrib)
    also have "\<dots> = count_list (answers (ja # run)) 0" by (cases b) (simp_all add: ja)
    finally show ?case by simp
  qed simp
  moreover have "success_local (fold stress_attempt run (stress_init n)) ! j = count_list (answers_of j run) 0" if "j < n" for j
    using run_thread [of j "stress_init n" run] that by (simp add: stress_init_def)
  ultimately show ?thesis using run_stats(2) [of run "stress_init n"] by (simp add: stress_init_def)
qed

text \<open>A test of one thread, in the middle of its first session.\<close>

definition demo_arena :: Arena where
  "demo_arena = (arena_start 1 demo_state (sconst 0))\<lparr>callers := [Calling 0],
     memory := snd (check_and_update_rate_limit 1 100 demo_state), crew := Busy 0 100 demo_state (sconst 0) # replicate 99 (Free (sconst 0))\<rparr>"

lemma demo_session:
  "arena_reach (arena_start 1 demo_state (sconst 0)) demo_arena"
  "0 < length (crew demo_arena)" "crew demo_arena ! 0 = Busy 0 100 demo_state (sconst 0)"
proof -
  let ?a = "arena_start 1 demo_state (sconst 0)"
  let ?a1 = "?a\<lparr>crew := (crew ?a)[0 := Accepted 0 (sconst 0)], callers := (callers ?a)[0 := Calling 0]\<rparr>"
  have "\<not> fst (check_and_update_rate_limit 1 100 demo_state)"
    by (simp add: check_and_update_rate_limit_def demo_state_def two_drivers_def zero_state_def Let_def MAX_CLIENTS_def)
  then have lim: "check_and_update_rate_limit (client_no 0) 100 (memory ?a1) = (False, snd (check_and_update_rate_limit 1 100 demo_state))"
    by (simp add: arena_start_def client_no_eq prod_eq_iff)
  have "arena_step ?a ?a1" by (rule arena_step.accepted) (simp_all add: arena_start_def WORKER_COUNT_def)
  moreover have "arena_step ?a1 (?a1\<lparr>memory := snd (check_and_update_rate_limit 1 100 demo_state),
      crew := (crew ?a1)[0 := Busy 0 100 (memory ?a1) (sconst 0)]\<rparr>)"
    by (rule arena_step.counted [OF _ _ lim]) (simp_all add: arena_start_def WORKER_COUNT_def)
  moreover have "crew ?a = Free (sconst 0) # replicate 99 (Free (sconst 0))" "callers ?a = [Between]" "memory ?a = demo_state"
    by (simp_all add: arena_start_def WORKER_COUNT_def numeral_eq_Suc)
  ultimately have "arena_step ?a ?a1" "arena_step ?a1 demo_arena" by (simp_all add: demo_arena_def)
  then show "arena_reach ?a demo_arena" by (blast intro: arena_reach.intros)
qed (simp_all add: demo_arena_def)

text \<open>
  C8: the stress test and the server keep the same books, whatever the interleaving of the threads, the
  workers and the map rounds: when no thread is in a session or about to enter a result, the requests the server
  counts as served are the successful rides the test reports and those of sessions that a thread gave up at its
  time-out, of which there are no more than time-outs. The server has earned 150 for each
  ride of the first ten threads and 100 for each of the others, every attempt that got an answer is a success
  or a failure, and no more workers have died than failures were reported. The shared state stays consistent.
\<close>

theorem stress_books_agree:
  assumes "state_ok s" "arena_reach (arena_start n s r) a" "set (callers a) \<subseteq> {Between}"
  shows "state_ok (memory a)
    \<and> total_success_requests (memory a)
        = total_success_requests s + word_of_int (success_count (stats (books a)) + int (length (unheard a)))
    \<and> length (unheard a) \<le> timeouts a
    \<and> total_revenue (memory a) = total_revenue s + (\<Sum>j < n. fare (int j + 1) * int (success_local (books a) ! j))
        + sum_list (map (\<lambda>j. fare (int j + 1)) (unheard a))
    \<and> success_count (stats (books a)) = int (\<Sum>j < n. success_local (books a) ! j)
    \<and> success_count (stats (books a)) + fail_count (stats (books a)) = total_requests (stats (books a))
    \<and> int (card {i. i < length (crew a) \<and> crew a ! i = Gone}) \<le> fail_count (stats (books a))"
proof -
  note inv = arena_inv [OF assms(2,1)]
  obtain run where run: "set (map fst run) \<subseteq> {..<n}" "books a = fold stress_attempt run (stress_init n)" and n: "length (callers a) = n"
    using inv(3) by (auto simp: books_kept_def)
  have quiet: "callers a ! j = Between" if "j < n" for j using assms(3) n that nth_mem by blast
  then have rides: "rides_of a j = success_local (books a) ! j" if "j < n" for j using that by (simp add: rides_of_def)
  have "filter told_failure (callers a) = []" using assms(3) by (auto simp: filter_empty_conv)
  then have told: "failures a = fail_count (stats (books a))" by (simp add: failures_def)
  have "int (card {i. i < length (crew a) \<and> crew a ! i = Gone}) = (\<Sum>i < length (crew a). if crew a ! i = Gone then 1 else 0)"
    by (simp add: sum.If_cases Int_def)
  also have "\<dots> \<le> (\<Sum>i < length (crew a). int (burden a i))" by (intro sum_mono) (simp add: burden_def)
  finally have fallen: "int (card {i. i < length (crew a) \<and> crew a ! i = Gone}) \<le> fail_count (stats (books a))"
    using inv(4) told by (simp add: books_agree_def)
  note sum = success_sum [OF run(1), folded run(2)]
  have "of_nat ((\<Sum>j < n. rides_of a j) + length (unheard a))
      = (word_of_int (success_count (stats (books a)) + int (length (unheard a))) :: u64)"
    unfolding sum by (simp add: rides)
  moreover have "(\<Sum>j < n. fare (client_no j) * int (rides_of a j)) = (\<Sum>j < n. fare (int j + 1) * int (success_local (books a) ! j))"
    by (simp add: rides client_no_eq)
  moreover have "success_count (stats (books a)) + fail_count (stats (books a)) = total_requests (stats (books a))"
    using run_stats [of run "stress_init n"] by (simp add: run(2) stress_init_def)
  moreover have "length (unheard a) \<le> timeouts a" using inv(5) by (simp add: timeouts_cover_def)
  ultimately show ?thesis using inv(1,4) fallen sum unfolding books_agree_def n by (simp add: comp_def client_no_eq)
qed

theorem stress_books_agree_witness:
  "\<exists>a. arena_reach (arena_start 1 demo_state (sconst 0)) a \<and> set (callers a) \<subseteq> {Between} \<and> total_requests (stats (books a)) = 1
     \<and> total_success_requests (memory a) = total_success_requests demo_state + word_of_int (success_count (stats (books a)))
     \<and> success_count (stats (books a)) + fail_count (stats (books a)) = 1"
proof -
  let ?a = "arena_start 1 demo_state (sconst 0)" and ?a1 = "demo_arena"
  note begun = demo_session
  have here: "callers ?a1 ! 0 = Calling 0" "unheard ?a1 = []" by (simp_all add: demo_arena_def arena_start_def)
  obtain res reply r' s2 where ride: "handle_ride_request_logic (client_no 0) 256 (snd (generate_private_key (sconst 0))) (memory ?a1) = (res, reply, r', s2)"
    by (cases "handle_ride_request_logic (client_no 0) 256 (snd (generate_private_key (sconst 0))) (memory ?a1)")
  let ?a2 = "?a1\<lparr>memory := s2, crew := (crew ?a1)[0 := Free r'], callers := tell 0 0 res (callers ?a1),
      unheard := (if res = 0 \<and> callers ?a1 ! 0 \<noteq> Calling 0 then unheard ?a1 @ [0] else unheard ?a1)\<rparr>"
  let ?a3 = "?a2\<lparr>callers := (callers ?a2)[0 := Between], books := stress_attempt (0, Answer res 0) (books ?a2)\<rparr>"
  have "arena_step ?a1 ?a2" by (rule arena_step.ridden [OF begun(2,3) ride])
  moreover have "arena_step ?a2 ?a3" by (rule arena_step.noted) (simp_all add: demo_arena_def arena_start_def tell_def)
  ultimately have r: "arena_reach ?a ?a3" using begun(1) by (blast intro: arena_reach.intros)
  have q: "set (callers ?a3) \<subseteq> {Between}" by (simp add: demo_arena_def arena_start_def tell_def)
  have "total_requests (stats (books ?a3)) = 1" "unheard ?a3 = []"
    using here by (simp_all add: demo_arena_def arena_start_def stress_init_def stress_attempt_def count_answer_def Let_def)
  with stress_books_agree [OF demo_state_ok r q] r q show ?thesis by (intro exI [of _ ?a3]) simp
qed

text \<open>A ride that is served after the time-out of its thread is counted by the server and reported as a failure.\<close>

lemma served_when_eligible:
  assumes "state_ok s" "d \<in> set (active_drivers s)" "eligible d" "handle_ride_request_logic c n r s = (res, reply, r', s')"
  shows "res = 0"
proof -
  have "\<forall>d \<in> set (active_drivers s). base_distance d < far_away"
    using state_okD(3) [OF assms(1)] near_distance by (auto simp: driver_ok_def)
  from ride.none_iff [OF this, of "is_vip_client c"] assms(2,3) have "pick_driver s (is_vip_client c) \<noteq> - 1" by blast
  with state_okD(1) [OF assms(1)] assms(4) show ?thesis by (cases rule: ride_request_cases [where c = c and n = n and r = r]) auto
qed

lemma timed_out_ride:
  "\<exists>a. arena_reach (arena_start 1 demo_state (sconst 0)) a \<and> set (callers a) \<subseteq> {Between} \<and> timeouts a = 1
     \<and> success_count (stats (books a)) = 0 \<and> fail_count (stats (books a)) = 1
     \<and> total_success_requests (memory a) = total_success_requests demo_state + 1"
proof -
  let ?a1 = "demo_arena"
  have start: "callers ?a1 = [Calling 0]" "unheard ?a1 = []" "timeouts ?a1 = 0" "books ?a1 = stress_init 1"
    "memory ?a1 = snd (check_and_update_rate_limit 1 100 demo_state)"
    by (simp_all add: demo_arena_def arena_start_def)
  let ?a2 = "?a1\<lparr>callers := (callers ?a1)[0 := Told (- 1)], timeouts := timeouts ?a1 + 1\<rparr>"
  let ?a3 = "?a2\<lparr>callers := (callers ?a2)[0 := Between], books := stress_attempt (0, Answer (- 1) 0) (books ?a2)\<rparr>"
  obtain res reply r' s2 where ride: "handle_ride_request_logic (client_no 0) 256 (snd (generate_private_key (sconst 0))) (memory ?a3) = (res, reply, r', s2)"
    by (cases "handle_ride_request_logic (client_no 0) 256 (snd (generate_private_key (sconst 0))) (memory ?a3)")
  let ?a4 = "?a3\<lparr>memory := s2, crew := (crew ?a3)[0 := Free r'], callers := tell 0 0 res (callers ?a3),
      unheard := (if res = 0 \<and> callers ?a3 ! 0 \<noteq> Calling 0 then unheard ?a3 @ [0] else unheard ?a3)\<rparr>"
  have "arena_step ?a1 ?a2" by (rule arena_step.timed_out [where i = 0]) (simp_all add: start)
  moreover have "arena_step ?a2 ?a3" by (rule arena_step.noted) (simp_all add: start)
  moreover have "arena_step ?a3 ?a4" by (rule arena_step.ridden [OF _ _ ride]) (use demo_session(2,3) in simp_all)
  ultimately have "arena_reach (arena_start 1 demo_state (sconst 0)) ?a4" using demo_session(1) by (blast intro: arena_reach.intros)
  moreover have ok: "state_ok (memory ?a3)" by (simp add: start rate_limit_state_ok demo_state_ok)
  have "active_drivers (memory ?a3) = active_drivers two_drivers"
    by (simp add: start active_drivers_def demo_state_def two_drivers_def)
  then have "\<exists>d \<in> set (active_drivers (memory ?a3)). eligible d"
    by (simp add: two_drivers_active eligible_def zero_driver_def)
  then have "res = 0" using served_when_eligible [OF ok _ _ ride] by blast
  with ride_accounts [OF ok ride] have "total_success_requests s2 = total_success_requests demo_state + 1" by (simp add: start)
  ultimately show ?thesis
    by (intro exI [of _ ?a4]) (simp add: start tell_def stress_init_def stress_attempt_def count_answer_def Let_def)
qed

text \<open>
  C9: the sessions of the stress test are sessions of the code: whenever a worker is about to serve the
  ride request of a thread, \<open>handle_client\<close> on that connection, with the memory changed by the other processes between
  its two sections as it was, and \<open>perform_ride_request\<close> of the thread agree on two byte streams; the worker
  leaves the memory and the answer the thread is told.
\<close>

theorem stress_session_is_code:
  assumes "state_ok s" "arena_reach (arena_start n s r0) a" "n \<le> num_threads num" "i < length (crew a)" "crew a ! i = Busy j now s0 r"
    and "handle_ride_request_logic (client_no j) 256 (snd (generate_private_key r)) (memory a) = (res, reply, r', s')"
  shows "\<exists>from_client from_server.
    (\<forall>es hb bb. closed_after es from_client \<longrightarrow>
       (\<exists>c'. handle_client (\<lambda>_. memory a) now (new_conn es hb bb) \<lparr>shared = s0, gen = r\<rparr> = (Returned, c', \<lparr>shared = s', gen = r'\<rparr>)
          \<and> sent c' = from_server))
    \<and> (\<forall>es jh jb msg. closed_after es from_server \<and> length msg = 1024 \<longrightarrow>
       (\<exists>m c'. perform_ride_request (client_no j) rc jh jb msg (new_conn es [] []) = Some (res, m, snd (generate_private_key rc), c')
          \<and> sent c' = from_client \<and> take (length reply) m = c_bytes reply))"
proof -
  let ?w = "\<lparr>shared = s0, gen = r\<rparr>"
  note inv = arena_inv [OF assms(2,1)]
  have "j < length (callers a)" "state_ok s0" "\<not> fst (check_and_update_rate_limit (client_no j) now s0)"
    using inv(2) assms(4,5) by (auto simp: sessions_ok_def)
  note D = this
  have n: "j < 5000" using D(1) inv(3) assms(3) by (auto simp: books_kept_def num_threads_def split: if_splits)
  have g: "generate_private_key (gen ?w) = (fst (generate_private_key r), snd (generate_private_key r))"
    "generate_private_key rc = (fst (generate_private_key rc), snd (generate_private_key rc))" by simp_all
  have ok: "state_ok (shared ?w)" "\<not> fst (check_and_update_rate_limit (client_no j) now (shared ?w))" using D(2,3) by simp_all
  have env: "state_ok ((\<lambda>_. memory a) s)" for s using inv(1) by simp
  have sv: "served (\<lambda>_. memory a) now (client_no j) (snd (generate_private_key r)) (shared ?w) = (res, reply, r', s')"
    using assms(6) by (simp add: served_def)
  obtain pa pb k cipher out where sides:
    "\<forall>es hb bb. closed_after es (client_stream pa (client_no j) cipher) \<longrightarrow>
       (\<exists>c'. handle_client (\<lambda>_. memory a) now (new_conn es hb bb) ?w = (Returned, c', ?w\<lparr>shared := s', gen := r'\<rparr>)
          \<and> sent c' = server_stream pb (c_bytes reply) out)"
    "\<forall>es jh jb msg. closed_after es (server_stream pb (c_bytes reply) out) \<and> length msg = 1024 \<longrightarrow>
       (\<exists>m c'. perform_ride_request (client_no j) rc jh jb msg (new_conn es [] []) = Some (res, m, snd (generate_private_key rc), c')
          \<and> sent c' = client_stream pa (client_no j) cipher \<and> take (length reply) m = c_bytes reply)"
    by (rule closed.session_sides [OF ok(1) env client_no_range [OF n] ok(2) g sv])
  then show ?thesis
    by (intro exI [of _ "client_stream pa (client_no j) cipher"] exI [of _ "server_stream pb (c_bytes reply) out"]) simp
qed

theorem stress_session_is_code_witness:
  "\<exists>es1 es2 c' w' m c'' res.
     handle_client (\<lambda>_. memory demo_arena) 100 (new_conn es1 [] []) \<lparr>shared = demo_state, gen = sconst 0\<rparr> = (Returned, c', w')
     \<and> closed_after es2 (sent c')
     \<and> perform_ride_request 1 (sconst 5) [] [] (replicate 1024 0) (new_conn es2 [] []) = Some (res, m, snd (generate_private_key (sconst 5)), c'')
     \<and> closed_after es1 (sent c'')"
proof -
  obtain res reply r' s' where ride:
    "handle_ride_request_logic (client_no 0) 256 (snd (generate_private_key (sconst 0))) (memory demo_arena) = (res, reply, r', s')"
    by (cases "handle_ride_request_logic (client_no 0) 256 (snd (generate_private_key (sconst 0))) (memory demo_arena)")
  have n: "1 \<le> num_threads 1" by (simp add: num_threads_def)
  from stress_session_is_code [OF demo_state_ok demo_session(1) n demo_session(2,3) ride, of "sconst 5"]
  obtain fc fs where
    S: "\<forall>es hb bb. closed_after es fc \<longrightarrow>
       (\<exists>c'. handle_client (\<lambda>_. memory demo_arena) 100 (new_conn es hb bb) \<lparr>shared = demo_state, gen = sconst 0\<rparr>
          = (Returned, c', \<lparr>shared = s', gen = r'\<rparr>) \<and> sent c' = fs)"
    and C: "\<forall>es jh jb msg. closed_after es fs \<and> length msg = 1024 \<longrightarrow>
       (\<exists>m c'. perform_ride_request 1 (sconst 5) jh jb msg (new_conn es [] []) = Some (res, m, snd (generate_private_key (sconst 5)), c')
          \<and> sent c' = fc \<and> take (length reply) m = c_bytes reply)"
    by (auto simp: client_no_eq)
  obtain es1 es2 where "closed_after es1 fc" "closed_after es2 fs" using some_stream unfolding closed_after_def by meson
  moreover have "length (replicate 1024 (0 :: u8)) = 1024" by simp
  ultimately show ?thesis using S C by metis
qed

text \<open>A blocked session is one of the code too: the worker crashes, and the thread is told -1.\<close>

lemma blocked_session_is_code:
  assumes "state_ok (memory a)" "check_and_update_rate_limit (client_no j) now (memory a) = (True, s')"
  shows "\<exists>from_client from_server.
    (\<forall>es hb bb. closed_after es from_client \<longrightarrow>
       (\<exists>c'. handle_client env now (new_conn es hb bb) \<lparr>shared = memory a, gen = r\<rparr>
            = (Crashed, c', \<lparr>shared = s', gen = snd (generate_private_key r)\<rparr>) \<and> sent c' = from_server))
    \<and> (\<forall>es jh jb msg. closed_after es from_server \<longrightarrow>
       (\<exists>c'. perform_ride_request (client_no j) rc jh jb msg (new_conn es [] []) = Some (- 1, msg, snd (generate_private_key rc), c')
          \<and> sent c' = from_client))"
proof -
  let ?w = "\<lparr>shared = memory a, gen = r\<rparr>"
  have l: "limited_id (client_no j)"
    using assms(2) by (auto simp: limited_id_def check_and_update_rate_limit_def MAX_CLIENTS_def split: if_splits)
  have wf: "wf_state (shared ?w)" using state_okD(1) [OF assms(1)] by simp
  have seen: "3 \<le> seen_in (client_no j) now (shared ?w)"
    using rate_limit_self(1) [OF wf l, of now] assms(2) by simp
  have g: "generate_private_key (gen ?w) = (fst (generate_private_key r), snd (generate_private_key r))"
    "generate_private_key rc = (fst (generate_private_key rc), snd (generate_private_key rc))" by simp_all
  obtain pa pb k cipher where sides:
    "\<forall>es hb bb. closed_after es (client_stream pa (client_no j) cipher) \<longrightarrow>
       (\<exists>c'. handle_client env now (new_conn es hb bb) ?w =
            (Crashed, c', ?w\<lparr>shared := snd (check_and_update_rate_limit (client_no j) now (shared ?w)), gen := snd (generate_private_key r)\<rparr>)
          \<and> sent c' = hello_reply pb)"
    "\<forall>es jh jb msg. closed_after es (hello_reply pb) \<longrightarrow>
       (\<exists>c'. perform_ride_request (client_no j) rc jh jb msg (new_conn es [] []) = Some (- 1, msg, snd (generate_private_key rc), c')
          \<and> sent c' = client_stream pa (client_no j) cipher)"
    by (rule closed.blocked_sides [OF wf l seen g, where env = env])
  then show ?thesis
    using assms(2) by - (rule exI [of _ "client_stream pa (client_no j) cipher"], rule exI [of _ "hello_reply pb"], simp)
qed

end
