(* ===== verification/Dump_Dat.thy ===== *)
theory Dump_Dat
  imports Coordinator
begin

text \<open>
  src/dump_dat.c: the tool that reads the save file and prints a report. The loop over the drivers is
  split into its counters and its first five lines; a driver count beyond the array is out of scope, as
  in the programs that write the file.
\<close>

section \<open>The report\<close>

definition nl :: string where "nl = [CHR 0x0A]"

definition dump_status :: "Driver \<Rightarrow> string" where
  "dump_status d =
     (if is_refueling d then coloured ''34'' ''REFUELING''
      else if is_available d then coloured ''32'' ''AVAILABLE''
      else coloured ''31'' ''BUSY'')"

text \<open>The counters: available, busy, refueling.\<close>

fun count_drivers :: "Driver list \<Rightarrow> int \<times> int \<times> int \<Rightarrow> int \<times> int \<times> int" where
  "count_drivers [] n = n"
| "count_drivers (d # ds) (a, b, r) =
     count_drivers ds (if is_refueling d then (a, b, r + 1) else if is_available d then (a + 1, b, r) else (a, b + 1, r))"

definition dump_line :: "nat \<Rightarrow> Driver \<Rightarrow> string" where
  "dump_line i d = ''  ['' @ show_nat i @ ''] ID: '' @ show_int (sint (driver_id d)) @ '', Status: '' @ dump_status d
     @ '', Rides: '' @ show_int (rides_count d) @ '', Fuel: '' @ show_int (fuel d) @ ''/10'' @ nl"

definition dump_lines :: "Driver list \<Rightarrow> string" where
  "dump_lines ds = concat (map2 dump_line [0..<length (take 5 ds)] (take 5 ds))"

definition double_rule :: string where "double_rule = replicate 38 CHR ''='' @ nl"
definition single_rule :: string where "single_rule = replicate 38 CHR ''-'' @ nl"

definition dump_text :: "SharedState \<Rightarrow> string" where
  "dump_text s =
     (case count_drivers (active_drivers s) (0, 0, 0) of (a, b, r) \<Rightarrow>
        double_rule @ ''        Server State Dump Report      '' @ nl @ double_rule
        @ ''Total Requests Handled : '' @ show_int (sint (total_requests_handled s)) @ nl
        @ ''Total Success Requests : '' @ show_int (sint (total_success_requests s)) @ nl
        @ ''Total Revenue          : '' @ coloured ''32'' (CHR ''$'' # show_int (total_revenue s)) @ nl
        @ ''Active Driver Count    : '' @ show_int (driver_count s) @ nl @ single_rule
        @ ''Driver List (First 5 Details):'' @ nl @ dump_lines (active_drivers s)
        @ (if 5 < driver_count s then ''  ... ('' @ show_int (driver_count s - 5) @ '' more drivers hidden)'' @ nl else [])
        @ single_rule @ ''Summary:'' @ nl
        @ '' - AVAILABLE : '' @ show_int a @ nl @ '' - BUSY      : '' @ show_int b @ nl
        @ '' - REFUELING : '' @ show_int r @ nl @ double_rule)"

text \<open>The exit code and the output.\<close>

definition dump_main :: "save_file \<Rightarrow> int \<times> string" where
  "dump_main f =
     (case f of
        NoFile \<Rightarrow> (1, ''Error: Could not open server.dat. Please ensure the server has run and shut down gracefully.'' @ nl)
      | ShortFile \<Rightarrow> (1, ''Error: File size mismatch. The save file might be corrupted or created by an incompatible version.'' @ nl)
      | Image s \<Rightarrow> (0, dump_text s))"

section \<open>Facts\<close>

definition status_count :: "status \<Rightarrow> Driver list \<Rightarrow> int" where
  "status_count st ds = int (length (filter (\<lambda>d. status_of d = st) ds))"

lemma status_count_simps [simp]:
  "status_count st [] = 0" "status_count st (d # ds) = (if status_of d = st then 1 else 0) + status_count st ds"
  by (simp_all add: status_count_def)

lemma count_drivers_ok:
  "\<forall>d \<in> set ds. driver_ok d \<Longrightarrow>
     count_drivers ds (a, b, r) = (a + status_count Available ds, b + status_count Navigating ds, r + status_count Refueling ds)"
proof (induction ds arbitrary: a b r)
  case (Cons d ds)
  have d: "driver_ok d" using Cons.prems by simp
  have "is_refueling d \<or> is_available d \<or> has_target d" "\<not> (is_refueling d \<and> is_available d)" "\<not> (has_target d \<and> is_available d)"
    "\<not> (has_target d \<and> is_refueling d)"
    using d by (auto simp: driver_ok_def one_status_def)
  then show ?case using Cons.IH Cons.prems driver_ok_status [OF d] by (auto simp: status_of_def)
qed simp

lemma status_count_total:
  "\<forall>d \<in> set ds. driver_ok d \<Longrightarrow>
     status_count Available ds + status_count Navigating ds + status_count Refueling ds = int (length ds)"
proof (induction ds)
  case (Cons d ds)
  then show ?case using driver_ok_not_busy [of d] by (cases "status_of d") simp_all
qed simp

text \<open>
  the report of a saved server: every consistent state that was written in full is dumped with exit
  code 0; its summary counts the available drivers, those on a trip as BUSY and those refueling, and the
  three numbers add up to the driver count.
\<close>

theorem dump_summary:
  assumes "state_ok s"
  shows "dump_main (save_state FullWrite s f) = (0, dump_text s)
    \<and> count_drivers (active_drivers s) (0, 0, 0) =
        (status_count Available (active_drivers s), status_count Navigating (active_drivers s), status_count Refueling (active_drivers s))
    \<and> status_count Available (active_drivers s) + status_count Navigating (active_drivers s)
        + status_count Refueling (active_drivers s) = driver_count s"
proof -
  note ok = state_okD [OF assms]
  have "int (length (active_drivers s)) = driver_count s" using length_active_drivers [OF ok(1)] ok(2) by simp
  then show ?thesis
    using count_drivers_ok [OF ok(3), of 0 0 0] status_count_total [OF ok(3)] by (simp add: dump_main_def save_state_def)
qed

theorem dump_summary_witness:
  "\<exists>s. dump_main (save_state FullWrite s NoFile) = (0, dump_text s) \<and> driver_count s = 1
    \<and> count_drivers (active_drivers s) (0, 0, 0) = (0, 1, 0)"
proof -
  have "state_ok one_busy"
    by (simp add: state_ok_def one_busy_def active_drivers_def wf_state_def zero_state_def MAX_DRIVERS_def)
      (simp add: driver_ok_def one_status_def near_def target_on_map_def zero_driver_def)
  from dump_summary [OF this, of NoFile] show ?thesis
    by (intro exI [of _ one_busy]) (simp add: one_busy_def active_drivers_def status_of_def)
qed

end
