(* ===== verification/Map_Frame.thy ===== *)
theory Map_Frame
  imports Map_Monitor
begin

text \<open>
  src/server/map_monitor.c, the frame the map thread prints after each round: the character grid,
  the coloured map with its legend, and the table of the first ten drivers with the three small
  stack buffers \<open>status_str\<close>, \<open>target_info\<close> and \<open>fuel_bar\<close> it formats into.
\<close>

section \<open>The character grid\<close>

type_synonym canvas = "char list list"

definition base_canvas :: "grid \<Rightarrow> canvas" where
  "base_canvas g = map (\<lambda>y. map (\<lambda>x. if is_obstacle g x y \<noteq> 0 then CHR ''#'' else CHR ''.'') [0..MAP_WIDTH - 1])
     [0..MAP_HEIGHT - 1]"

definition symbol :: "Driver \<Rightarrow> char" where
  "symbol d = (if has_target d then CHR ''>'' else if is_refueling d then CHR ''F''
               else if is_available d then CHR ''D'' else CHR ''X'')"

definition draw_driver :: "Driver \<Rightarrow> canvas \<Rightarrow> canvas" where
  "draw_driver d m =
     (let y = cell_y d; x = cell_x d in
      if 0 \<le> x \<and> x < MAP_WIDTH \<and> 0 \<le> y \<and> y < MAP_HEIGHT
      then m[nat y := (m ! nat y)[nat x := symbol d]] else m)"

definition draw_map :: "grid \<Rightarrow> SharedState \<Rightarrow> canvas" where
  "draw_map g s = fold draw_driver (active_drivers s) (base_canvas g)"

section \<open>The text of the frame\<close>

text \<open>A wall is printed as the three UTF-8 bytes of a full block.\<close>

definition cell_text :: "char \<Rightarrow> string" where
  "cell_text c =
     (if c = CHR ''#'' then coloured ''30'' [CHR 0xE2, CHR 0x96, CHR 0x88]
      else if c = CHR ''>'' then coloured ''33'' [c]
      else if c = CHR ''D'' then coloured ''32'' [c]
      else if c = CHR ''X'' then coloured ''31'' [c]
      else if c = CHR ''F'' then coloured ''34'' [c]
      else coloured ''30'' [c])"

definition legend :: "int \<Rightarrow> string" where
  "legend y =
     (if y = MAP_HEIGHT - 1 then ''  [LEGEND]'' else [])
     @ (if y = MAP_HEIGHT - 2 then ''  '' @ coloured ''33'' ''>'' @ '': Moving'' else [])
     @ (if y = MAP_HEIGHT - 3 then ''  '' @ coloured ''32'' ''D'' @ '': Available'' else [])
     @ (if y = MAP_HEIGHT - 4 then ''  '' @ coloured ''31'' ''X'' @ '': Busy'' else [])
     @ (if y = MAP_HEIGHT - 5 then ''  '' @ coloured ''34'' ''F'' @ '': Refueling (Fuel=0)'' else [])"

definition map_row_text :: "canvas \<Rightarrow> int \<Rightarrow> string" where
  "map_row_text m y = ''  '' @ concat (map cell_text (m ! nat y)) @ legend y @ [CHR 0x0A]"

definition map_text :: "canvas \<Rightarrow> string" where
  "map_text m = concat (map (map_row_text m) (rev [0..MAP_HEIGHT - 1]))"

definition status_str :: "Driver \<Rightarrow> string" where
  "status_str d =
     (if has_target d then coloured ''33'' ''Navigating''
      else if is_refueling d then coloured ''34'' ''Refueling ''
      else if is_available d then coloured ''32'' ''Available ''
      else coloured ''31'' ''Busy      '')"

definition target_info :: "Driver \<Rightarrow> string" where
  "target_info d =
     (if has_target d then ''('' @ show_fixed 3 (target_lat d) @ '', '' @ show_fixed 3 (target_lon d) @ '')''
      else '' - '')"

definition fuel_bar :: "Driver \<Rightarrow> string" where
  "fuel_bar d = map (\<lambda>k. if k < fuel d then CHR ''#'' else CHR ''.'') [0..9]"

definition driver_row :: "Driver \<Rightarrow> string" where
  "driver_row d =
     '' '' @ pad_right 5 (show_int (sint (driver_id d))) @ '' | '' @ pad_right 19 (status_str d) @ '' | [''
     @ fuel_bar d @ ''] |  '' @ show_fixed 1 (rating d) @ ''   | '' @ target_info d @ [CHR 0x0A]"

definition driver_table :: "SharedState \<Rightarrow> string" where
  "driver_table s =
     concat (map driver_row (take 10 (active_drivers s)))
     @ (if 10 < driver_count s then '' ... ('' @ show_int (driver_count s - 10) @ '' more drivers)'' @ [CHR 0x0A] else [])"

definition head_text :: "SharedState \<Rightarrow> string" where
  "head_text s =
     CHR 0x1B # ''[2J'' @ CHR 0x1B # ''[H'' @ ''==== [ SMART CITY MAP: FAST CYCLE VERSION ] ===='' @ [CHR 0x0A]
     @ '' Mode: '' @ pad_right 5 (if dispatch_mode s = 1 then ''SMART'' else ''BASIC'')
     @ '' | Deals: '' @ pad_right 4 (show_nat (unat (total_success_requests s)))
     @ '' | Revenue: $'' @ pad_right 5 (show_int (total_revenue s)) @ [CHR 0x0A]
     @ replicate 46 CHR ''-'' @ [CHR 0x0A]"

definition table_head :: string where
  "table_head =
     replicate 67 CHR ''-'' @ [CHR 0x0A]
     @ '' ID    | Status      | Fuel (0-10) | Rating | Target'' @ [CHR 0x0A]
     @ ''-------|-------------|-------------|--------|----------------------'' @ [CHR 0x0A]"

definition frame_text :: "grid \<Rightarrow> SharedState \<Rightarrow> string" where
  "frame_text g s =
     head_text s @ map_text (draw_map g s) @ table_head @ driver_table s @ replicate 67 CHR ''='' @ [CHR 0x0A]"

section \<open>Shape and content of the grid\<close>

definition wf_canvas :: "canvas \<Rightarrow> bool" where
  "wf_canvas m \<longleftrightarrow> length m = 20 \<and> (\<forall>row \<in> set m. length row = 40)"

definition shown :: "canvas \<Rightarrow> int \<Rightarrow> int \<Rightarrow> char" where
  "shown m x y = m ! nat y ! nat x"

lemma wf_base_canvas: "wf_canvas (base_canvas g)"
  by (auto simp: wf_canvas_def base_canvas_def MAP_WIDTH_def MAP_HEIGHT_def)

lemma shown_base_canvas:
  "in_map x y \<Longrightarrow> shown (base_canvas g) x y = (if is_obstacle g x y \<noteq> 0 then CHR ''#'' else CHR ''.'')"
  by (auto simp: shown_def base_canvas_def in_map_def MAP_WIDTH_def MAP_HEIGHT_def)

lemma wf_draw_driver: "wf_canvas m \<Longrightarrow> wf_canvas (draw_driver d m)"
  by (auto simp: wf_canvas_def draw_driver_def Let_def MAP_HEIGHT_def dest!: set_update_subset_insert [THEN subsetD])

lemma shown_draw_driver:
  "wf_canvas m \<Longrightarrow> in_map x y \<Longrightarrow>
     shown (draw_driver d m) x y = (if cell_x d = x \<and> cell_y d = y then symbol d else shown m x y)"
  by (auto simp: wf_canvas_def shown_def draw_driver_def Let_def in_map_def MAP_WIDTH_def MAP_HEIGHT_def nth_list_update)

lemma fold_draw:
  "wf_canvas m \<Longrightarrow> wf_canvas (fold draw_driver ds m) \<and> (in_map x y \<longrightarrow>
     shown (fold draw_driver ds m) x y =
       (case filter (\<lambda>d. cell_x d = x \<and> cell_y d = y) (rev ds) of [] \<Rightarrow> shown m x y | d # _ \<Rightarrow> symbol d))"
proof (induction ds rule: rev_induct)
  case (snoc d ds)
  then show ?case by (auto simp: wf_draw_driver shown_draw_driver)
qed simp

lemma symbol_ok: "driver_ok d \<Longrightarrow> symbol d = (case status_of d of Navigating \<Rightarrow> CHR ''>'' | Refueling \<Rightarrow> CHR ''F''
    | Available \<Rightarrow> CHR ''D'' | Busy \<Rightarrow> CHR ''X'')"
  by (auto simp: symbol_def status_of_def)

section \<open>The stack buffers\<close>

lemma length_show_fixed_3:
  assumes "\<bar>rat_of v\<bar> \<le> 1000"
  shows "length (show_fixed 3 v) \<le> 9"
proof -
  let ?n = "nat (rne (\<bar>rat_of v\<bar> * 10 ^ 3))"
  have "rne (\<bar>rat_of v\<bar> * 10 ^ 3) \<le> rne (of_int 1000000)"
    using assms by (intro rne_mono) simp
  then have "?n \<le> 1000000" by (simp only: rne_of_int)
  then have "?n div 10 ^ 3 < 10 ^ 4" by simp
  from length_show_nat [OF _ this] have "length (show_nat (?n div 10 ^ 3)) \<le> 4" by simp
  then show ?thesis by (cases "rat_of v < 0") (simp_all add: show_fixed_def Let_def)
qed

lemma target_info_length:
  assumes "driver_ok d" shows "length (target_info d) \<le> 22"
proof -
  have "length (show_fixed 3 (target_lat d)) \<le> 9" "length (show_fixed 3 (target_lon d)) \<le> 9" if "has_target d"
    using assms that to_cell_near
    by (auto intro!: length_show_fixed_3 simp: driver_ok_def target_on_map_def in_map_def)
  then show ?thesis by (fastforce simp: target_info_def)
qed

section \<open>Properties\<close>

text \<open>
  the drawn map has 20 rows of 40 cells; a cell shows the last driver, in array order, that
  stands on it, as '>' when navigating, 'F' when refueling and 'D' when available, and otherwise
  '#' for an obstacle and '.' for free ground. The symbol 'X' of a busy driver is never drawn.
\<close>

theorem draw_map_content:
  assumes "state_ok s"
  shows "wf_canvas (draw_map g s) \<and> (\<forall>x y. in_map x y \<longrightarrow>
     shown (draw_map g s) x y =
       (case filter (\<lambda>d. cell_x d = x \<and> cell_y d = y) (rev (active_drivers s)) of
          [] \<Rightarrow> if is_obstacle g x y \<noteq> 0 then CHR ''#'' else CHR ''.''
        | d # _ \<Rightarrow> symbol d))
     \<and> (\<forall>d \<in> set (active_drivers s). symbol d =
          (case status_of d of Navigating \<Rightarrow> CHR ''>'' | Refueling \<Rightarrow> CHR ''F'' | _ \<Rightarrow> CHR ''D''))"
proof (intro conjI allI impI ballI)
  show "wf_canvas (draw_map g s)" using fold_draw [OF wf_base_canvas] by (simp add: draw_map_def)
next
  fix x y assume "in_map x y"
  then show "shown (draw_map g s) x y =
       (case filter (\<lambda>d. cell_x d = x \<and> cell_y d = y) (rev (active_drivers s)) of
          [] \<Rightarrow> if is_obstacle g x y \<noteq> 0 then CHR ''#'' else CHR ''.'' | d # _ \<Rightarrow> symbol d)"
    using fold_draw [OF wf_base_canvas [of g], of "active_drivers s" x y] shown_base_canvas [of x y g]
    by (simp add: draw_map_def cong: list.case_cong)
next
  fix d assume "d \<in> set (active_drivers s)"
  then have ok: "driver_ok d" using state_okD(3) [OF assms] by blast
  show "symbol d = (case status_of d of Navigating \<Rightarrow> CHR ''>'' | Refueling \<Rightarrow> CHR ''F'' | _ \<Rightarrow> CHR ''D'')"
    using symbol_ok [OF ok] driver_ok_not_busy [OF ok] by (cases "status_of d") simp_all
qed

theorem draw_map_content_witness:
  "wf_canvas (draw_map init_map_obstacles demo_state)"
  using draw_map_content [OF demo_state_ok, of init_map_obstacles] by blast

text \<open>
  the buffers of the status table: for every driver of a consistent state the texts and their
  terminating NUL fit \<open>status_str[30]\<close> and \<open>target_info[30]\<close>, the fuel bar has ten characters in
  its twelve, and it shows exactly as many marks as there is fuel.
\<close>

theorem status_buffers_fit:
  assumes "driver_ok d"
  shows "length (status_str d) < 30 \<and> length (target_info d) < 30 \<and> length (fuel_bar d) = 10
    \<and> int (length (filter (\<lambda>c. c = CHR ''#'') (fuel_bar d))) = fuel d"
proof -
  have "fuel d \<in> {0, 1, 2, 3, 4, 5, 6, 7, 8, 9, 10}" using assms by (clarsimp simp: driver_ok_def) presburger
  then have "int (length (filter (\<lambda>c. c = CHR ''#'') (fuel_bar d))) = fuel d"
    by (auto simp: fuel_bar_def upto_rec1)
  moreover have "length (status_str d) < 30" by (simp add: status_str_def coloured_def)
  ultimately show ?thesis using target_info_length [OF assms] by (simp add: fuel_bar_def)
qed

theorem status_buffers_fit_witness:
  "length (filter (\<lambda>c. c = CHR ''#'') (fuel_bar (zero_driver\<lparr>is_available := True, fuel := 7\<rparr>))) = 7"
  using status_buffers_fit [of "zero_driver\<lparr>is_available := True, fuel := 7\<rparr>"]
  by (simp add: driver_ok_def one_status_def near_def zero_driver_def)

end
