(* ===== verification/Map_Thread.thy ===== *)
theory Map_Thread
  imports Map_Frame Critical_Sections
begin

text \<open>
  src/server/map_monitor.c, the loop of \<open>map_monitor_thread\<close>: as long as the server runs, a round under the mutex,
  then the drawing without it, then a pause. The sections of the other processes are interleaved between the
  unlock and the drawing and between the drawing and the next lock; the drawing itself reads the memory at
  one moment here, while the code reads it field by field.
\<close>

section \<open>The loop\<close>

fun map_monitor_thread :: "(critical list \<times> critical list) list \<Rightarrow> rng \<Rightarrow> SharedState \<Rightarrow> string \<times> rng \<times> SharedState" where
  "map_monitor_thread [] r s = ([], r, s)"
| "map_monitor_thread ((before_drawing, before_lock) # rest) r s =
     (let (r, s) = map_tick r s;
          s = fold exec before_drawing s;
          (out, r, s') = map_monitor_thread rest r (fold exec before_lock s)
      in (frame_text init_map_obstacles s @ out, r, s'))"

section \<open>What it prints\<close>

lemma thread_frames:
  "state_ok s \<Longrightarrow> map_monitor_thread es r s = (out, r', s') \<Longrightarrow>
     \<exists>ss. out = concat (map (frame_text init_map_obstacles) ss) \<and> length ss = length es \<and> list_all state_ok ss
       \<and> made_from s s'"
proof (induction es arbitrary: r s out r' s')
  case Nil
  then show ?case by (auto simp: made_from_def intro!: exI [of _ "[]"])
next
  case (Cons e es)
  obtain a b where e: "e = (a, b)" by (cases e)
  obtain r1 s1 where t: "map_tick r s = (r1, s1)" by (cases "map_tick r s")
  have s1: "s1 = exec (Round r) s" using t by simp
  let ?s2 = "fold exec a s1"
  obtain out2 r2 s2 where m: "map_monitor_thread es r1 (fold exec b ?s2) = (out2, r2, s2)"
    by (cases "map_monitor_thread es r1 (fold exec b ?s2)")
  have ok: "state_ok ?s2" "state_ok (fold exec b ?s2)"
    using fleet.execs_keep [OF fleet.execs_keep [OF fleet.exec_keeps [OF Cons.prems(1), of "Round r"]]]
      fleet.execs_keep [OF fleet.exec_keeps [OF Cons.prems(1), of "Round r"]] s1 by simp_all
  from Cons.IH [OF ok(2) m] obtain ss where ss: "out2 = concat (map (frame_text init_map_obstacles) ss)" "length ss = length es"
    "list_all state_ok ss" "made_from (fold exec b ?s2) s2" by blast
  have res: "out = frame_text init_map_obstacles ?s2 @ out2" "s' = s2"
    using Cons.prems(2) t m by (simp_all add: e)
  obtain cs where "s2 = fold exec cs (fold exec b ?s2)" "state_ok s2" using ss(4) by (auto simp: made_from_def)
  then have "made_from s s'" unfolding made_from_def res(2)
    by (intro conjI exI [of _ "Round r # a @ b @ cs"]) (simp_all add: s1)
  with ss ok(1) res(1) show ?case by (intro exI [of _ "?s2 # ss"]) simp
qed

text \<open>
  Every frame of the map thread shows a consistent state of the fleet, one frame per round, whatever sections the
  other processes execute in between; and what the thread leaves is again the work of whole sections.
\<close>

theorem map_thread_frames:
  assumes "state_ok s" "map_monitor_thread es r s = (out, r', s')"
  shows "\<exists>ss. out = concat (map (frame_text init_map_obstacles) ss) \<and> length ss = length es \<and> list_all state_ok ss
    \<and> (\<exists>cs. s' = fold exec cs s)"
  using thread_frames [OF assms] by (auto simp: made_from_def)

end
