(* ===== verification/Mutex_Steps.thy ===== *)
theory Mutex_Steps
  imports Counter_Widths
begin

text \<open>
  The critical sections as the code executes them: one memory write after the other, between
  \<open>pthread_mutex_lock\<close> and \<open>pthread_mutex_unlock\<close> (resource_service.c, ride_service.c, coordinator.c,
  map_monitor.c). A section is a program counter and a few registers over the shared memory. Running
  it to its end has the effect of the one step \<open>exec\<close> that the rest of the development uses.
\<close>

section \<open>Program counters and registers\<close>

datatype pc =
    L_check | L_count | L_seen | L_reset | L_test
  | R_pick | R_available | R_rides | R_fuel | R_target | R_lat | R_lon | R_handled | R_success | R_dist | R_revenue
  | J_room | J_count | J_id | J_available | J_fuel
  | M_loop | M_respawn | M_arrive | M_burn | M_empty | M_pump | M_failsafe | M_move | M_check | M_next | M_write
  | Unlock

text \<open>The writes of the map thread to a driver, and the registers of all sections.\<close>

datatype driver_write =
  Set_lat double | Set_lon double | Set_target bool | Set_available bool | Set_refueling bool | Set_fuel int

fun store :: "driver_write \<Rightarrow> Driver \<Rightarrow> Driver" where
  "store (Set_lat v) d = d\<lparr>d_lat := v\<rparr>"
| "store (Set_lon v) d = d\<lparr>d_lon := v\<rparr>"
| "store (Set_target v) d = d\<lparr>has_target := v\<rparr>"
| "store (Set_available v) d = d\<lparr>is_available := v\<rparr>"
| "store (Set_refueling v) d = d\<lparr>is_refueling := v\<rparr>"
| "store (Set_fuel v) d = d\<lparr>fuel := v\<rparr>"

record Regs =
  best_driver :: int
  away :: double
  idx :: nat
  grid_x :: int
  grid_y :: int
  is_spam :: bool
  old_lat :: double
  old_lon :: double
  to_write :: "driver_write list"
  after_writes :: pc
  draws :: rng

type_synonym config = "pc \<times> Regs \<times> SharedState"

section \<open>One memory access at a time\<close>

definition limit_micro :: "int \<Rightarrow> int \<Rightarrow> config \<Rightarrow> config" where
  "limit_micro client_id now cf =
     (case cf of (pc, g, s) \<Rightarrow> let i = nat client_id in
        (case pc of
           L_check \<Rightarrow> (if client_last_seen s ! i = now then L_count else L_seen, g, s)
         | L_count \<Rightarrow> (L_test, g, s\<lparr>client_req_count := (client_req_count s)[i := client_req_count s ! i + 1]\<rparr>)
         | L_seen \<Rightarrow> (L_reset, g, s\<lparr>client_last_seen := (client_last_seen s)[i := now]\<rparr>)
         | L_reset \<Rightarrow> (L_test, g, s\<lparr>client_req_count := (client_req_count s)[i := 1]\<rparr>)
         | L_test \<Rightarrow> (Unlock, g\<lparr>is_spam := 3 < client_req_count s ! i\<rparr>, s)
         | _ \<Rightarrow> cf))"

definition serve_micro :: "int \<Rightarrow> config \<Rightarrow> config" where
  "serve_micro client_id cf =
     (case cf of (pc, g, s) \<Rightarrow>
        let is_vip = is_vip_client client_id; i = nat (best_driver g) in
        (case pc of
           R_pick \<Rightarrow> let b = pick_driver s is_vip in (if b \<noteq> - 1 then R_available else Unlock, g\<lparr>best_driver := b\<rparr>, s)
         | R_available \<Rightarrow> (R_rides, g, update_driver i (\<lambda>d. d\<lparr>is_available := False\<rparr>) s)
         | R_rides \<Rightarrow> (R_fuel, g, update_driver i (\<lambda>d. d\<lparr>rides_count := rides_count d + 1\<rparr>) s)
         | R_fuel \<Rightarrow> (R_target, g, update_driver i (\<lambda>d. d\<lparr>fuel := fuel d - 1\<rparr>) s)
         | R_target \<Rightarrow> (R_lat, g, update_driver i (\<lambda>d. d\<lparr>has_target := True\<rparr>) s)
         | R_lat \<Rightarrow> let (v, r) = rand_mod 90 (draws g)
             in (R_lon, g\<lparr>draws := r\<rparr>, update_driver i (\<lambda>d. d\<lparr>target_lat := target_coord BASE_LAT v\<rparr>) s)
         | R_lon \<Rightarrow> let (v, r) = rand_mod 180 (draws g)
             in (R_handled, g\<lparr>draws := r\<rparr>, update_driver i (\<lambda>d. d\<lparr>target_lon := target_coord BASE_LON v\<rparr>) s)
         | R_handled \<Rightarrow> (R_success, g, s\<lparr>total_requests_handled := total_requests_handled s + 1\<rparr>)
         | R_success \<Rightarrow> (R_dist, g, s\<lparr>total_success_requests := total_success_requests s + 1\<rparr>)
         | R_dist \<Rightarrow> (R_revenue, g\<lparr>away := base_distance (drivers s ! i)\<rparr>, s)
         | R_revenue \<Rightarrow> (Unlock, g, s\<lparr>total_revenue := total_revenue s + d_trunc (ride_fare is_vip)\<rparr>)
         | _ \<Rightarrow> cf))"

definition join_micro :: "u32 \<Rightarrow> config \<Rightarrow> config" where
  "join_micro w cf =
     (case cf of (pc, g, s) \<Rightarrow>
        (case pc of
           J_room \<Rightarrow> (if driver_count s < int MAX_DRIVERS then J_count else Unlock, g, s)
         | J_count \<Rightarrow> (J_id, g\<lparr>idx := nat (driver_count s)\<rparr>, s\<lparr>driver_count := driver_count s + 1\<rparr>)
         | J_id \<Rightarrow> (J_available, g, update_driver (idx g) (\<lambda>d. d\<lparr>driver_id := w\<rparr>) s)
         | J_available \<Rightarrow> (J_fuel, g, update_driver (idx g) (\<lambda>d. d\<lparr>is_available := True\<rparr>) s)
         | J_fuel \<Rightarrow> (Unlock, g, update_driver (idx g) (\<lambda>d. d\<lparr>fuel := 10\<rparr>) s)
         | _ \<Rightarrow> cf))"

text \<open>
  The loop body of the map thread: a branch is decided, and then its assignments are executed one after the
  other before the next stage begins.
\<close>

definition perform :: "pc \<Rightarrow> driver_write list \<Rightarrow> Regs \<Rightarrow> SharedState \<Rightarrow> config" where
  "perform next ws g s = (if ws = [] then (next, g, s) else (M_write, g\<lparr>to_write := ws, after_writes := next\<rparr>, s))"

definition round_micro :: "config \<Rightarrow> config" where
  "round_micro cf =
     (case cf of (pc, g, s) \<Rightarrow> let i = idx g; d = drivers s ! i; m = init_map_obstacles in
        (case pc of
           M_loop \<Rightarrow> if int i < driver_count s then (M_respawn, g\<lparr>grid_y := cell_y d, grid_x := cell_x d\<rparr>, s) else (Unlock, g, s)
         | M_respawn \<Rightarrow> perform M_arrive
             (if is_obstacle m (grid_x g) (grid_y g) \<noteq> 0 \<or> grid_x g < 0 \<or> MAP_WIDTH \<le> grid_x g \<or> grid_y g < 0 \<or> MAP_HEIGHT \<le> grid_y g
              then [Set_lat BASE_LAT, Set_lon BASE_LON, Set_target False, Set_available True, Set_refueling False] else []) g s
         | M_arrive \<Rightarrow>
             if has_target d then
               let (arrived, r) = arrived_at d (draws g)
               in perform M_burn
                    (if arrived then [Set_target False, Set_available True, Set_refueling False, Set_lat (target_lat d), Set_lon (target_lon d)] else [])
                    (g\<lparr>draws := r\<rparr>) s
             else (M_empty, g, s)
         | M_burn \<Rightarrow>
             if 0 < fuel d then
               let (v, r) = rand_mod 100 (draws g)
               in perform M_empty (if v < 10 then [Set_fuel (fuel d - 1)] else []) (g\<lparr>draws := r\<rparr>) s
             else (M_empty, g, s)
         | M_empty \<Rightarrow> perform M_pump
             (if is_available d \<and> fuel d \<le> 0 \<and> \<not> is_refueling d
              then [Set_refueling True, Set_available False, Set_target False] else []) g s
         | M_pump \<Rightarrow> perform M_failsafe
             (if is_refueling d then if fuel d < 10 then [Set_fuel (fuel d + 2)] else [Set_refueling False, Set_available True]
              else []) g s
         | M_failsafe \<Rightarrow> perform M_move
             (if \<not> is_available d \<and> \<not> is_refueling d \<and> \<not> has_target d then [Set_available True] else []) g s
         | M_move \<Rightarrow>
             if has_target d \<and> \<not> is_refueling d then
               let step = get_next_step_astar m (d_lat d) (d_lon d) (target_lat d) (target_lon d)
               in perform M_next
                    (if p_x step = grid_x g \<and> p_y step = grid_y g then [Set_target False, Set_available True]
                     else [Set_lat (cell_coord BASE_LAT (p_y step)), Set_lon (cell_coord BASE_LON (p_x step))]) g s
             else if is_available d \<or> is_refueling d then
               let (a, r) = rand_mod 3 (draws g); (b, r) = rand_mod 3 r
               in perform M_check [Set_lat (wander_coord (d_lat d) a), Set_lon (wander_coord (d_lon d) b)]
                    (g\<lparr>old_lat := d_lat d, old_lon := d_lon d, draws := r\<rparr>) s
             else (M_next, g, s)
         | M_check \<Rightarrow> perform M_next
             (if is_obstacle m (cell_x d) (cell_y d) \<noteq> 0 then [Set_lat (old_lat g), Set_lon (old_lon g)] else []) g s
         | M_next \<Rightarrow> (M_loop, g\<lparr>idx := i + 1\<rparr>, s)
         | M_write \<Rightarrow>
             (case to_write g of
                [] \<Rightarrow> (after_writes g, g, s)
              | w # ws \<Rightarrow> (if ws = [] then after_writes g else M_write, g\<lparr>to_write := ws\<rparr>, update_driver i (store w) s))
         | _ \<Rightarrow> cf))"

fun micro :: "critical \<Rightarrow> config \<Rightarrow> config" where
  "micro (Limit c now) = limit_micro c now"
| "micro (Serve c r) = serve_micro c"
| "micro (Join w) = join_micro w"
| "micro (Round r) = round_micro"

fun entry :: "critical \<Rightarrow> pc" where
  "entry (Limit c now) = L_check"
| "entry (Serve c r) = R_pick"
| "entry (Join w) = J_room"
| "entry (Round r) = M_loop"

definition no_draws :: rng where "no_draws = sconst 0"

fun start_regs :: "critical \<Rightarrow> Regs" where
  "start_regs c = \<lparr>best_driver = - 1, away = 0, idx = 0, grid_x = 0, grid_y = 0, is_spam = False,
     old_lat = 0, old_lon = 0, to_write = [], after_writes = Unlock, draws = (case c of Serve _ r \<Rightarrow> r | Round r \<Rightarrow> r | _ \<Rightarrow> no_draws)\<rparr>"

text \<open>A client id outside the table returns before the lock is taken.\<close>

fun locks :: "critical \<Rightarrow> bool" where
  "locks (Limit c now) \<longleftrightarrow> 0 < c \<and> c < int MAX_CLIENTS"
| "locks _ \<longleftrightarrow> True"

text \<open>What the code carries out of the section, in registers, and what the one-step model returns.\<close>

datatype reply = Verdict bool | Chosen int double rng | NoDriver | Drawn rng | Nothing

fun answer :: "critical \<Rightarrow> Regs \<Rightarrow> reply" where
  "answer (Limit c now) g = Verdict (is_spam g)"
| "answer (Serve c r) g = (if best_driver g \<noteq> - 1 then Chosen (best_driver g) (away g) (draws g) else NoDriver)"
| "answer (Join w) g = Nothing"
| "answer (Round r) g = Drawn (draws g)"

fun result :: "critical \<Rightarrow> SharedState \<Rightarrow> reply" where
  "result (Limit c now) s = Verdict (fst (check_and_update_rate_limit c now s))"
| "result (Serve c r) s =
     (let b = pick_driver s (is_vip_client c)
      in if b \<noteq> - 1 then Chosen b (base_distance (drivers s ! nat b)) (fst (snd (snd (handle_ride_request_logic c 256 r s)))) else NoDriver)"
| "result (Join w) s = Nothing"
| "result (Round r) s = Drawn (fst (map_tick r s))"

section \<open>Running a section to its end\<close>

lemma micro_unlock [simp]: "micro c (Unlock, g, s) = (Unlock, g, s)"
  by (cases c) (simp_all add: limit_micro_def serve_micro_def join_micro_def round_micro_def Let_def)

lemma micros_unlock [simp]: "(micro c ^^ n) (Unlock, g, s) = (Unlock, g, s)"
  by (induction n) simp_all

lemma update_twice: "update_driver i f (update_driver i h s) = update_driver i (f \<circ> h) s"
  by (cases "i < length (drivers s)") (simp_all add: update_driver_def list_update_beyond)

text \<open>Executing from the front: the first step is computed before the rest.\<close>

lemma run_front: "(f ^^ Suc n) x = (f ^^ n) (f x)" by (simp add: funpow_swap1)

lemma run_numeral: "(f ^^ numeral k) x = (f ^^ pred_numeral k) (f x)" by (simp add: numeral_eq_Suc run_front del: funpow.simps)

lemma limit_steps:
  "limit_micro c now (L_check, g, s) = (if client_last_seen s ! nat c = now then L_count else L_seen, g, s)"
  "limit_micro c now (L_count, g, s) = (L_test, g, s\<lparr>client_req_count := (client_req_count s)[nat c := client_req_count s ! nat c + 1]\<rparr>)"
  "limit_micro c now (L_seen, g, s) = (L_reset, g, s\<lparr>client_last_seen := (client_last_seen s)[nat c := now]\<rparr>)"
  "limit_micro c now (L_reset, g, s) = (L_test, g, s\<lparr>client_req_count := (client_req_count s)[nat c := 1]\<rparr>)"
  "limit_micro c now (L_test, g, s) = (Unlock, g\<lparr>is_spam := 3 < client_req_count s ! nat c\<rparr>, s)"
  by (simp_all add: limit_micro_def Let_def)

lemma join_steps:
  "join_micro w (J_room, g, s) = (if driver_count s < int MAX_DRIVERS then J_count else Unlock, g, s)"
  "join_micro w (J_count, g, s) = (J_id, g\<lparr>idx := nat (driver_count s)\<rparr>, s\<lparr>driver_count := driver_count s + 1\<rparr>)"
  "join_micro w (J_id, g, s) = (J_available, g, update_driver (idx g) (\<lambda>d. d\<lparr>driver_id := w\<rparr>) s)"
  "join_micro w (J_available, g, s) = (J_fuel, g, update_driver (idx g) (\<lambda>d. d\<lparr>is_available := True\<rparr>) s)"
  "join_micro w (J_fuel, g, s) = (Unlock, g, update_driver (idx g) (\<lambda>d. d\<lparr>fuel := 10\<rparr>) s)"
  by (simp_all add: join_micro_def)

lemma limit_run:
  assumes "locks (Limit c now)"
  shows "\<exists>n \<le> 4. \<exists>g. (micro (Limit c now) ^^ n) (L_check, start_regs (Limit c now), s) = (Unlock, g, exec (Limit c now) s)
    \<and> answer (Limit c now) g = result (Limit c now) s"
proof (cases "client_last_seen s ! nat c = now")
  case True
  show ?thesis
    by (rule exI [of _ "3::nat"])
      (use True assms in \<open>simp add: limit_steps run_numeral check_and_update_rate_limit_def Let_def\<close>)
next
  case False
  show ?thesis
    by (rule exI [of _ "4::nat"])
      (use False assms in \<open>simp add: limit_steps run_numeral check_and_update_rate_limit_def Let_def\<close>)
qed

lemma join_run:
  "\<exists>n \<le> 5. \<exists>g. (micro (Join w) ^^ n) (J_room, start_regs (Join w), s) = (Unlock, g, exec (Join w) s)
    \<and> answer (Join w) g = result (Join w) s"
proof (cases "driver_count s < int MAX_DRIVERS")
  case True
  show ?thesis
    by (rule exI [of _ "5::nat"])
      (use True in \<open>simp add: join_steps run_numeral join_driver_def Let_def update_twice comp_def\<close>)
next
  case False
  show ?thesis
    by (rule exI [of _ "1::nat"]) (use False in \<open>simp add: join_steps join_driver_def\<close>)
qed

lemma serve_steps:
  "serve_micro c (R_pick, g, s) =
     (if pick_driver s (is_vip_client c) \<noteq> - 1 then R_available else Unlock, g\<lparr>best_driver := pick_driver s (is_vip_client c)\<rparr>, s)"
  "serve_micro c (R_available, g, s) = (R_rides, g, update_driver (nat (best_driver g)) (\<lambda>d. d\<lparr>is_available := False\<rparr>) s)"
  "serve_micro c (R_rides, g, s) = (R_fuel, g, update_driver (nat (best_driver g)) (\<lambda>d. d\<lparr>rides_count := rides_count d + 1\<rparr>) s)"
  "serve_micro c (R_fuel, g, s) = (R_target, g, update_driver (nat (best_driver g)) (\<lambda>d. d\<lparr>fuel := fuel d - 1\<rparr>) s)"
  "serve_micro c (R_target, g, s) = (R_lat, g, update_driver (nat (best_driver g)) (\<lambda>d. d\<lparr>has_target := True\<rparr>) s)"
  "serve_micro c (R_lat, g, s) = (R_lon, g\<lparr>draws := snd (rand_mod 90 (draws g))\<rparr>,
     update_driver (nat (best_driver g)) (\<lambda>d. d\<lparr>target_lat := target_coord BASE_LAT (fst (rand_mod 90 (draws g)))\<rparr>) s)"
  "serve_micro c (R_lon, g, s) = (R_handled, g\<lparr>draws := snd (rand_mod 180 (draws g))\<rparr>,
     update_driver (nat (best_driver g)) (\<lambda>d. d\<lparr>target_lon := target_coord BASE_LON (fst (rand_mod 180 (draws g)))\<rparr>) s)"
  "serve_micro c (R_handled, g, s) = (R_success, g, s\<lparr>total_requests_handled := total_requests_handled s + 1\<rparr>)"
  "serve_micro c (R_success, g, s) = (R_dist, g, s\<lparr>total_success_requests := total_success_requests s + 1\<rparr>)"
  "serve_micro c (R_dist, g, s) = (R_revenue, g\<lparr>away := base_distance (drivers s ! nat (best_driver g))\<rparr>, s)"
  "serve_micro c (R_revenue, g, s) = (Unlock, g, s\<lparr>total_revenue := total_revenue s + d_trunc (ride_fare (is_vip_client c))\<rparr>)"
  by (simp_all add: serve_micro_def Let_def split_beta)

lemma serve_run:
  assumes "wf_state s"
  shows "\<exists>n \<le> 11. \<exists>g. (micro (Serve c r) ^^ n) (R_pick, start_regs (Serve c r), s) = (Unlock, g, exec (Serve c r) s)
    \<and> answer (Serve c r) g = result (Serve c r) s"
proof (cases "pick_driver s (is_vip_client c) = - 1")
  case True
  show ?thesis
    by (rule exI [of _ "1::nat"]) (use True in \<open>simp add: serve_steps handle_ride_request_logic_def\<close>)
next
  case False
  let ?i = "nat (pick_driver s (is_vip_client c))"
  have i: "?i < length (drivers s)" using ride.index(2) [OF False assms] .
  have same: "base_distance (dispatch_driver a b d) = base_distance d" for a b d
    by (simp add: base_distance_def dispatch_driver_def)
  have fields: "(\<lambda>d. d\<lparr>is_available := False, rides_count := rides_count d + 1, fuel := fuel d - 1, has_target := True,
      target_lat := target_coord BASE_LAT a, target_lon := target_coord BASE_LON b\<rparr>) = dispatch_driver a b" for a b
    by (simp add: fun_eq_iff dispatch_driver_def)
  have at: "drivers (update_driver ?i f s) ! ?i = f (drivers s ! ?i)" for f using i by (simp add: update_driver_def)
  let ?r1 = "rand_mod 90 r" let ?r2 = "rand_mod 180 (snd ?r1)"
  let ?s1 = "update_driver ?i (dispatch_driver (fst ?r1) (fst ?r2)) s"
  have e: "exec (Serve c r) s = count_ride (d_trunc (ride_fare (is_vip_client c))) ?s1"
    "fst (snd (snd (handle_ride_request_logic c 256 r s))) = snd ?r2"
    using False by (simp_all add: handle_ride_request_logic_def Let_def split_beta)
  show ?thesis
    by (rule exI [of _ "11::nat"])
      (use False in \<open>simp add: serve_steps run_numeral update_twice comp_def fields at same e count_ride_def Let_def del: exec.simps\<close>)
qed

lemma round_steps:
  fixes g s defines "d \<equiv> drivers s ! idx g" and "m \<equiv> init_map_obstacles"
  shows "round_micro (M_loop, g, s) = (if int (idx g) < driver_count s
     then (M_respawn, g\<lparr>grid_y := cell_y d, grid_x := cell_x d\<rparr>, s) else (Unlock, g, s))"
  "round_micro (M_respawn, g, s) = perform M_arrive
     (if is_obstacle m (grid_x g) (grid_y g) \<noteq> 0 \<or> grid_x g < 0 \<or> MAP_WIDTH \<le> grid_x g \<or> grid_y g < 0 \<or> MAP_HEIGHT \<le> grid_y g
      then [Set_lat BASE_LAT, Set_lon BASE_LON, Set_target False, Set_available True, Set_refueling False] else []) g s"
  "round_micro (M_arrive, g, s) = (if has_target d then perform M_burn
     (if fst (arrived_at d (draws g))
      then [Set_target False, Set_available True, Set_refueling False, Set_lat (target_lat d), Set_lon (target_lon d)] else [])
     (g\<lparr>draws := snd (arrived_at d (draws g))\<rparr>) s else (M_empty, g, s))"
  "round_micro (M_burn, g, s) = (if 0 < fuel d then perform M_empty
     (if fst (rand_mod 100 (draws g)) < 10 then [Set_fuel (fuel d - 1)] else [])
     (g\<lparr>draws := snd (rand_mod 100 (draws g))\<rparr>) s else (M_empty, g, s))"
  "round_micro (M_empty, g, s) = perform M_pump (if is_available d \<and> fuel d \<le> 0 \<and> \<not> is_refueling d
      then [Set_refueling True, Set_available False, Set_target False] else []) g s"
  "round_micro (M_pump, g, s) = perform M_failsafe (if is_refueling d
      then if fuel d < 10 then [Set_fuel (fuel d + 2)] else [Set_refueling False, Set_available True] else []) g s"
  "round_micro (M_failsafe, g, s) = perform M_move
      (if \<not> is_available d \<and> \<not> is_refueling d \<and> \<not> has_target d then [Set_available True] else []) g s"
  "round_micro (M_check, g, s) = perform M_next
      (if is_obstacle m (cell_x d) (cell_y d) \<noteq> 0 then [Set_lat (old_lat g), Set_lon (old_lon g)] else []) g s"
  "round_micro (M_next, g, s) = (M_loop, g\<lparr>idx := idx g + 1\<rparr>, s)"
  by (simp_all add: round_micro_def d_def m_def Let_def split_beta)

lemma move_step:
  fixes g s defines "d \<equiv> drivers s ! idx g" and "m \<equiv> init_map_obstacles" and "q \<equiv> rand_mod 3 (draws g)"
  shows "round_micro (M_move, g, s) =
    (if has_target d \<and> \<not> is_refueling d then
       let step = get_next_step_astar m (d_lat d) (d_lon d) (target_lat d) (target_lon d)
       in perform M_next
            (if p_x step = grid_x g \<and> p_y step = grid_y g then [Set_target False, Set_available True]
             else [Set_lat (cell_coord BASE_LAT (p_y step)), Set_lon (cell_coord BASE_LON (p_x step))]) g s
     else if is_available d \<or> is_refueling d then
       perform M_check [Set_lat (wander_coord (d_lat d) (fst q)), Set_lon (wander_coord (d_lon d) (fst (rand_mod 3 (snd q))))]
         (g\<lparr>old_lat := d_lat d, old_lon := d_lon d, draws := snd (rand_mod 3 (snd q))\<rparr>) s
     else (M_next, g, s))"
  by (simp add: round_micro_def d_def m_def q_def Let_def split_beta)

text \<open>How many steps lead from one configuration to another.\<close>

definition runs :: "nat \<Rightarrow> config \<Rightarrow> config \<Rightarrow> bool" where
  "runs n x y \<longleftrightarrow> (\<exists>k \<le> n. (round_micro ^^ k) x = y)"

lemma runs_trans: "runs n x y \<Longrightarrow> runs n' y z \<Longrightarrow> runs (n + n') x z"
proof -
  assume "runs n x y" "runs n' y z"
  then obtain k k' where k: "k \<le> n" "(round_micro ^^ k) x = y" "k' \<le> n'" "(round_micro ^^ k') y = z" by (auto simp: runs_def)
  have "(round_micro ^^ (k' + k)) x = z" unfolding funpow_add using k by simp
  then show ?thesis using k(1,3) by (auto simp: runs_def intro!: exI [of _ "k' + k"])
qed

lemma runs_step: "runs n (round_micro x) y \<Longrightarrow> runs (Suc n) x y"
proof -
  assume "runs n (round_micro x) y"
  then obtain k where "k \<le> n" "(round_micro ^^ k) (round_micro x) = y" by (auto simp: runs_def)
  then have "Suc k \<le> Suc n" "(round_micro ^^ Suc k) x = y" by (simp_all only: run_front Suc_le_mono)
  then show ?thesis unfolding runs_def by blast
qed

lemma runs_refl: "runs n x x"
  by (auto simp: runs_def intro!: exI [of _ 0])

text \<open>The state with driver \<open>i\<close> as it is during its pass, and registers that differ in the pending writes only.\<close>

definition during :: "nat \<Rightarrow> SharedState \<Rightarrow> Driver \<Rightarrow> SharedState" where
  "during i s d = update_driver i (\<lambda>_. d) s"

lemma during_simps [simp]:
  "update_driver i f (during i s d) = during i s (if i < length (drivers s) then f d else d)"
  "i < length (drivers s) \<Longrightarrow> drivers (during i s d) ! i = d"
  "driver_count (during i s d) = driver_count s"
  by (auto simp: during_def update_driver_def list_update_beyond)

definition kept :: "Regs \<Rightarrow> Regs \<Rightarrow> bool" where
  "kept g g' \<longleftrightarrow> (\<exists>ws next. g' = g\<lparr>to_write := ws, after_writes := next\<rparr>)"

lemma keptD: "kept g g' \<Longrightarrow> idx g' = idx g \<and> draws g' = draws g \<and> grid_x g' = grid_x g \<and> grid_y g' = grid_y g
    \<and> old_lat g' = old_lat g \<and> old_lon g' = old_lon g"
  by (auto simp: kept_def)

lemma kept_refl: "kept g (g\<lparr>draws := draws g\<rparr>)" "kept (g\<lparr>draws := draws g\<rparr>) g" "kept g g"
  unfolding kept_def by (rule exI [of _ "to_write g"], rule exI [of _ "after_writes g"], simp)+

lemma kept_draws:
  assumes "kept (g\<lparr>draws := r\<rparr>) g1" "kept (g1\<lparr>draws := r'\<rparr>) g2"
  shows "kept (g\<lparr>draws := r'\<rparr>) g2"
proof -
  obtain ws pc ws' pc' where "g1 = g\<lparr>draws := r, to_write := ws, after_writes := pc\<rparr>"
    "g2 = g1\<lparr>draws := r', to_write := ws', after_writes := pc'\<rparr>" using assms by (auto simp: kept_def)
  then have "g2 = g\<lparr>draws := r'\<rparr>\<lparr>to_write := ws', after_writes := pc'\<rparr>" by simp
  then show ?thesis unfolding kept_def by blast
qed

lemma write_run:
  assumes "i < length (drivers s)"
  shows "idx g = i \<Longrightarrow> to_write g = w # ws \<Longrightarrow>
    (round_micro ^^ Suc (length ws)) (M_write, g, during i s d) = (after_writes g, g\<lparr>to_write := []\<rparr>, during i s (fold store ws (store w d)))"
proof (induction ws arbitrary: w g d)
  case Nil
  then show ?case using assms by (simp add: round_micro_def Let_def)
next
  case (Cons w' ws)
  have "round_micro (M_write, g, during i s d) = (M_write, g\<lparr>to_write := w' # ws\<rparr>, during i s (store w d))"
    using Cons.prems assms by (simp add: round_micro_def Let_def)
  then show ?case using Cons.IH [of "g\<lparr>to_write := w' # ws\<rparr>" w' "store w d"] Cons.prems
    by (simp add: funpow_swap1)
qed

lemma perform_run:
  assumes "i < length (drivers s)" "idx g = i" "length ws \<le> n"
  shows "\<exists>g'. runs n (perform next ws g (during i s d)) (next, g', during i s (fold store ws d)) \<and> kept g g'"
proof (cases ws)
  case Nil
  then show ?thesis by (simp add: perform_def) (blast intro: runs_refl kept_refl)
next
  case (Cons w ws')
  let ?g = "g\<lparr>to_write := ws, after_writes := next\<rparr>"
  have "(round_micro ^^ Suc (length ws')) (M_write, ?g, during i s d) = (next, ?g\<lparr>to_write := []\<rparr>, during i s (fold store ws d))"
    using write_run [OF assms(1), of ?g w ws' d] Cons assms(2) by simp
  then have "runs n (perform next ws g (during i s d)) (next, ?g\<lparr>to_write := []\<rparr>, during i s (fold store ws d))"
    unfolding runs_def using Cons assms(3) by (intro exI [of _ "Suc (length ws')"]) (simp add: perform_def del: funpow.simps)
  moreover have "kept g (?g\<lparr>to_write := []\<rparr>)" unfolding kept_def by (rule exI [of _ "[]"], rule exI [of _ "next"]) simp
  ultimately show ?thesis by blast
qed

lemma stage:
  assumes "i < length (drivers s)" "idx g1 = i" "round_micro (pc, g, during i s d) = perform next ws g1 (during i s d)"
    and "length ws \<le> n" "fold store ws d = d'"
  shows "\<exists>g'. runs (Suc n) (pc, g, during i s d) (next, g', during i s d') \<and> kept g1 g'"
  using perform_run [OF assms(1,2,4), of "next" d] runs_step [of n "(pc, g, during i s d)"] unfolding assms(3,5) by blast

text \<open>The stages of one pass.\<close>

lemma stage_respawn:
  assumes "i < length (drivers s)" "idx g = i" "grid_x g = cell_x d" "grid_y g = cell_y d"
  shows "\<exists>g'. runs 6 (M_respawn, g, during i s d) (M_arrive, g', during i s (respawn init_map_obstacles d)) \<and> kept g g'"
  using stage [of i s g M_respawn g d M_arrive _ 5, OF assms(1,2) round_steps(2)] assms
  by (simp add: respawn_def Let_def)

lemma stage_burn:
  assumes i: "i < length (drivers s)" "idx g = i"
  shows "\<exists>g'. runs 2 (M_burn, g, during i s d) (M_empty, g', during i s (fst (use_fuel d (draws g))))
    \<and> kept (g\<lparr>draws := snd (use_fuel d (draws g))\<rparr>) g'"
proof (cases "0 < fuel d")
  case False
  have "runs 2 (M_burn, g, during i s d) (M_empty, g, during i s d)"
    using runs_step [of 1 "(M_burn, g, during i s d)"] False i by (simp add: round_steps runs_refl numeral_2_eq_2)
  then show ?thesis using False kept_refl by (auto simp: use_fuel_def)
next
  case True
  let ?v = "rand_mod 100 (draws g)"
  have st: "round_micro (M_burn, g, during i s d) =
      perform M_empty (if fst ?v < 10 then [Set_fuel (fuel d - 1)] else []) (g\<lparr>draws := snd ?v\<rparr>) (during i s d)"
    using True i by (simp add: round_steps)
  show ?thesis using stage [OF i(1) _ st, of 1 "fst (use_fuel d (draws g))"] True i(2)
    by (simp add: use_fuel_def split_beta Let_def numeral_2_eq_2)
qed

lemma stage_navigate:
  assumes i: "i < length (drivers s)" "idx g = i"
  shows "\<exists>g'. runs 8 (M_arrive, g, during i s d) (M_empty, g', during i s (fst (navigate d (draws g))))
    \<and> kept (g\<lparr>draws := snd (navigate d (draws g))\<rparr>) g'"
proof (cases "has_target d")
  case False
  have "runs (Suc 7) (M_arrive, g, during i s d) (M_empty, g, during i s d)"
    using runs_step [of 7 "(M_arrive, g, during i s d)"] False i by (simp add: round_steps runs_refl)
  then show ?thesis using False kept_refl by (auto simp: navigate_def)
next
  case True
  let ?a = "arrived_at d (draws g)"
  let ?ws = "if fst ?a then [Set_target False, Set_available True, Set_refueling False, Set_lat (target_lat d), Set_lon (target_lon d)] else []"
  let ?d = "if fst ?a then arrive_at_target d else d" and ?g = "g\<lparr>draws := snd ?a\<rparr>"
  have st: "round_micro (M_arrive, g, during i s d) = perform M_burn ?ws ?g (during i s d)" using True i by (simp add: round_steps)
  have len: "length ?ws \<le> 5" by simp
  obtain g1 where g1: "runs 6 (M_arrive, g, during i s d) (M_burn, g1, during i s ?d)" "kept ?g g1"
    using stage [OF i(1) _ st len, of ?d] i(2) by (auto simp: arrive_at_target_def)
  note k1 = keptD [OF g1(2)]
  have n: "navigate d (draws g) = use_fuel ?d (draws g1)" using True k1 by (simp add: navigate_def split_beta Let_def)
  obtain g2 where g2: "runs 2 (M_burn, g1, during i s ?d) (M_empty, g2, during i s (fst (navigate d (draws g))))"
    "kept (g1\<lparr>draws := snd (navigate d (draws g))\<rparr>) g2"
    using stage_burn [OF i(1), of g1 ?d] k1 i(2) unfolding n by auto
  have "kept (g\<lparr>draws := snd (navigate d (draws g))\<rparr>) g2" by (rule kept_draws [OF g1(2) g2(2)])
  with runs_trans [OF g1(1) g2(1)] show ?thesis by auto
qed

lemma stage_empty:
  assumes "i < length (drivers s)" "idx g = i"
  shows "\<exists>g'. runs 4 (M_empty, g, during i s d) (M_pump, g', during i s (run_empty d)) \<and> kept g g'"
  using stage [of i s g M_empty g d M_pump _ 3, OF assms round_steps(5)] assms by (simp add: run_empty_def)

lemma stage_pump:
  assumes "i < length (drivers s)" "idx g = i"
  shows "\<exists>g'. runs 3 (M_pump, g, during i s d) (M_failsafe, g', during i s (pump d)) \<and> kept g g'"
  using stage [of i s g M_pump g d M_failsafe _ 2, OF assms round_steps(6)] assms by (simp add: pump_def)

lemma stage_failsafe:
  assumes "i < length (drivers s)" "idx g = i"
  shows "\<exists>g'. runs 2 (M_failsafe, g, during i s d) (M_move, g', during i s (failsafe d)) \<and> kept g g'"
  using stage [of i s g M_failsafe g d M_move _ 1, OF assms round_steps(7)] assms by (simp add: failsafe_def numeral_2_eq_2)

lemma stage_move:
  fixes g d
  assumes i: "i < length (drivers s)" "idx g = i"
  defines "m \<equiv> move init_map_obstacles (grid_x g) (grid_y g) d (draws g)"
  shows "\<exists>g'. runs 6 (M_move, g, during i s d) (M_next, g', during i s (fst m)) \<and> idx g' = i \<and> draws g' = snd m"
proof -
  consider (drive) "has_target d \<and> \<not> is_refueling d"
    | (wander) "\<not> (has_target d \<and> \<not> is_refueling d)" "is_available d \<or> is_refueling d"
    | (stay) "\<not> (has_target d \<and> \<not> is_refueling d)" "\<not> (is_available d \<or> is_refueling d)" by blast
  then show ?thesis
  proof cases
    case drive
    let ?p = "get_next_step_astar init_map_obstacles (d_lat d) (d_lon d) (target_lat d) (target_lon d)"
    let ?ws = "if p_x ?p = grid_x g \<and> p_y ?p = grid_y g then [Set_target False, Set_available True]
       else [Set_lat (cell_coord BASE_LAT (p_y ?p)), Set_lon (cell_coord BASE_LON (p_x ?p))]"
    have st: "round_micro (M_move, g, during i s d) = perform M_next ?ws g (during i s d)" using drive i by (simp add: move_step Let_def)
    have "fold store ?ws d = fst m" "snd m = draws g" "length ?ws \<le> 5" using drive by (simp_all add: m_def move_def drive_def Let_def)
    with stage [OF i st this(3,1)] keptD i(2) show ?thesis by auto
  next
    case wander
    let ?q = "rand_mod 3 (draws g)" let ?q' = "rand_mod 3 (snd ?q)"
    let ?ws = "[Set_lat (wander_coord (d_lat d) (fst ?q)), Set_lon (wander_coord (d_lon d) (fst ?q'))]"
    let ?g = "g\<lparr>old_lat := d_lat d, old_lon := d_lon d, draws := snd ?q'\<rparr>" and ?d = "fold store ?ws d"
    have st: "round_micro (M_move, g, during i s d) = perform M_check ?ws ?g (during i s d)" using wander i by (auto simp: move_step Let_def)
    have "idx ?g = i" "length ?ws \<le> 2" using i(2) by simp_all
    from stage [OF i(1) this(1) st this(2) refl] obtain g1 where
      g1: "runs 3 (M_move, g, during i s d) (M_check, g1, during i s ?d)" "kept ?g g1" by auto
    have k1: "idx g1 = i" "draws g1 = snd ?q'" "old_lat g1 = d_lat d" "old_lon g1 = d_lon d" using keptD [OF g1(2)] i(2) by simp_all
    have m: "m = wander init_map_obstacles d (draws g)" using wander by (auto simp: m_def move_def)
    let ?vs = "if is_obstacle init_map_obstacles (cell_x ?d) (cell_y ?d) \<noteq> 0 then [Set_lat (old_lat g1), Set_lon (old_lon g1)] else []"
    have f: "fold store ?vs ?d = fst m" "snd m = snd ?q'" "length ?vs \<le> 2"
      by (simp_all add: m wander_def Let_def split_beta k1)
    have st2: "round_micro (M_check, g1, during i s ?d) = perform M_next ?vs g1 (during i s ?d)" using i k1 by (simp add: round_steps)
    from stage [OF i(1) k1(1) st2 f(3,1)] obtain g2 where
      g2: "runs 3 (M_check, g1, during i s ?d) (M_next, g2, during i s (fst m))" "kept g1 g2" by auto
    show ?thesis using runs_trans [OF g1(1) g2(1)] keptD [OF g2(2)] k1 f(2) by auto
  next
    case stay
    have "runs (Suc 5) (M_move, g, during i s d) (M_next, g, during i s d)"
      using runs_step [of 5 "(M_move, g, during i s d)"] stay i by (simp add: move_step runs_refl)
    moreover have "m = (d, draws g)" using stay by (simp add: m_def move_def)
    ultimately show ?thesis using i(2) by auto
  qed
qed

lemma round_driver:
  assumes "int (idx g) < driver_count s" "idx g < length (drivers s)"
  shows "\<exists>g'. runs 31 (M_loop, g, s)
      (M_loop, g', update_driver (idx g) (\<lambda>d. fst (tick_driver init_map_obstacles d (draws g))) s)
    \<and> idx g' = idx g + 1 \<and> draws g' = snd (tick_driver init_map_obstacles (drivers s ! idx g) (draws g))"
proof -
  let ?i = "idx g" let ?d = "drivers s ! ?i" and ?m = init_map_obstacles
  let ?g = "g\<lparr>grid_y := cell_y ?d, grid_x := cell_x ?d\<rparr>"
  have here: "during ?i s ?d = s" by (simp add: during_def update_driver_def)
  have r0: "runs 1 (M_loop, g, s) (M_respawn, ?g, during ?i s ?d)"
    using runs_step [of 0 "(M_loop, g, s)"] assms(1) by (simp add: round_steps runs_refl here)
  have i0: "idx ?g = ?i" "grid_x ?g = cell_x ?d" "grid_y ?g = cell_y ?d" "draws ?g = draws g" by simp_all
  obtain g1 where g1: "runs 6 (M_respawn, ?g, during ?i s ?d) (M_arrive, g1, during ?i s (respawn ?m ?d))" "kept ?g g1"
    using stage_respawn [OF assms(2) i0(1-3)] by blast
  note k1 = keptD [OF g1(2), unfolded i0]
  let ?n = "navigate (respawn ?m ?d) (draws g)"
  obtain g2 where g2: "runs 8 (M_arrive, g1, during ?i s (respawn ?m ?d)) (M_empty, g2, during ?i s (fst ?n))"
    "kept (g1\<lparr>draws := snd ?n\<rparr>) g2"
    using stage_navigate [OF assms(2), of g1 "respawn ?m ?d"] k1 by auto
  have k2: "idx g2 = ?i" "draws g2 = snd ?n" "grid_x g2 = cell_x ?d" "grid_y g2 = cell_y ?d" using keptD [OF g2(2)] k1 by simp_all
  obtain g3 where g3: "runs 4 (M_empty, g2, during ?i s (fst ?n)) (M_pump, g3, during ?i s (run_empty (fst ?n)))" "kept g2 g3"
    using stage_empty [OF assms(2) k2(1)] by blast
  note k3 = keptD [OF g3(2), unfolded k2]
  obtain g4 where g4: "runs 3 (M_pump, g3, during ?i s (run_empty (fst ?n))) (M_failsafe, g4, during ?i s (pump (run_empty (fst ?n))))" "kept g3 g4"
    using stage_pump [OF assms(2)] k3 by blast
  note k4 = keptD [OF g4(2)]
  let ?f = "failsafe (pump (run_empty (fst ?n)))"
  obtain g5 where g5: "runs 2 (M_failsafe, g4, during ?i s (pump (run_empty (fst ?n)))) (M_move, g5, during ?i s ?f)" "kept g4 g5"
    using stage_failsafe [OF assms(2)] k3 k4 by metis
  have k5: "idx g5 = ?i" "draws g5 = snd ?n" "grid_x g5 = cell_x ?d" "grid_y g5 = cell_y ?d" using keptD [OF g5(2)] k4 k3 by simp_all
  have t: "tick_driver ?m ?d (draws g) = move ?m (cell_x ?d) (cell_y ?d) ?f (snd ?n)" by (simp add: tick_driver_def Let_def split_beta)
  obtain g6 where g6: "runs 6 (M_move, g5, during ?i s ?f) (M_next, g6, during ?i s (fst (tick_driver ?m ?d (draws g))))"
    "idx g6 = ?i" "draws g6 = snd (tick_driver ?m ?d (draws g))"
    using stage_move [OF assms(2) k5(1), of ?f] unfolding k5 t by blast
  let ?e = "during ?i s (fst (tick_driver ?m ?d (draws g)))"
  have r7: "runs 1 (M_next, g6, ?e) (M_loop, g6\<lparr>idx := ?i + 1\<rparr>, ?e)"
    using runs_step [of 0 "(M_next, g6, ?e)"] g6(2) by (simp add: round_steps runs_refl)
  have "?e = update_driver ?i (\<lambda>d. fst (tick_driver ?m d (draws g))) s" by (simp add: during_def update_driver_def)
  then show ?thesis
    using runs_trans [OF r0 runs_trans [OF g1(1) runs_trans [OF g2(1) runs_trans [OF g3(1) runs_trans [OF g4(1) runs_trans [OF g5(1) runs_trans [OF g6(1) r7]]]]]]] g6(3)
    by (intro exI [of _ "g6\<lparr>idx := ?i + 1\<rparr>"]) simp
qed

lemma tick_list_snoc:
  "fst (tick_list m (ds @ [d]) r) = fst (tick_list m ds r) @ [fst (tick_driver m d (snd (tick_list m ds r)))]"
  "snd (tick_list m (ds @ [d]) r) = snd (tick_driver m d (snd (tick_list m ds r)))"
  by (induction ds arbitrary: r) (simp_all add: split_beta Let_def)

lemma round_prefix:
  fixes r s
  defines "ticked i \<equiv> tick_list init_map_obstacles (take i (active_drivers s)) r"
  assumes wf: "wf_state s" and i: "i \<le> length (active_drivers s)"
  shows "\<exists>g. runs (31 * i) (M_loop, start_regs (Round r), s)
      (M_loop, g, s\<lparr>drivers := fst (ticked i) @ drop i (drivers s)\<rparr>) \<and> idx g = i \<and> draws g = snd (ticked i)"
  using i
proof (induction i)
  case 0
  show ?case by (simp add: ticked_def runs_refl exI [of _ "start_regs (Round r)"])
next
  case (Suc i)
  let ?D = "drivers s" and ?s = "\<lambda>i. s\<lparr>drivers := fst (ticked i) @ drop i (drivers s)\<rparr>"
  obtain g where g: "runs (31 * i) (M_loop, start_regs (Round r), s) (M_loop, g, ?s i)"
    "idx g = i" "draws g = snd (ticked i)"
    using Suc by auto
  have len: "length (fst (ticked i)) = i" "i < length ?D" "int i < driver_count s"
    using Suc.prems by (auto simp: ticked_def active_drivers_def)
  have act: "take (Suc i) (active_drivers s) = take i (active_drivers s) @ [?D ! i]"
    using Suc.prems by (simp add: take_Suc_conv_app_nth active_drivers_nth)
  have cell: "drivers (?s i) ! i = ?D ! i" using len by (simp add: nth_append)
  have next_state: "update_driver i (\<lambda>d. fst (tick_driver init_map_obstacles d (snd (ticked i)))) (?s i) = ?s (Suc i)"
    unfolding update_driver_def cell using len
    by (simp add: ticked_def act tick_list_snoc list_update_append Cons_nth_drop_Suc [symmetric])
  from round_driver [of g "?s i"] len obtain g' where g': "runs 31 (M_loop, g, ?s i) (M_loop, g', ?s (Suc i))"
    "idx g' = Suc i" "draws g' = snd (ticked (Suc i))"
    unfolding g(2,3) cell next_state by (auto simp: ticked_def act tick_list_snoc)
  then show ?case using runs_trans [OF g(1) g'(1)] by (intro exI [of _ g']) (simp add: add.commute)
qed

lemma round_run:
  assumes "wf_state s"
  shows "\<exists>n \<le> 31 * MAX_DRIVERS + 1. \<exists>g. (micro (Round r) ^^ n) (M_loop, start_regs (Round r), s) = (Unlock, g, exec (Round r) s)
    \<and> answer (Round r) g = result (Round r) s"
proof -
  let ?n = "length (active_drivers s)"
  obtain g where g: "runs (31 * ?n) (M_loop, start_regs (Round r), s) (M_loop, g, exec (Round r) s)"
    "idx g = ?n" "draws g = snd (tick_list init_map_obstacles (active_drivers s) r)"
    using round_prefix [OF assms order_refl, of r] length_active_drivers [OF assms]
    by (auto simp: exec_round [OF assms] simp del: start_regs.simps exec.simps)
  have c: "driver_count (exec (Round r) s) = driver_count s" "\<not> int ?n < driver_count s"
    using length_active_drivers [OF assms] by (simp_all add: exec_round [OF assms] del: exec.simps)
  have "runs 1 (M_loop, g, exec (Round r) s) (Unlock, g, exec (Round r) s)"
    using runs_step [of 0 "(M_loop, g, exec (Round r) s)"] c g(2) by (simp add: round_steps runs_refl del: exec.simps)
  from runs_trans [OF g(1) this] obtain k where k: "k \<le> 31 * ?n + 1"
    "(round_micro ^^ k) (M_loop, start_regs (Round r), s) = (Unlock, g, exec (Round r) s)" by (auto simp: runs_def)
  moreover have "31 * ?n + 1 \<le> 31 * MAX_DRIVERS + 1" using assms by (auto simp: wf_state_def active_drivers_def)
  ultimately show ?thesis
    by (intro exI [of _ k]) (simp add: g(3) map_tick_def Let_def split_beta del: start_regs.simps exec.simps funpow.simps)
qed

lemma section_run:
  assumes "wf_state s" "locks c"
  obtains n g where "n \<le> 31 * MAX_DRIVERS + 1" "(micro c ^^ n) (entry c, start_regs c, s) = (Unlock, g, exec c s)" "answer c g = result c s"
proof -
  let ?done = "\<lambda>m. \<exists>n \<le> m. \<exists>g. (micro c ^^ n) (entry c, start_regs c, s) = (Unlock, g, exec c s) \<and> answer c g = result c s"
  have more: "?done m \<Longrightarrow> m \<le> 31 * MAX_DRIVERS + 1 \<Longrightarrow> ?done (31 * MAX_DRIVERS + 1)" for m by (meson le_trans)
  have "?done (31 * MAX_DRIVERS + 1)"
  proof (cases c)
    case (Limit k now)
    show ?thesis by (rule more [of 4]) (use limit_run [of k now s] assms(2) Limit in \<open>simp_all only: entry.simps\<close>, simp add: MAX_DRIVERS_def)
  next
    case (Serve k r)
    show ?thesis by (rule more [of 11]) (use serve_run [OF assms(1), of k r] Serve in \<open>simp_all only: entry.simps\<close>, simp add: MAX_DRIVERS_def)
  next
    case (Join w)
    show ?thesis by (rule more [of 5]) (use join_run [of w s] Join in \<open>simp_all only: entry.simps\<close>, simp add: MAX_DRIVERS_def)
  next
    case (Round r)
    show ?thesis using round_run [OF assms(1), of r] unfolding Round entry.simps .
  qed
  then show thesis using that by blast
qed

declare start_regs.simps [simp del]

text \<open>
  C5: every critical section of the code, executed one memory access after the other on a well-formed
  memory, ends after at most 7937 accesses, leaves the memory as its one-step model says, and carries the
  model's answer out in its registers. Steps past the end do nothing.
\<close>

theorem sections_implement_steps:
  assumes "wf_state s" "locks c" "7937 \<le> n"
  shows "\<exists>g. (micro c ^^ n) (entry c, start_regs c, s) = (Unlock, g, exec c s) \<and> answer c g = result c s"
proof -
  obtain k g where k: "k \<le> 31 * MAX_DRIVERS + 1" "(micro c ^^ k) (entry c, start_regs c, s) = (Unlock, g, exec c s)" "answer c g = result c s"
    by (rule section_run [OF assms(1,2)])
  then have "n = (n - k) + k" using assms(3) by (simp add: MAX_DRIVERS_def)
  then have "(micro c ^^ n) (entry c, start_regs c, s) = (micro c ^^ (n - k)) ((micro c ^^ k) (entry c, start_regs c, s))"
    by (metis comp_apply funpow_add)
  then show ?thesis using k by simp
qed

theorem sections_implement_steps_witness:
  "\<exists>g. (micro (Serve 5 (sconst 0)) ^^ 7937) (R_pick, start_regs (Serve 5 (sconst 0)), demo_state) =
      (Unlock, g, exec (Serve 5 (sconst 0)) demo_state)"
  using sections_implement_steps [OF state_okD(1) [OF demo_state_ok], of "Serve 5 (sconst 0)" 7937] by auto

end
