(* ===== verification/Mutex_Machine.thy ===== *)
theory Mutex_Machine
  imports Mutex_Steps
begin

text \<open>
  The processes of the server over the process-shared mutex (\<open>pthread_mutex_lock\<close> and
  \<open>pthread_mutex_unlock\<close> in resource_service.c, ride_service.c, coordinator.c and map_monitor.c, the
  mutex of server_main.c and \<open>ipc_init\<close>): the steps are the single memory accesses of \<open>Mutex_Steps\<close>, in any
  interleaving. Processes are killed at any point (\<open>handle_sigint\<close>), the mutex is not robust, and the
  save file is written without it (\<open>save_state\<close>).
\<close>

section \<open>Processes\<close>

datatype proc = Away | Waiting critical | Holding critical pc Regs | Dead

record Machine =
  mem :: SharedState
  owner :: "nat option"
  procs :: "proc list"
  done_sections :: "(nat \<times> critical \<times> reply) list"
  disk :: save_file

inductive machine_step :: "Machine \<Rightarrow> Machine \<Rightarrow> bool" where
  request: "machine_step m (m\<lparr>procs := (procs m)[p := Waiting c]\<rparr>)"
    if "p < length (procs m)" "procs m ! p = Away" "locks c"
| lock: "machine_step m (m\<lparr>owner := Some p, procs := (procs m)[p := Holding c (entry c) (start_regs c)]\<rparr>)"
    if "p < length (procs m)" "procs m ! p = Waiting c" "owner m = None"
| work: "machine_step m (m\<lparr>mem := s', procs := (procs m)[p := Holding c pc' g']\<rparr>)"
    if "p < length (procs m)" "procs m ! p = Holding c pc g" "pc \<noteq> Unlock" "micro c (pc, g, mem m) = (pc', g', s')"
| unlock: "machine_step m (m\<lparr>owner := None, procs := (procs m)[p := Away],
      done_sections := done_sections m @ [(p, c, answer c g)]\<rparr>)"
    if "p < length (procs m)" "procs m ! p = Holding c Unlock g"
| kill: "machine_step m (m\<lparr>procs := (procs m)[p := Dead]\<rparr>)" if "p < length (procs m)"
| save: "machine_step m (m\<lparr>disk := save_state wr (mem m) (disk m)\<rparr>)"

inductive machine_reach :: "Machine \<Rightarrow> Machine \<Rightarrow> bool" for m where
  start: "machine_reach m m"
| further: "machine_reach m m''" if "machine_reach m m'" "machine_step m' m''"

definition boot :: "nat \<Rightarrow> SharedState \<Rightarrow> save_file \<Rightarrow> Machine" where
  "boot n s f = \<lparr>mem = s, owner = None, procs = replicate n Away, done_sections = [], disk = f\<rparr>"

section \<open>The serial execution\<close>

fun serial :: "SharedState \<Rightarrow> (nat \<times> critical \<times> reply) list \<Rightarrow> bool" where
  "serial s [] \<longleftrightarrow> True"
| "serial s ((p, c, a) # h) \<longleftrightarrow> a = result c s \<and> serial (exec c s) h"

definition sections :: "(nat \<times> critical \<times> reply) list \<Rightarrow> critical list" where
  "sections h = map (fst \<circ> snd) h"

lemma sections_simps [simp]:
  "sections [] = []" "sections (x # h) = fst (snd x) # sections h" "sections (h @ h') = sections h @ sections h'"
  by (simp_all add: sections_def)

lemma serial_snoc: "serial s (h @ [(p, c, a)]) \<longleftrightarrow> serial s h \<and> a = result c (fold exec (sections h) s)"
proof (induction h arbitrary: s)
  case (Cons x h)
  obtain q d b where "x = (q, d, b)" by (cases x)
  then show ?case by (simp add: Cons.IH)
qed simp

section \<open>The invariant of the mutex\<close>

text \<open>
  The memory of the serial execution of the finished sections, and how far the section in progress has
  got from there. A holder that was killed leaves the lock taken for good.
\<close>

definition done_mem :: "SharedState \<Rightarrow> Machine \<Rightarrow> SharedState" where
  "done_mem s m = fold exec (sections (done_sections m)) s"

definition in_progress :: "SharedState \<Rightarrow> SharedState \<Rightarrow> proc \<Rightarrow> bool" where
  "in_progress a s x \<longleftrightarrow> (\<exists>c pc g k. x = Holding c pc g \<and> locks c \<and> (micro c ^^ k) (entry c, start_regs c, a) = (pc, g, s))"

fun is_holding :: "proc \<Rightarrow> bool" where
  "is_holding (Holding c pc g) = True"
| "is_holding _ = False"

fun wants_lock :: "proc \<Rightarrow> bool" where
  "wants_lock (Waiting c) = locks c"
| "wants_lock _ = True"

definition mutex_inv :: "SharedState \<Rightarrow> Machine \<Rightarrow> bool" where
  "mutex_inv s m \<longleftrightarrow> serial s (done_sections m) \<and> list_all wants_lock (procs m)
     \<and> (\<forall>q < length (procs m). is_holding (procs m ! q) \<longrightarrow> owner m = Some q)
     \<and> (case owner m of
          None \<Rightarrow> mem m = done_mem s m
        | Some p \<Rightarrow> p < length (procs m) \<and> (procs m ! p = Dead \<or> in_progress (done_mem s m) (mem m) (procs m ! p)))"

lemma mutex_invD:
  assumes "mutex_inv s m"
  shows "serial s (done_sections m)" "p < length (procs m) \<Longrightarrow> procs m ! p = Waiting c \<Longrightarrow> locks c"
    "p < length (procs m) \<Longrightarrow> procs m ! p = Holding c pc g \<Longrightarrow> owner m = Some p"
    "owner m = None \<Longrightarrow> mem m = done_mem s m"
    "owner m = Some p \<Longrightarrow> p < length (procs m) \<and> (procs m ! p = Dead \<or> in_progress (done_mem s m) (mem m) (procs m ! p))"
proof -
  note i = assms [unfolded mutex_inv_def list_all_length]
  show "serial s (done_sections m)" using i by simp
  show "locks c" if "p < length (procs m)" "procs m ! p = Waiting c" for p c using i that by (metis wants_lock.simps(1))
  show "owner m = Some p" if "p < length (procs m)" "procs m ! p = Holding c pc g" for p c pc g
    using i that by (metis is_holding.simps(1))
  show "mem m = done_mem s m" if "owner m = None" using i that by simp
  show "p < length (procs m) \<and> (procs m ! p = Dead \<or> in_progress (done_mem s m) (mem m) (procs m ! p))" if "owner m = Some p" for p
    using i that by simp
qed

lemma mutex_inv_holding: "mutex_inv s m \<Longrightarrow> q < length (procs m) \<Longrightarrow> is_holding (procs m ! q) \<Longrightarrow> owner m = Some q"
  by (simp add: mutex_inv_def)

lemma mutex_inv_wants: "mutex_inv s m \<Longrightarrow> list_all wants_lock (procs m)"
  by (simp add: mutex_inv_def)

lemma mutex_invI:
  assumes "serial s (done_sections m)" "list_all wants_lock (procs m)"
    and "\<And>q. q < length (procs m) \<Longrightarrow> is_holding (procs m ! q) \<Longrightarrow> owner m = Some q"
    and "owner m = None \<Longrightarrow> mem m = done_mem s m"
    and "\<And>p. owner m = Some p \<Longrightarrow> p < length (procs m) \<and> (procs m ! p = Dead \<or> in_progress (done_mem s m) (mem m) (procs m ! p))"
  shows "mutex_inv s m"
proof -
  have "case owner m of None \<Rightarrow> mem m = done_mem s m
      | Some p \<Rightarrow> p < length (procs m) \<and> (procs m ! p = Dead \<or> in_progress (done_mem s m) (mem m) (procs m ! p))"
    by (cases "owner m") (simp_all only: option.case assms(4,5))
  then show ?thesis unfolding mutex_inv_def using assms(1-3) by blast
qed

lemma in_progress_holding: "in_progress a s x \<Longrightarrow> is_holding x"
  by (auto simp: in_progress_def)

lemma holding_update: "is_holding (xs[p := x] ! q) \<Longrightarrow> q = p \<and> is_holding x \<or> is_holding (xs ! q)"
  by (cases "q = p"; cases "p < length xs") (simp_all add: list_update_beyond)

lemma in_progress_end:
  assumes "wf_state a" "in_progress a s (Holding c Unlock g)"
  shows "s = exec c a" "answer c g = result c a"
proof -
  obtain k where k: "locks c" "(micro c ^^ k) (entry c, start_regs c, a) = (Unlock, g, s)" using assms(2) by (auto simp: in_progress_def)
  obtain n g' where n: "(micro c ^^ n) (entry c, start_regs c, a) = (Unlock, g', exec c a)" "answer c g' = result c a"
    by (rule section_run [OF assms(1) k(1)])
  have "(micro c ^^ (n + k)) (entry c, start_regs c, a) = (Unlock, g, s)" unfolding funpow_add by (simp add: k(2))
  moreover have "(micro c ^^ (k + n)) (entry c, start_regs c, a) = (Unlock, g', exec c a)" unfolding funpow_add by (simp add: n(1))
  ultimately show "s = exec c a" "answer c g = result c a" using n(2) by (simp_all add: add.commute)
qed

lemma in_progress_work:
  assumes "in_progress a s (Holding c pc g)" "micro c (pc, g, s) = (pc', g', s')"
  shows "in_progress a s' (Holding c pc' g')"
proof -
  obtain k where k: "locks c" "(micro c ^^ k) (entry c, start_regs c, a) = (pc, g, s)" using assms(1) by (auto simp: in_progress_def)
  have "(micro c ^^ Suc k) (entry c, start_regs c, a) = (pc', g', s')" using k(2) assms(2) by (simp del: start_regs.simps)
  with k(1) show ?thesis unfolding in_progress_def by blast
qed

lemma mutex_inv_step:
  assumes "machine_step m m'" "mutex_inv s m" "state_ok s"
  shows "mutex_inv s m'"
  using assms(1,2)
proof (induction rule: machine_step.induct)
  case (request p m c)
  note inv = mutex_invD [OF request(4)] and hold = mutex_inv_holding [OF request(4)] and wants = list_all_update [OF mutex_inv_wants [OF request(4)]]
  show ?case
  proof (rule mutex_invI, goal_cases)
    case (3 q)
    then show ?case using hold [of q] holding_update [of "procs m" p "Waiting c" q] by auto
  next
    case (5 q)
    then have q: "owner m = Some q" by simp
    have "q \<noteq> p" using inv(5) [OF q] request(2) in_progress_holding by fastforce
    then show ?case using inv(5) [OF q] by (simp add: done_mem_def)
  qed (use inv(1,4) wants request(3) in \<open>simp_all add: done_mem_def\<close>)
next
  case (lock p m c)
  note inv = mutex_invD [OF lock(4)] and hold = mutex_inv_holding [OF lock(4)] and wants = list_all_update [OF mutex_inv_wants [OF lock(4)]]
  have "locks c" by (rule inv(2) [OF lock(1,2)])
  then have "in_progress (mem m) (mem m) (Holding c (entry c) (start_regs c))"
    unfolding in_progress_def by (intro exI [of _ c] exI [of _ "entry c"] exI [of _ "start_regs c"] exI [of _ 0]) simp
  then have prog: "in_progress (done_mem s m) (mem m) (Holding c (entry c) (start_regs c))" using inv(4) [OF lock(3)] by simp
  show ?case
  proof (rule mutex_invI, goal_cases)
    case (3 q)
    then show ?case using hold [of q] holding_update [of "procs m" p "Holding c (entry c) (start_regs c)" q] lock(3) by auto
  qed (use inv(1) wants prog lock(1) in \<open>simp_all add: done_mem_def\<close>)
next
  case (work p m c pc g pc' g' s')
  note inv = mutex_invD [OF work(5)] and hold = mutex_inv_holding [OF work(5)] and wants = list_all_update [OF mutex_inv_wants [OF work(5)]]
  have own: "owner m = Some p" by (rule inv(3) [OF work(1,2)])
  then have "in_progress (done_mem s m) (mem m) (Holding c pc g)" using inv(5) [OF own] work(2) by simp
  from in_progress_work [OF this work(4)] have prog: "in_progress (done_mem s m) s' (Holding c pc' g')" .
  show ?case
  proof (rule mutex_invI, goal_cases)
    case (3 q)
    then show ?case using hold [of q] holding_update [of "procs m" p "Holding c pc' g'" q] own by auto
  qed (use inv(1) wants prog work(1) own in \<open>simp_all add: done_mem_def\<close>)
next
  case (unlock p m c g)
  note inv = mutex_invD [OF unlock(3)] and hold = mutex_inv_holding [OF unlock(3)] and wants = list_all_update [OF mutex_inv_wants [OF unlock(3)]]
  have own: "owner m = Some p" by (rule inv(3) [OF unlock(1,2)])
  then have prog: "in_progress (done_mem s m) (mem m) (Holding c Unlock g)" using inv(5) [OF own] unlock(2) by simp
  have "wf_state (done_mem s m)" unfolding done_mem_def by (rule state_okD(1) [OF fleet.execs_keep [OF assms(3)]])
  note res = in_progress_end [OF this prog]
  show ?case
  proof (rule mutex_invI, goal_cases)
    case (3 q)
    then have "is_holding (procs m ! q)" "q \<noteq> p" using holding_update [of "procs m" p Away q] unlock(1) by (auto simp: nth_list_update split: if_splits)
    then show ?case using hold [of q] 3 own by simp
  qed (use inv(1) wants res in \<open>simp_all add: done_mem_def serial_snoc\<close>)
next
  case (kill p m)
  note inv = mutex_invD [OF kill(2)] and hold = mutex_inv_holding [OF kill(2)] and wants = list_all_update [OF mutex_inv_wants [OF kill(2)]]
  show ?case
  proof (rule mutex_invI, goal_cases)
    case (3 q)
    then show ?case using hold [of q] holding_update [of "procs m" p Dead q] by auto
  next
    case (5 q)
    then show ?case using inv(5) [of q] by (cases "q = p") (simp_all add: done_mem_def)
  qed (use inv(1,4) wants in \<open>simp_all add: done_mem_def\<close>)
next
  case (save m wr)
  note inv = mutex_invD [OF save] and hold = mutex_inv_holding [OF save]
  show ?case
  proof (rule mutex_invI, goal_cases)
    case (3 q)
    then show ?case using hold [of q] by simp
  next
    case (5 q)
    then show ?case using inv(5) [of q] by (simp add: done_mem_def)
  qed (use inv(1,4) mutex_inv_wants [OF save] in \<open>simp_all add: done_mem_def\<close>)
qed

lemma mutex_inv_boot: "mutex_inv s (boot n s f)"
  by (simp add: mutex_inv_def boot_def done_mem_def list_all_iff)

lemma mutex_inv_reach:
  assumes "machine_reach (boot n s f) m" "state_ok s"
  shows "mutex_inv s m"
  using assms(1) by induction (auto intro: mutex_inv_boot mutex_inv_step assms(2))

end
