(* ===== verification/Mutex_Properties.thy ===== *)
theory Mutex_Properties
  imports Mutex_Machine
begin

text \<open>What the mutex gives and what it does not, over the machine of \<open>Mutex_Machine\<close>.\<close>

lemma machine_reach_trans: "machine_reach m' m'' \<Longrightarrow> machine_reach m m' \<Longrightarrow> machine_reach m m''"
  by (induction rule: machine_reach.induct) (auto intro: machine_reach.further)

lemma machine_reach_power: "(machine_step ^^ k) m m' \<Longrightarrow> machine_reach m m'"
  by (induction k arbitrary: m') (auto intro: machine_reach.intros)

text \<open>A holder that runs alone.\<close>

lemma solo_run:
  assumes "p < length (procs m)" "procs m ! p = Holding c pc g" "(micro c ^^ k) (pc, g, mem m) = (Unlock, g', s')"
  shows "\<exists>j \<le> k. (machine_step ^^ j) m (m\<lparr>mem := s', procs := (procs m)[p := Holding c Unlock g']\<rparr>)"
  using assms
proof (induction k arbitrary: m pc g)
  case 0
  then have "m\<lparr>mem := s', procs := (procs m)[p := Holding c Unlock g']\<rparr> = m" by (simp add: list_update_same_conv)
  then show ?case by (intro exI [of _ 0]) simp
next
  case (Suc k)
  show ?case
  proof (cases "pc = Unlock")
    case True
    then have "m\<lparr>mem := s', procs := (procs m)[p := Holding c Unlock g']\<rparr> = m"
      using Suc.prems by (simp add: list_update_same_conv del: funpow.simps)
    then show ?thesis by (intro exI [of _ 0]) simp
  next
    case False
    obtain pc1 g1 s1 where st: "micro c (pc, g, mem m) = (pc1, g1, s1)" by (cases "micro c (pc, g, mem m)")
    let ?m = "m\<lparr>mem := s1, procs := (procs m)[p := Holding c pc1 g1]\<rparr>"
    have step: "machine_step m ?m" by (rule machine_step.work [OF Suc.prems(1,2) False st])
    have run: "(micro c ^^ k) (pc1, g1, mem ?m) = (Unlock, g', s')" using Suc.prems(3) st by (simp add: funpow_swap1)
    have p: "p < length (procs ?m)" "procs ?m ! p = Holding c pc1 g1" using Suc.prems(1) by simp_all
    from Suc.IH [OF p run] obtain j where j: "j \<le> k"
      "(machine_step ^^ j) ?m (?m\<lparr>mem := s', procs := (procs ?m)[p := Holding c Unlock g']\<rparr>)" by blast
    have "?m\<lparr>mem := s', procs := (procs ?m)[p := Holding c Unlock g']\<rparr> = m\<lparr>mem := s', procs := (procs m)[p := Holding c Unlock g']\<rparr>"
      by simp
    then have "(machine_step ^^ Suc j) m (m\<lparr>mem := s', procs := (procs m)[p := Holding c Unlock g']\<rparr>)"
      using relpowp_Suc_I2 [OF step j(2)] by simp
    then show ?thesis using j(1) by (intro exI [of _ "Suc j"]) simp
  qed
qed

lemma mutex_frees:
  assumes "mutex_inv s m" "state_ok s" "owner m = Some p" "procs m ! p \<noteq> Dead"
  shows "\<exists>j \<le> 7938. \<exists>m'. (machine_step ^^ j) m m' \<and> owner m' = None \<and> (\<forall>q. q \<noteq> p \<longrightarrow> procs m' ! q = procs m ! q)
    \<and> sections (done_sections m') = sections (done_sections m) @ [case procs m ! p of Holding c _ _ \<Rightarrow> c]"
proof -
  obtain c pc g k where h: "p < length (procs m)" "procs m ! p = Holding c pc g" "locks c"
    "(micro c ^^ k) (entry c, start_regs c, done_mem s m) = (pc, g, mem m)"
    using mutex_invD(5) [OF assms(1,3)] assms(4) by (auto simp: in_progress_def)
  have wf: "wf_state (done_mem s m)" unfolding done_mem_def by (rule state_okD(1) [OF fleet.execs_keep [OF assms(2)]])
  obtain n g' where n: "n \<le> 31 * MAX_DRIVERS + 1"
    "(micro c ^^ n) (entry c, start_regs c, done_mem s m) = (Unlock, g', exec c (done_mem s m))"
    by (rule section_run [OF wf h(3)])
  have "(micro c ^^ n) (pc, g, mem m) = (micro c ^^ (n + k)) (entry c, start_regs c, done_mem s m)"
    unfolding funpow_add by (simp add: h(4))
  also have "\<dots> = (micro c ^^ k) ((micro c ^^ n) (entry c, start_regs c, done_mem s m))"
    by (simp only: funpow_add comp_def add.commute [of n k])
  finally have "(micro c ^^ n) (pc, g, mem m) = (Unlock, g', exec c (done_mem s m))" by (simp add: n(2))
  from solo_run [OF h(1,2) this] obtain j where j: "j \<le> n"
    "(machine_step ^^ j) m (m\<lparr>mem := exec c (done_mem s m), procs := (procs m)[p := Holding c Unlock g']\<rparr>)" by blast
  let ?m = "m\<lparr>mem := exec c (done_mem s m), procs := (procs m)[p := Holding c Unlock g']\<rparr>"
  have "machine_step ?m (?m\<lparr>owner := None, procs := (procs ?m)[p := Away], done_sections := done_sections ?m @ [(p, c, answer c g')]\<rparr>)"
    by (rule machine_step.unlock) (use h(1) in simp_all)
  then have "(machine_step ^^ Suc j) m (?m\<lparr>owner := None, procs := (procs ?m)[p := Away], done_sections := done_sections ?m @ [(p, c, answer c g')]\<rparr>)"
    using j(2) by auto
  moreover have "Suc j \<le> 7938" using j(1) n(1) by (simp add: MAX_DRIVERS_def)
  ultimately show ?thesis by (rule_tac exI [of _ "Suc j"], intro conjI exI) (auto simp: h(2))
qed

section \<open>Serializability\<close>

text \<open>
  C4: the mutex makes the critical sections atomic: in every interleaving of the single memory accesses of
  any number of processes, some of which are killed on the way, at most one process is inside a section;
  whenever the mutex is free the memory is that of the finished sections executed one after the other in
  the order of their unlocks, and consistent; and each process got from its section what it would have got
  in that serial execution.
\<close>

theorem mutex_serializable:
  assumes "state_ok s" "machine_reach (boot n s f) m"
  shows "serial s (done_sections m)
    \<and> (\<forall>p q. p < length (procs m) \<and> q < length (procs m) \<and> is_holding (procs m ! p) \<and> is_holding (procs m ! q) \<longrightarrow> p = q)
    \<and> (owner m = None \<longrightarrow> mem m = fold exec (sections (done_sections m)) s \<and> state_ok (mem m))"
proof -
  have inv: "mutex_inv s m" by (rule mutex_inv_reach [OF assms(2,1)])
  have "state_ok (mem m)" if "owner m = None"
    unfolding mutex_invD(4) [OF inv that] done_mem_def by (rule fleet.execs_keep [OF assms(1)])
  moreover have "p = q" if "p < length (procs m)" "q < length (procs m)" "is_holding (procs m ! p)" "is_holding (procs m ! q)" for p q
    using mutex_inv_holding [OF inv that(1,3)] mutex_inv_holding [OF inv that(2,4)] by simp
  ultimately show ?thesis using mutex_invD(1,4) [OF inv] by (auto simp: done_mem_def)
qed

lemma one_section:
  assumes "locks c" "0 < n"
  shows "machine_reach (boot n s f) ((boot n s f)\<lparr>owner := Some 0, procs := (procs (boot n s f))[0 := Holding c (entry c) (start_regs c)]\<rparr>)"
proof -
  let ?b = "boot n s f"
  have "machine_step ?b (?b\<lparr>procs := (procs ?b)[0 := Waiting c]\<rparr>)"
    by (rule machine_step.request) (use assms in \<open>simp_all add: boot_def\<close>)
  moreover have "machine_step (?b\<lparr>procs := (procs ?b)[0 := Waiting c]\<rparr>)
      (?b\<lparr>procs := (procs ?b)[0 := Waiting c]\<rparr>\<lparr>owner := Some 0, procs := (procs (?b\<lparr>procs := (procs ?b)[0 := Waiting c]\<rparr>))[0 := Holding c (entry c) (start_regs c)]\<rparr>)"
    by (rule machine_step.lock) (use assms in \<open>simp_all add: boot_def\<close>)
  ultimately show ?thesis by (simp add: machine_reach.further [OF machine_reach.further [OF machine_reach.start]])
qed

theorem mutex_serializable_witness:
  "\<exists>m. machine_reach (boot 3 demo_state NoFile) m \<and> sections (done_sections m) = [Serve 5 (sconst 0)]
    \<and> serial demo_state (done_sections m) \<and> mem m = exec (Serve 5 (sconst 0)) demo_state"
proof -
  let ?c = "Serve 5 (sconst 0)"
  let ?m = "(boot 3 demo_state NoFile)\<lparr>owner := Some 0, procs := (procs (boot 3 demo_state NoFile))[0 := Holding ?c (entry ?c) (start_regs ?c)]\<rparr>"
  have r: "machine_reach (boot 3 demo_state NoFile) ?m" by (rule one_section) simp_all
  have "\<exists>j \<le> 7938. \<exists>m'. (machine_step ^^ j) ?m m' \<and> owner m' = None \<and> (\<forall>q. q \<noteq> 0 \<longrightarrow> procs m' ! q = procs ?m ! q)
      \<and> sections (done_sections m') = sections (done_sections ?m) @ [case procs ?m ! 0 of Holding c _ _ \<Rightarrow> c]"
    by (rule mutex_frees [OF mutex_inv_reach [OF r demo_state_ok] demo_state_ok]) (simp_all add: boot_def)
  then obtain j m' where m': "(machine_step ^^ j) ?m m'" "owner m' = None" "sections (done_sections m') = [?c]"
    by (auto simp: boot_def)
  have "machine_reach (boot 3 demo_state NoFile) m'" by (rule machine_reach_trans [OF machine_reach_power [OF m'(1)] r])
  from this mutex_serializable [OF demo_state_ok this] m'(2,3) show ?thesis by auto
qed

section \<open>The mutex is released, unless its holder dies\<close>

text \<open>
  C15: no section blocks the server: from every reachable situation in which a living process holds the
  mutex, at most 7938 steps of that process alone finish its section and free the mutex, and the others
  stay where they were.
\<close>

theorem mutex_released:
  assumes "state_ok s" "machine_reach (boot n s f) m" "owner m = Some p" "procs m ! p \<noteq> Dead"
  shows "\<exists>j \<le> 7938. \<exists>m'. (machine_step ^^ j) m m' \<and> owner m' = None \<and> (\<forall>q. q \<noteq> p \<longrightarrow> procs m' ! q = procs m ! q)"
  using mutex_frees [OF mutex_inv_reach [OF assms(2,1)] assms(1,3,4)] by blast

theorem mutex_released_witness:
  "\<exists>j \<le> 7938. \<exists>m'. (machine_step ^^ j) ((boot 3 demo_state NoFile)\<lparr>owner := Some 0,
      procs := (procs (boot 3 demo_state NoFile))[0 := Holding (Join 7) J_room (start_regs (Join 7))]\<rparr>) m' \<and> owner m' = None"
proof -
  have r: "machine_reach (boot 3 demo_state NoFile) ((boot 3 demo_state NoFile)\<lparr>owner := Some 0,
      procs := (procs (boot 3 demo_state NoFile))[0 := Holding (Join 7) J_room (start_regs (Join 7))]\<rparr>)"
    using one_section [of "Join 7" 3 demo_state NoFile] by simp
  from mutex_released [OF demo_state_ok r, of 0] show ?thesis by (auto simp: boot_def)
qed

lemma orphaned_step:
  assumes "machine_step m m'" "mutex_inv s m" "owner m = Some p" "procs m ! p = Dead"
  shows "owner m' = Some p \<and> procs m' ! p = Dead \<and> mem m' = mem m \<and> done_sections m' = done_sections m"
  using assms
proof (induction rule: machine_step.induct)
  case (work q m c pc g pc' g' s')
  then show ?case using mutex_invD(3) [OF work(5,1,2)] by auto
next
  case (unlock q m c g)
  then show ?case using mutex_invD(3) [OF unlock(3,1,2)] by auto
qed (auto simp: nth_list_update)

text \<open>
  the mutex is not robust: once a process has been killed inside a critical section, the mutex is
  never free again, the memory stays as the process left it, and no section of any process ever finishes.
\<close>

theorem killed_holder_blocks:
  assumes "state_ok s" "machine_reach (boot n s f) m" "owner m = Some p" "procs m ! p = Dead" "machine_reach m m'"
  shows "owner m' = Some p \<and> mem m' = mem m \<and> done_sections m' = done_sections m"
proof -
  have "mutex_inv s m' \<and> owner m' = Some p \<and> procs m' ! p = Dead \<and> mem m' = mem m \<and> done_sections m' = done_sections m"
    using assms(5)
  proof induction
    case start
    show ?case using mutex_inv_reach [OF assms(2,1)] assms(3,4) by simp
  next
    case (further m' m'')
    then show ?case using orphaned_step [OF further(2)] mutex_inv_step [OF further(2) _ assms(1)] by auto
  qed
  then show ?thesis by blast
qed

theorem killed_holder_blocks_witness:
  "\<exists>m. machine_reach (boot 3 demo_state NoFile) m \<and> owner m = Some 0 \<and> procs m ! 0 = Dead
    \<and> owner (m\<lparr>procs := (procs m)[1 := Waiting (Join 7)]\<rparr>) = Some 0"
proof -
  let ?h = "(boot 3 demo_state NoFile)\<lparr>owner := Some 0, procs := (procs (boot 3 demo_state NoFile))[0 := Holding (Join 7) J_room (start_regs (Join 7))]\<rparr>"
  let ?m = "?h\<lparr>procs := (procs ?h)[0 := Dead]\<rparr>"
  have "machine_step ?h ?m" by (rule machine_step.kill) (simp add: boot_def)
  then have r: "machine_reach (boot 3 demo_state NoFile) ?m"
    using one_section [of "Join 7" 3 demo_state NoFile] by (auto intro: machine_reach.further)
  have o: "owner ?m = Some 0" "procs ?m ! 0 = Dead" by (simp_all add: boot_def)
  have "machine_reach ?m (?m\<lparr>procs := (procs ?m)[1 := Waiting (Join 7)]\<rparr>)"
    by (rule machine_reach.further [OF machine_reach.start machine_step.request]) (simp_all add: boot_def)
  from killed_holder_blocks [OF demo_state_ok r o this] r o show ?thesis by blast
qed

section \<open>Saving without the mutex\<close>

lemma dispatched_half:
  assumes "state_ok s" "pick_driver s (is_vip_client c) = int i" "0 < n"
  shows "\<exists>m. machine_reach (boot n s f) m \<and> mem m = update_driver i (\<lambda>d. d\<lparr>is_available := False\<rparr>) s"
proof -
  let ?c = "Serve c no_draws"
  let ?m0 = "(boot n s f)\<lparr>owner := Some 0, procs := (procs (boot n s f))[0 := Holding ?c (entry ?c) (start_regs ?c)]\<rparr>"
  have r0: "machine_reach (boot n s f) ?m0" by (rule one_section) (use assms(3) in simp_all)
  let ?g = "(start_regs ?c)\<lparr>best_driver := int i\<rparr>"
  let ?m1 = "?m0\<lparr>mem := s, procs := (procs ?m0)[0 := Holding ?c R_available ?g]\<rparr>"
  have "machine_step ?m0 ?m1"
    by (rule machine_step.work [of 0 _ _ R_pick "start_regs ?c"]) (use assms(2,3) in \<open>simp_all add: boot_def serve_steps\<close>)
  moreover have "machine_step ?m1 (?m1\<lparr>mem := update_driver i (\<lambda>d. d\<lparr>is_available := False\<rparr>) s, procs := (procs ?m1)[0 := Holding ?c R_rides ?g]\<rparr>)"
    by (rule machine_step.work [of 0 _ _ R_available ?g]) (use assms(3) in \<open>simp_all add: boot_def serve_steps\<close>)
  ultimately have "machine_reach (boot n s f) (?m1\<lparr>mem := update_driver i (\<lambda>d. d\<lparr>is_available := False\<rparr>) s, procs := (procs ?m1)[0 := Holding ?c R_rides ?g]\<rparr>)"
    using r0 by (blast intro: machine_reach.further)
  then show ?thesis by (intro exI conjI, assumption) simp
qed

text \<open>
  C16: the handler of SIGINT saves the state without taking the mutex: whenever a driver can be dispatched,
  there is a run in which the file gets an image from the middle of the dispatch. In that image the driver is busy
  without a destination and the ride is not counted, so it is not a consistent state of the server.
\<close>

theorem sigint_saves_torn_state:
  assumes "state_ok s" "pick_driver s (is_vip_client c) \<noteq> - 1" "0 < n"
  shows "\<exists>m t i. machine_reach (boot n s f) m \<and> disk m = Image t \<and> \<not> state_ok t
    \<and> i < nat (driver_count t) \<and> status_of (drivers t ! i) = Busy \<and> total_success_requests t = total_success_requests s"
proof -
  note i = ride.index [OF assms(2) state_okD(1) [OF assms(1)]]
  let ?i = "nat (pick_driver s (is_vip_client c))"
  let ?t = "update_driver ?i (\<lambda>d. d\<lparr>is_available := False\<rparr>) s"
  have "pick_driver s (is_vip_client c) = int ?i" using i(3) by simp
  from dispatched_half [OF assms(1) this assms(3)] obtain m where m: "machine_reach (boot n s f) m" "mem m = ?t" by blast
  have r: "machine_reach (boot n s f) (m\<lparr>disk := save_state FullWrite (mem m) (disk m)\<rparr>)"
    by (rule machine_reach.further [OF m(1) machine_step.save])
  have len: "?i < length (active_drivers s)" using i(1) length_active_drivers [OF state_okD(1) [OF assms(1)]] by simp
  then have ok: "driver_ok (drivers s ! ?i)" using state_okD(3) [OF assms(1)] active_drivers_nth [OF len] nth_mem [OF len] by metis
  have cell: "drivers ?t ! ?i = (drivers s ! ?i)\<lparr>is_available := False\<rparr>" using i(2) by (simp add: update_driver_def)
  have busy: "status_of (drivers ?t ! ?i) = Busy"
    unfolding cell using ok i(4) by (auto simp: status_of_def driver_ok_def one_status_def eligible_def)
  have "\<not> state_ok ?t"
  proof
    assume t: "state_ok ?t"
    have len': "?i < length (active_drivers ?t)" using len by (simp add: active_update_driver)
    then have "driver_ok (drivers ?t ! ?i)" using state_okD(3) [OF t] active_drivers_nth [OF len'] nth_mem [OF len'] by metis
    then show False using driver_ok_not_busy busy by blast
  qed
  then show ?thesis using r m(2) busy i(1)
    by (intro exI [of _ "m\<lparr>disk := save_state FullWrite (mem m) (disk m)\<rparr>"] exI [of _ ?t] exI [of _ ?i])
      (simp add: save_state_def)
qed

lemma demo_pick: "pick_driver demo_state (is_vip_client 5) \<noteq> - 1"
proof -
  have "active_drivers demo_state = active_drivers two_drivers"
    by (simp add: active_drivers_def two_drivers_def demo_state_def)
  then have "\<exists>d \<in> set (active_drivers demo_state). eligible d"
    by (simp add: two_drivers_active eligible_def zero_driver_def)
  moreover have "\<forall>d \<in> set (active_drivers demo_state). base_distance d < far_away"
    using state_okD(3) [OF demo_state_ok] near_distance by (auto simp: driver_ok_def)
  ultimately show ?thesis
    using ride.none_iff [of demo_state "is_vip_client 5"] by blast
qed

theorem sigint_saves_torn_state_witness:
  "\<exists>m t. machine_reach (boot 3 demo_state NoFile) m \<and> disk m = Image t \<and> \<not> state_ok t"
  using sigint_saves_torn_state [OF demo_state_ok demo_pick, of 3 NoFile] by auto

section \<open>The reply is written after the unlock\<close>

text \<open>The fields the reply names, at cell \<open>i\<close>.\<close>

definition identity :: "nat \<Rightarrow> SharedState \<Rightarrow> u32 \<times> double \<times> int" where
  "identity i s = (driver_id (drivers s ! i), rating (drivers s ! i), dispatch_mode s)"

text \<open>A joining driver is being written, behind cell \<open>i\<close>.\<close>

fun joins_behind :: "nat \<Rightarrow> pc \<Rightarrow> Regs \<Rightarrow> bool" where
  "joins_behind i J_id g = (i < idx g)"
| "joins_behind i J_available g = (i < idx g)"
| "joins_behind i J_fuel g = (i < idx g)"
| "joins_behind i M_write g = (after_writes g \<notin> {J_id, J_available, J_fuel})"
| "joins_behind i pc g = True"

lemma identity_update:
  "(\<And>d. driver_id (f d) = driver_id d \<and> rating (f d) = rating d) \<Longrightarrow> identity i (update_driver j f s) = identity i s"
  by (cases "j < length (drivers s)") (auto simp: identity_def update_driver_def nth_list_update list_update_beyond)

lemma identity_update_other: "j \<noteq> i \<Longrightarrow> identity i (update_driver j f s) = identity i s"
  by (simp add: identity_def update_driver_def)

lemma identity_counters [simp]:
  "identity i (s\<lparr>client_req_count := a\<rparr>) = identity i s" "identity i (s\<lparr>client_last_seen := b\<rparr>) = identity i s"
  "identity i (s\<lparr>total_requests_handled := k\<rparr>) = identity i s" "identity i (s\<lparr>total_success_requests := k\<rparr>) = identity i s"
  "identity i (s\<lparr>total_revenue := v\<rparr>) = identity i s" "identity i (s\<lparr>driver_count := v\<rparr>) = identity i s"
  by (simp_all add: identity_def)

lemma perform_frame:
  "perform pc ws g s = (pc', g', s') \<Longrightarrow> pc \<notin> {J_id, J_available, J_fuel, M_write} \<Longrightarrow> s' = s \<and> joins_behind i pc' g'"
  by (cases pc) (auto simp: perform_def split: if_splits)

lemma store_identity: "identity i (update_driver j (store w) s) = identity i s"
  by (rule identity_update) (cases w; simp)

lemma round_frame:
  assumes "round_micro (pc, g, s) = (pc', g', s')" "joins_behind i pc g"
  shows "identity i s' = identity i s \<and> driver_count s' = driver_count s \<and> joins_behind i pc' g'"
proof (cases "pc = M_write")
  case True
  have "joins_behind i (after_writes g) g''" if "after_writes g'' = after_writes g" for g''
    using assms(2) True that by (cases "after_writes g") simp_all
  then show ?thesis using assms True
    by (auto simp: round_micro_def Let_def store_identity split: list.splits if_splits)
next
  case False
  then show ?thesis using assms
    by (cases pc) (simp_all add: round_micro_def Let_def split_beta split: if_splits, (fastforce dest: perform_frame [where i = i])+)
qed

lemma micro_identity:
  assumes "micro c (pc, g, s) = (pc', g', s')" "i < nat (driver_count s)" "joins_behind i pc g"
  shows "identity i s' = identity i s \<and> i < nat (driver_count s') \<and> joins_behind i pc' g'"
proof (cases c)
  case (Limit k now)
  then show ?thesis using assms by (cases pc) (auto simp: limit_micro_def Let_def split: if_splits)
next
  case (Serve k r)
  then show ?thesis using assms
    by (cases pc) (auto simp: serve_micro_def Let_def split_beta identity_update split: if_splits)
next
  case (Join w)
  then show ?thesis using assms
    by (cases pc) (auto simp: join_micro_def identity_update identity_update_other split: if_splits)
next
  case (Round r)
  then show ?thesis using round_frame [OF _ assms(3)] assms(1,2) by simp
qed

fun behind :: "nat \<Rightarrow> proc \<Rightarrow> bool" where
  "behind i (Holding c pc g) = joins_behind i pc g"
| "behind i _ = True"

definition reply_inv :: "nat \<Rightarrow> u32 \<times> double \<times> int \<Rightarrow> Machine \<Rightarrow> bool" where
  "reply_inv i x m \<longleftrightarrow> identity i (mem m) = x \<and> i < nat (driver_count (mem m)) \<and> list_all (behind i) (procs m)"

lemma reply_inv_step:
  assumes "machine_step m m'" "reply_inv i x m"
  shows "reply_inv i x m'"
  using assms
proof (induction rule: machine_step.induct)
  case (work p m c pc g pc' g' s')
  have "joins_behind i pc g" "i < nat (driver_count (mem m))"
    using work(1,2,5) by (simp_all add: reply_inv_def list_all_length) (metis behind.simps(1))
  from micro_identity [OF work(4) this(2,1)] work(5) show ?case by (simp add: reply_inv_def list_all_update)
next
  case (lock p m c)
  have "joins_behind i (entry c) (start_regs c)" by (cases c) simp_all
  then show ?case using lock(4) by (simp add: reply_inv_def list_all_update)
qed (simp_all add: reply_inv_def list_all_update)

text \<open>
  C14: the reply to a ride request is written after the mutex has been released, and yet its text is the
  one of the dispatch: whatever all processes do from then on, at every later moment the number and the rating
  of the driver and the dispatch mode in the memory are what they were at the unlock.
\<close>

theorem reply_race_free:
  assumes "state_ok s" "machine_reach (boot n s f) m" "owner m = None" "i < nat (driver_count (mem m))" "machine_reach m m'"
  shows "confirm_text (drivers (mem m') ! i) away_reg (dispatch_mode (mem m'))
      = confirm_text (drivers (mem m) ! i) away_reg (dispatch_mode (mem m))"
proof -
  have inv: "mutex_inv s m" by (rule mutex_inv_reach [OF assms(2,1)])
  have "behind i (procs m ! p)" if "p < length (procs m)" for p
    using mutex_invD(3) [OF inv that] assms(3) by (cases "procs m ! p") auto
  then have "reply_inv i (identity i (mem m)) m"
    using assms(4) by (simp add: reply_inv_def list_all_length)
  with assms(5) have "reply_inv i (identity i (mem m)) m'" by induction (auto intro: reply_inv_step)
  then show ?thesis by (simp add: reply_inv_def identity_def confirm_text_def)
qed

theorem reply_race_free_witness:
  "\<exists>m. machine_reach (boot 3 demo_state NoFile) m \<and> mem m \<noteq> demo_state
    \<and> confirm_text (drivers (mem m) ! 1) 0 (dispatch_mode (mem m)) = confirm_text (drivers demo_state ! 1) 0 (dispatch_mode demo_state)"
proof -
  note i = ride.index [OF demo_pick state_okD(1) [OF demo_state_ok]]
  let ?i = "nat (pick_driver demo_state (is_vip_client 5))"
  have "pick_driver demo_state (is_vip_client 5) = int ?i" using i(3) by simp
  from dispatched_half [OF demo_state_ok this, of 3 NoFile] obtain m where m:
    "machine_reach (boot 3 demo_state NoFile) m" "mem m = update_driver ?i (\<lambda>d. d\<lparr>is_available := False\<rparr>) demo_state" by auto
  have "\<not> is_available (drivers (mem m) ! ?i)" unfolding m(2) using i(2) by (simp add: update_driver_def)
  then have "mem m \<noteq> demo_state" using i(4) by (auto simp: eligible_def)
  moreover have "1 < nat (driver_count (mem (boot 3 demo_state NoFile)))" by (simp add: boot_def demo_state_def two_drivers_def)
  ultimately show ?thesis
    using reply_race_free [OF demo_state_ok machine_reach.start, of 3 NoFile 1 m 0] m(1) by (auto simp: boot_def)
qed

end
