(* ===== verification/Map_Race.thy ===== *)
theory Map_Race
  imports Map_Thread Mutex_Properties Server_Main
begin

text \<open>
  src/server/map_monitor.c draws the map and the table after the unlock, while workers write to the same drivers:
  a row may take each field of a driver from another moment, also from the middle of a critical section. What
  the drawing writes stays within its arrays all the same: the canvas, because the cell is computed into local
  variables before the test, and the two \<open>sprintf\<close> buffers, because every value a target ever has is short.
\<close>

section \<open>Targets in the middle of a section\<close>

definition short_target :: "Driver \<Rightarrow> bool" where
  "short_target d \<longleftrightarrow> \<bar>rat_of (target_lat d)\<bar> \<le> 1000 \<and> \<bar>rat_of (target_lon d)\<bar> \<le> 1000"

definition targets_short :: "SharedState \<Rightarrow> bool" where
  "targets_short s \<longleftrightarrow> list_all short_target (drivers s)"

lemma targets_short_update:
  "targets_short s \<Longrightarrow> (\<And>d. short_target d \<Longrightarrow> short_target (f d)) \<Longrightarrow> targets_short (update_driver i f s)"
  by (cases "i < length (drivers s)")
    (auto simp: targets_short_def update_driver_def list_all_length nth_list_update list_update_beyond)

lemma targets_short_frame [simp]:
  "targets_short (s\<lparr>client_req_count := a\<rparr>) = targets_short s" "targets_short (s\<lparr>client_last_seen := b\<rparr>) = targets_short s"
  "targets_short (s\<lparr>total_requests_handled := k\<rparr>) = targets_short s" "targets_short (s\<lparr>total_success_requests := k\<rparr>) = targets_short s"
  "targets_short (s\<lparr>total_revenue := v\<rparr>) = targets_short s" "targets_short (s\<lparr>driver_count := v\<rparr>) = targets_short s"
  by (simp_all add: targets_short_def)

lemma short_target_frame [simp]:
  "short_target (d\<lparr>is_available := b\<rparr>) = short_target d" "short_target (d\<lparr>rides_count := k\<rparr>) = short_target d"
  "short_target (d\<lparr>fuel := k\<rparr>) = short_target d" "short_target (d\<lparr>has_target := b\<rparr>) = short_target d"
  "short_target (d\<lparr>driver_id := w\<rparr>) = short_target d"
  by (simp_all add: short_target_def)

lemma short_coords: "v \<in> {0..180} \<Longrightarrow> \<bar>rat_of (target_coord BASE_LAT v)\<bar> \<le> 1000 \<and> \<bar>rat_of (target_coord BASE_LON v)\<bar> \<le> 1000"
proof -
  assume "v \<in> {0..180}"
  then have b: "target_coord BASE_LAT 0 \<le> target_coord BASE_LAT v" "target_coord BASE_LAT v \<le> target_coord BASE_LAT 180"
    "target_coord BASE_LON 0 \<le> target_coord BASE_LON v" "target_coord BASE_LON v \<le> target_coord BASE_LON 180"
    by (auto intro: target_coord_mono)
  have "rat_of (target_coord BASE_LAT 180) \<le> 1000" "rat_of (target_coord BASE_LON 180) \<le> 1000"
    "0 \<le> rat_of (target_coord BASE_LAT 0)" "0 \<le> rat_of (target_coord BASE_LON 0)"
    by (simp_all add: target_coord_def BASE_LAT_def BASE_LON_def double_eval)
  with b show ?thesis unfolding less_eq_double_def by linarith
qed

lemma perform_mem: "snd (snd (perform pc ws g s)) = s"
  by (simp add: perform_def)

lemma short_store: "short_target (store w d) = short_target d"
  by (cases w) (simp_all add: short_target_def)

lemma serve_short:
  assumes "targets_short s" shows "targets_short (snd (snd (serve_micro c (pc, g, s))))"
proof -
  have lat: "short_target (d\<lparr>target_lat := target_coord BASE_LAT (fst (rand_mod 90 r))\<rparr>)"
    and lon: "short_target (d\<lparr>target_lon := target_coord BASE_LON (fst (rand_mod 180 r))\<rparr>)" if "short_target d" for d r
    using that draw_ranges [of r] short_coords [of "fst (rand_mod 90 r)"] short_coords [of "fst (rand_mod 180 r)"]
    by (simp_all add: short_target_def)
  show ?thesis using assms lat lon
    by (cases pc) (auto simp: serve_micro_def Let_def split_beta intro!: targets_short_update)
qed

lemma round_short: "targets_short s \<Longrightarrow> targets_short (snd (snd (round_micro (pc, g, s))))"
  by (cases pc)
    (auto simp: round_micro_def Let_def split_beta perform_mem short_store intro!: targets_short_update split: list.splits)

lemma micro_short: "targets_short s \<Longrightarrow> targets_short (snd (snd (micro c (pc, g, s))))"
proof (cases c)
  case (Limit k now)
  then show "targets_short s \<Longrightarrow> ?thesis" by (cases pc) (simp_all add: limit_micro_def Let_def)
next
  case (Join w)
  then show "targets_short s \<Longrightarrow> ?thesis" by (cases pc) (auto simp: join_micro_def intro!: targets_short_update)
qed (simp_all add: serve_short round_short)

lemma machine_short: "machine_reach m m' \<Longrightarrow> targets_short (mem m) \<Longrightarrow> targets_short (mem m')"
proof (induction rule: machine_reach.induct)
  case (further m' m'')
  from further(2) further(3) [OF further(4)] show ?case
  proof (induction rule: machine_step.induct)
    case (work p m c pc g pc' g' s')
    from micro_short [OF work(5), of c pc g] work(4) show ?case by simp
  qed simp_all
qed

lemma init_short:
  assumes "server_init n mode r = Some (s, r')" shows "targets_short s"
proof -
  have zero: "rat_of 0 = 0" by (simp add: zero_double_def)
  have step: "targets_short (fold (\<lambda>i. update_driver i (f i)) is s)"
    if "targets_short s" "\<And>i d. short_target (f i d)" for f "is" s
    using that(1) by (induction "is" arbitrary: s) (simp_all add: targets_short_update that(2))
  have "targets_short (zero_state\<lparr>driver_count := n, dispatch_mode := mode\<rparr>)"
    by (simp add: targets_short_def zero_state_def list_all_length short_target_def zero_driver_def zero)
  from step [OF this, of "\<lambda>i. boot_driver i (ds ! i)" for ds] assms show ?thesis
    by (auto simp: server_init_def init_drivers_def boot_driver_def short_target_def zero split_beta Let_def split: if_splits)
qed

section \<open>The buffers\<close>

lemma info_short: "short_target d \<Longrightarrow> length (target_info d) < 30"
  using length_show_fixed_3 [of "target_lat d"] length_show_fixed_3 [of "target_lon d"]
  by (simp add: short_target_def target_info_def)

text \<open>
  C22: the drawing without the mutex overruns none of its buffers: whatever the processes do from the start of the
  server on, and from whichever moments, also within critical sections, a row of the table takes the latitude and
  the longitude of its target, both texts and their terminating NUL fit their 30 bytes and the fuel bar its 12;
  and whatever positions the drawing of the map reads, the canvas keeps its 20 rows of 40 cells.
\<close>

theorem racing_frame_fits:
  assumes "server_init n mode r = Some (s, r')" "machine_reach (boot k s f) m1" "machine_reach m1 m2"
    and "i < length (drivers (mem m1))" "j < length (drivers (mem m2))"
    and "target_lat d = target_lat (drivers (mem m1) ! i)" "target_lon d = target_lon (drivers (mem m2) ! j)"
  shows "length (status_str d) < 30 \<and> length (target_info d) < 30 \<and> length (fuel_bar d) = 10
    \<and> wf_canvas (fold draw_driver ds (base_canvas g))"
proof -
  have m1: "targets_short (mem m1)"
    using machine_short [OF assms(2)] init_short [OF assms(1)] by (simp add: boot_def)
  have "short_target (drivers (mem m1) ! i)" "short_target (drivers (mem m2) ! j)"
    using m1 machine_short [OF assms(3) m1] assms(4,5) by (simp_all add: targets_short_def list_all_length)
  then have "short_target d" using assms(6,7) by (simp add: short_target_def)
  moreover have "length (status_str d) < 30" by (simp add: status_str_def coloured_def)
  ultimately show ?thesis
    using info_short fold_draw [OF wf_base_canvas, of ds g] by (auto simp: fuel_bar_def simp flip: length_greater_0_conv)
qed

theorem racing_frame_fits_witness:
  "\<exists>s r'. server_init 2 1 (sconst 7) = Some (s, r')
    \<and> length (target_info ((drivers s ! 0)\<lparr>has_target := True, target_lon := target_lon (drivers s ! 1)\<rparr>)) < 30"
proof -
  obtain s r' where s: "server_init 2 1 (sconst 7) = Some (s, r')" "state_ok s"
    using server_init_facts [where n = 2 and r = "sconst 7" and mode = 1] by auto
  let ?d = "(drivers s ! 0)\<lparr>has_target := True, target_lon := target_lon (drivers s ! 1)\<rparr>"
  have len: "length (drivers s) = 256" using state_okD(1) [OF s(2)] by (simp add: wf_state_def MAX_DRIVERS_def)
  have "length (target_info ?d) < 30"
    using racing_frame_fits [OF s(1) machine_reach.start machine_reach.start, of 0 3 NoFile 1 ?d "[]" zero_grid] len
    by (simp add: boot_def)
  with s(1) show ?thesis by blast
qed

end
