(* ===== verification/Pricing_Service.thy ===== *)
theory Pricing_Service
  imports Driver_Status
begin

text \<open>
  src/server/pricing_service.c: the surge price from the share of busy drivers, computed in double
  arithmetic. The result is the pair of the fare and the flag the code returns through
  \<open>is_surge\<close>.
\<close>

definition busy_drivers :: "SharedState \<Rightarrow> int" where
  "busy_drivers s = int (length (filter (\<lambda>d. \<not> is_available d \<and> \<not> is_refueling d) (active_drivers s)))"

definition calculate_surge_price :: "SharedState \<Rightarrow> int \<times> bool" where
  "calculate_surge_price s =
     (let base_fare = 100 in
      if driver_count s = 0 then (base_fare, False)
      else let total_drivers = d_of_int (driver_count s);
               busy_ratio = d_of_int (busy_drivers s) / total_drivers
           in if d_lit (7 / 10) < busy_ratio then (base_fare * 2, True) else (base_fare, False))"

section \<open>The threshold\<close>

lemma surge_threshold:
  assumes "0 < n" "n \<le> 256" "b \<le> n"
  shows "d_lit (7 / 10) < d_of_int (int b) / d_of_int (int n) \<longleftrightarrow> 7 * n < 10 * b"
proof -
  have r: "rat_of (d_of_int (int b) / d_of_int (int n)) = rnd (of_nat b / of_nat n)"
    using rnd_of_nat [of b] rnd_of_nat [of n] assms by simp
  have n: "0 < (of_nat n :: rat)" "(of_nat n :: rat) \<le> 256"
    using assms(1,2) of_nat_le_iff [of n 256, where ?'a = rat] by auto
  show ?thesis
  proof
    assume less: "d_lit (7 / 10) < d_of_int (int b) / d_of_int (int n)"
    show "7 * n < 10 * b"
    proof (rule ccontr)
      assume "\<not> 7 * n < 10 * b"
      then have "(of_nat (10 * b) :: rat) \<le> of_nat (7 * n)" by (simp only: of_nat_le_iff)
      then have "of_nat b / of_nat n \<le> (7 / 10 :: rat)" using n by (simp add: field_simps)
      from rnd_mono [OF this] less r show False by (simp add: less_double_def)
    qed
  next
    assume "7 * n < 10 * b"
    then have "(of_nat (7 * n + 1) :: rat) \<le> of_nat (10 * b)" by (simp only: of_nat_le_iff)
    then have "(of_nat (7 * n + 1) :: rat) / (10 * of_nat n) \<le> of_nat (10 * b) / (10 * of_nat n)"
      using n by (intro divide_right_mono) simp_all
    then have "7 / 10 + 1 / (10 * of_nat n) \<le> (of_nat b / of_nat n :: rat)"
      using n by (simp add: add_divide_distrib add.commute)
    moreover have "1 / 2560 \<le> (1 / (10 * of_nat n) :: rat)" using n by (simp add: field_simps)
    ultimately have "7 / 10 + 1 / 2560 \<le> (of_nat b / of_nat n :: rat)" by linarith
    from rnd_mono [OF this] have "rnd (7 / 10 + 1 / 2560) \<le> rnd (of_nat b / of_nat n :: rat)" .
    moreover have "rnd (7 / 10) < rnd (7 / 10 + 1 / 2560)"
      using rnd_upper [of "7 / 10"] rnd_lower [of "7 / 10 + 1 / 2560"] by simp
    ultimately show "d_lit (7 / 10) < d_of_int (int b) / d_of_int (int n)"
      using r by (simp add: less_double_def)
  qed
qed

section \<open>Properties\<close>

text \<open>
  the price doubles, and the flag is set, exactly when more than 70 percent of the drivers are
  on a trip; the double division and comparison decide this exactly for every legal driver count,
  and an empty fleet has the base fare.
\<close>

theorem surge_price_exact:
  assumes "state_ok s"
  shows "calculate_surge_price s =
    (if 7 * length (active_drivers s) < 10 * length (filter (\<lambda>d. status_of d = Navigating) (active_drivers s))
     then (200, True) else (100, False))"
proof -
  have ok: "\<And>d. d \<in> set (active_drivers s) \<Longrightarrow> driver_ok d" and wf: "wf_state s" and nn: "0 \<le> driver_count s"
    using assms by (auto simp: state_ok_def)
  let ?b = "length (filter (\<lambda>d. status_of d = Navigating) (active_drivers s))"
  have "filter (\<lambda>d. \<not> is_available d \<and> \<not> is_refueling d) (active_drivers s)
      = filter (\<lambda>d. status_of d = Navigating) (active_drivers s)"
    using ok by (intro filter_cong refl) (auto simp: driver_ok_def one_status_def status_of_def)
  then have b: "busy_drivers s = int ?b" by (simp add: busy_drivers_def)
  have n: "int (length (active_drivers s)) = driver_count s"
    using length_active_drivers [OF wf] nn by simp
  show ?thesis
  proof (cases "driver_count s = 0")
    case True
    then show ?thesis using n by (simp add: calculate_surge_price_def)
  next
    case False
    have "length (active_drivers s) \<le> 256" using n wf by (simp add: wf_state_def MAX_DRIVERS_def)
    moreover have "0 < length (active_drivers s)" using n nn False by linarith
    ultimately show ?thesis
      using surge_threshold [of "length (active_drivers s)" ?b] n False
      by (simp add: calculate_surge_price_def b)
  qed
qed

definition busy_driver :: Driver where
  "busy_driver = zero_driver\<lparr>has_target := True, target_lat := BASE_LAT, target_lon := BASE_LON, fuel := 5\<rparr>"

definition idle_driver :: Driver where
  "idle_driver = zero_driver\<lparr>is_available := True, fuel := 5\<rparr>"

definition fleet :: "nat \<Rightarrow> nat \<Rightarrow> SharedState" where
  "fleet b i = zero_state\<lparr>driver_count := int (b + i),
     drivers := replicate b busy_driver @ replicate i idle_driver @ replicate (256 - (b + i)) zero_driver\<rparr>"

lemma fleet_active: "active_drivers (fleet b i) = replicate b busy_driver @ replicate i idle_driver"
  by (simp add: fleet_def active_drivers_def)

lemma fleet_ok: "b + i \<le> 256 \<Longrightarrow> state_ok (fleet b i)"
  by (auto simp: state_ok_def fleet_active) (auto simp: fleet_def wf_state_def zero_state_def MAX_DRIVERS_def
      driver_ok_def one_status_def busy_driver_def idle_driver_def zero_driver_def near_def target_on_map_def)

theorem surge_price_exact_witness:
  "calculate_surge_price (fleet 7 3) = (100, False) \<and> calculate_surge_price (fleet 8 3) = (200, True)"
proof -
  have st: "status_of busy_driver = Navigating" "status_of idle_driver \<noteq> Navigating"
    by (simp_all add: busy_driver_def idle_driver_def zero_driver_def status_of_def)
  have "length (filter (\<lambda>d. status_of d = Navigating) (active_drivers (fleet b i))) = b" for b i
    using st by (simp add: fleet_active)
  then show ?thesis
    using surge_price_exact [OF fleet_ok, of 7 3] surge_price_exact [OF fleet_ok, of 8 3]
    by (simp add: fleet_active)
qed

end
