(* ===== verification/Fleet_Spec.thy ===== *)
theory Fleet_Spec
  imports Mutex_Properties
begin

text \<open>
  What the server promises of its fleet, without arrays, searches, coordinates and locks: a list of
  cabs with a status, a tank and a ride counter, the number of rides served and the money earned. Every critical
  section of the code is one transition of this specification, so every run of the server is a run of it.
\<close>

section \<open>The specification\<close>

record Cab =
  cab_status :: status
  cab_fuel :: int
  cab_rides :: int

record Fleet =
  cabs :: "Cab list"
  served :: u64
  earned :: int

definition ready :: "Cab \<Rightarrow> bool" where
  "ready c \<longleftrightarrow> cab_status c = Available \<and> 0 < cab_fuel c"

definition on_trip :: "Cab \<Rightarrow> Cab" where
  "on_trip c = c\<lparr>cab_status := Navigating, cab_fuel := cab_fuel c - 1, cab_rides := cab_rides c + 1\<rparr>"

text \<open>
  A round of the simulation moves the status along the abstract machine but never starts a trip; only a cab
  on a trip burns fuel, one unit at most, and only one that refuels gains any, two units at most.
\<close>

definition cab_round :: "Cab \<Rightarrow> Cab \<Rightarrow> bool" where
  "cab_round c c' \<longleftrightarrow> status_step (cab_status c) (cab_status c') \<and> cab_rides c' = cab_rides c
     \<and> (cab_status c' = Navigating \<longrightarrow> cab_status c = Navigating)
     \<and> (cab_fuel c' < cab_fuel c \<longrightarrow> cab_status c = Navigating \<and> cab_fuel c' = cab_fuel c - 1)
     \<and> (cab_fuel c < cab_fuel c' \<longrightarrow> cab_status c' = Refueling \<and> cab_fuel c' \<le> cab_fuel c + 2)"

inductive fleet_does :: "critical \<Rightarrow> Fleet \<Rightarrow> Fleet \<Rightarrow> bool" where
  limit: "fleet_does (Limit k now) f f"
| serve: "fleet_does (Serve k r) f (f\<lparr>cabs := (cabs f)[i := on_trip (cabs f ! i)], served := served f + 1,
      earned := earned f + (if k \<le> 10 then 150 else 100)\<rparr>)" if "i < length (cabs f)" "ready (cabs f ! i)"
| refuse: "fleet_does (Serve k r) f f" if "\<forall>c \<in> set (cabs f). \<not> ready c"
| enlist: "fleet_does (Join w) f (f\<lparr>cabs := cabs f @ [\<lparr>cab_status = Available, cab_fuel = 10, cab_rides = 0\<rparr>]\<rparr>)"
    if "length (cabs f) < MAX_DRIVERS"
| full: "fleet_does (Join w) f f" if "length (cabs f) = MAX_DRIVERS"
| round: "fleet_does (Round r) f (f\<lparr>cabs := cs\<rparr>)" if "list_all2 cab_round (cabs f) cs"

fun fleet_run :: "critical list \<Rightarrow> Fleet \<Rightarrow> Fleet \<Rightarrow> bool" where
  "fleet_run [] f f' \<longleftrightarrow> f' = f"
| "fleet_run (c # cs) f f' \<longleftrightarrow> (\<exists>f1. fleet_does c f f1 \<and> fleet_run cs f1 f')"

section \<open>The abstraction\<close>

definition cab_of :: "Driver \<Rightarrow> Cab" where
  "cab_of d = \<lparr>cab_status = status_of d, cab_fuel = fuel d, cab_rides = rides_count d\<rparr>"

definition fleet_of :: "SharedState \<Rightarrow> Fleet" where
  "fleet_of s = \<lparr>cabs = map cab_of (active_drivers s), served = total_success_requests s, earned = total_revenue s\<rparr>"

lemma ready_eligible: "driver_ok d \<Longrightarrow> ready (cab_of d) \<longleftrightarrow> eligible d"
  by (auto simp: ready_def cab_of_def eligible_def driver_ok_def one_status_def status_of_def)

lemma cab_dispatched: "eligible d \<Longrightarrow> cab_of (dispatch_driver r1 r2 d) = on_trip (cab_of d)"
  by (simp add: cab_of_def on_trip_def dispatch_driver_def status_of_def)

text \<open>The phases of a round and the tank.\<close>

lemma fuel_frame:
  "fuel (respawn g d) = fuel d" "fuel (run_empty d) = fuel d" "fuel (failsafe d) = fuel d" "fuel (fst (move g x y d r)) = fuel d"
  "is_refueling (failsafe d) = is_refueling d" "is_refueling (fst (move g x y d r)) = is_refueling d"
  by (simp_all add: respawn_def run_empty_def failsafe_def move_def drive_def wander_def split_beta Let_def)

lemma respawn_target: "has_target (respawn g d) \<Longrightarrow> has_target d"
  by (simp add: respawn_def Let_def split: if_splits)

lemma navigate_fuel:
  "fuel (fst (navigate d r)) = fuel d \<or> (has_target d \<and> fuel (fst (navigate d r)) = fuel d - 1)"
  by (simp add: navigate_def use_fuel_def arrive_at_target_def split_beta Let_def)

lemma pump_fuel: "fuel (pump d) = fuel d \<or> (is_refueling (pump d) \<and> fuel (pump d) = fuel d + 2)"
  by (simp add: pump_def)

lemma tick_cab:
  assumes "driver_ok d"
  shows "cab_round (cab_of d) (cab_of (fst (tick_driver g d r)))"
proof -
  let ?n = "fst (navigate (respawn g d) r)" and ?d = "fst (tick_driver g d r)"
  let ?p = "pump (run_empty ?n)"
  have ph: "phase_ok d ?d" by (rule tick_phase [OF assms])
  then have ok: "driver_ok ?d" "has_target ?d \<Longrightarrow> has_target d" by (simp_all add: phase_ok_def)
  have end_state: "fuel ?d = fuel ?p" "is_refueling ?d = is_refueling ?p"
    by (simp_all add: tick_driver_def Let_def split_beta fuel_frame)
  have nav: "fuel ?n = fuel d \<or> (has_target d \<and> fuel ?n = fuel d - 1)"
    using navigate_fuel [of "respawn g d" r] respawn_target [of g d] by (auto simp: fuel_frame)
  have pumped: "fuel ?p = fuel ?n \<or> (is_refueling ?p \<and> fuel ?p = fuel ?n + 2)"
    using pump_fuel [of "run_empty ?n"] by (simp add: fuel_frame)
  have st: "has_target d \<Longrightarrow> status_of d = Navigating" "is_refueling ?d \<Longrightarrow> status_of ?d = Refueling"
    "status_of ?d = Navigating \<Longrightarrow> status_of d = Navigating"
    using driver_ok_status [OF assms] driver_ok_status [OF ok(1)] ok(2) by auto
  have burn: "fuel ?d < fuel d \<Longrightarrow> has_target d \<and> fuel ?d = fuel d - 1"
    and gain: "fuel d < fuel ?d \<Longrightarrow> is_refueling ?d \<and> fuel ?d \<le> fuel d + 2"
    using nav pumped unfolding end_state by auto
  show ?thesis
    unfolding cab_round_def cab_of_def using phase_status_step [OF assms ph] st burn gain by (auto simp: tick_frame)
qed

section \<open>Every section is a transition of the specification\<close>

lemma section_refines:
  assumes "state_ok s"
  shows "fleet_does c (fleet_of s) (fleet_of (exec c s))"
proof -
  note ok = state_okD [OF assms]
  have len: "length (active_drivers s) = nat (driver_count s)" by (rule length_active_drivers [OF ok(1)])
  show ?thesis
  proof (cases c)
    case (Limit k now)
    have "fleet_of (exec c s) = fleet_of s" by (simp add: Limit fleet_of_def active_drivers_def)
    then show ?thesis by (simp only: Limit fleet_does.limit)
  next
    case (Serve k r)
    from ok(1) show ?thesis
    proof (cases rule: ride_request_cases [where c = k and n = 256 and r = r])
      case fail
      have "\<forall>d \<in> set (active_drivers s). base_distance d < far_away" using ok(3) near_distance by (auto simp: driver_ok_def)
      from ride.none_iff [OF this, of "is_vip_client k"] fail(1) have "\<forall>d \<in> set (active_drivers s). \<not> eligible d" by blast
      then have "\<forall>x \<in> set (cabs (fleet_of s)). \<not> ready x" using ok(3) by (auto simp: fleet_of_def ready_eligible)
      moreover have "exec c s = s" using fail(2) by (simp add: Serve)
      ultimately show ?thesis by (simp only: Serve fleet_does.refuse)
    next
      case (ok i)
      let ?d = "drivers s ! i" and ?r1 = "fst (rand_mod 90 r)" and ?r2 = "fst (rand_mod 180 (snd (rand_mod 90 r)))"
      have i: "i < length (active_drivers s)" using ok(2) len by simp
      have good: "driver_ok ?d" using state_okD(3) [OF assms] i active_drivers_nth [OF i] nth_mem [OF i] by metis
      have e: "exec c s = count_ride (if is_vip_client k then 150 else 100) (update_driver i (dispatch_driver ?r1 ?r2) s)"
        using ok(1,5) by (simp add: Serve ride_state_def)
      have cell: "cabs (fleet_of s) ! i = cab_of ?d" using i by (simp add: fleet_of_def active_drivers_nth)
      have "fleet_of (exec c s) = (fleet_of s)\<lparr>cabs := (cabs (fleet_of s))[i := on_trip (cabs (fleet_of s) ! i)],
          served := served (fleet_of s) + 1, earned := earned (fleet_of s) + (if k \<le> 10 then 150 else 100)\<rparr>"
        unfolding e cell using ok(2) cab_dispatched [OF ok(4)]
        by (simp add: fleet_of_def count_ride_def is_vip_client_def map_update flip: active_drivers_def)
          (simp add: active_drivers_def update_driver_def take_update_swap map_update)
      moreover have "i < length (cabs (fleet_of s))" "ready (cabs (fleet_of s) ! i)"
        using i ready_eligible [OF good] ok(4) unfolding cell by (simp_all add: fleet_of_def)
      ultimately show ?thesis by (simp only: Serve fleet_does.serve)
    qed
  next
    case (Join w)
    have n: "length (cabs (fleet_of s)) = nat (driver_count s)" by (simp add: fleet_of_def len)
    show ?thesis
    proof (cases "driver_count s < int MAX_DRIVERS")
      case True
      let ?i = "nat (driver_count s)"
      have i: "?i < length (drivers s)" using True ok(1,2) by (simp add: wf_state_def)
      have "drivers s ! ?i = drop ?i (drivers s) ! 0" using i by simp
      moreover have "drop ?i (drivers s) ! 0 \<in> set (drop ?i (drivers s))" using i by (intro nth_mem) simp
      ultimately have zero: "drivers s ! ?i = zero_driver" using ok(4) by metis
      have "active_drivers (exec c s) = active_drivers s @ [joined w zero_driver]"
        using True ok(2) i zero
        by (simp add: Join join_driver_def Let_def active_drivers_def update_driver_def nat_add_distrib take_Suc_conv_app_nth joined_def)
      then have "fleet_of (exec c s) = (fleet_of s)\<lparr>cabs := cabs (fleet_of s) @ [\<lparr>cab_status = Available, cab_fuel = 10, cab_rides = 0\<rparr>]\<rparr>"
        using True by (simp add: fleet_of_def Join join_driver_def Let_def)
          (simp add: cab_of_def joined_def zero_driver_def status_of_def)
      moreover have "length (cabs (fleet_of s)) < MAX_DRIVERS" using True ok(2) n by simp
      ultimately show ?thesis by (simp only: Join fleet_does.enlist)
    next
      case False
      then have "length (cabs (fleet_of s)) = MAX_DRIVERS" using n ok(1) by (simp add: wf_state_def)
      moreover have "exec c s = s" using False by (simp add: Join join_driver_def)
      ultimately show ?thesis by (simp only: Join fleet_does.full)
    qed
  next
    case (Round r)
    let ?ds = "fst (tick_list init_map_obstacles (active_drivers s) r)"
    have act: "active_drivers (exec c s) = ?ds"
      unfolding Round exec_round [OF ok(1)] by (subst active_drivers_def) (simp add: len)
    have "list_all2 cab_round (map cab_of (active_drivers s)) (map cab_of ?ds)"
      unfolding list_all2_conv_all_nth
    proof (intro conjI allI impI)
      fix i assume "i < length (map cab_of (active_drivers s))"
      then have i: "i < length (active_drivers s)" by simp
      obtain r' where "?ds ! i = fst (tick_driver init_map_obstacles (active_drivers s ! i) r')" using tick_list_nth [OF i] by blast
      moreover have "driver_ok (active_drivers s ! i)" using ok(3) i by simp
      ultimately show "cab_round (map cab_of (active_drivers s) ! i) (map cab_of ?ds ! i)" using i tick_cab by simp
    qed simp
    then have "list_all2 cab_round (cabs (fleet_of s)) (map cab_of ?ds)" by (simp add: fleet_of_def)
    moreover have "fleet_of (exec c s) = (fleet_of s)\<lparr>cabs := map cab_of ?ds\<rparr>"
      unfolding fleet_of_def act by (simp add: Round exec_round [OF ok(1)] del: exec.simps)
    ultimately show ?thesis by (simp only: Round fleet_does.round)
  qed
qed

lemma run_refines: "state_ok s \<Longrightarrow> fleet_run cs (fleet_of s) (fleet_of (fold exec cs s))"
proof (induction cs arbitrary: s)
  case (Cons c cs)
  from section_refines [OF Cons.prems] Cons.IH [OF fleet.exec_keeps [OF Cons.prems]] show ?case by auto
qed simp

section \<open>The books of the specification\<close>

text \<open>Every ride is on the books of exactly one cab and has been paid 100, or 150 by a VIP.\<close>

definition fleet_books :: "Fleet \<Rightarrow> bool" where
  "fleet_books f \<longleftrightarrow> (\<exists>k. served f = of_nat k \<and> sum_list (map cab_rides (cabs f)) = int k
     \<and> 100 * int k \<le> earned f \<and> earned f \<le> 150 * int k)"

lemma sum_list_set: "i < length xs \<Longrightarrow> sum_list (xs[i := x]) = sum_list xs - xs ! i + (x :: int)"
  by (induction xs arbitrary: i) (auto split: nat.split)

lemma fleet_books_step: "fleet_does c f f' \<Longrightarrow> fleet_books f \<Longrightarrow> fleet_books f'"
proof (induction rule: fleet_does.induct)
  case (serve i f k r)
  then obtain n where n: "served f = of_nat n" "sum_list (map cab_rides (cabs f)) = int n"
    "100 * int n \<le> earned f" "earned f \<le> 150 * int n" by (auto simp: fleet_books_def)
  have "sum_list (map cab_rides ((cabs f)[i := on_trip (cabs f ! i)])) = int n + 1"
    using serve(1) n(2) by (simp add: map_update sum_list_set on_trip_def)
  with n show ?case by (auto simp: fleet_books_def intro!: exI [of _ "Suc n"])
next
  case (round f cs r)
  have "map cab_rides cs = map cab_rides (cabs f)"
    using round(1) by (induction rule: list_all2_induct) (simp_all add: cab_round_def)
  with round(2) show ?case by (simp add: fleet_books_def)
qed (simp_all add: fleet_books_def)

lemma fleet_books_run: "fleet_run cs f f' \<Longrightarrow> fleet_books f \<Longrightarrow> fleet_books f'"
  by (induction cs arbitrary: f) (auto dest: fleet_books_step)

definition fresh_fleet :: "nat \<Rightarrow> Fleet" where
  "fresh_fleet n = \<lparr>cabs = replicate n \<lparr>cab_status = Available, cab_fuel = 10, cab_rides = 0\<rparr>, served = 0, earned = 0\<rparr>"

lemma fresh_books: "fleet_books (fresh_fleet n)"
  by (simp add: fleet_books_def fresh_fleet_def exI [of _ 0] sum_list_replicate)

text \<open>
  the server implements the fleet: whenever the mutex is free, the shared memory stands for the fleet that
  the finished sections lead to in the specification, in the order of their unlocks. A request for a ride
  takes a ready cab, burns a unit of fuel and earns 100, or 150 from a VIP, and is refused only when no cab is
  ready; nothing else starts a trip or earns money.
\<close>

theorem server_implements_fleet:
  assumes "state_ok s" "machine_reach (boot n s f) m" "owner m = None"
  shows "fleet_run (sections (done_sections m)) (fleet_of s) (fleet_of (mem m))"
proof -
  have "mem m = fold exec (sections (done_sections m)) s"
    using mutex_invD(4) [OF mutex_inv_reach [OF assms(2,1)] assms(3)] by (simp add: done_mem_def)
  then show ?thesis using run_refines [OF assms(1)] by simp
qed

theorem server_implements_fleet_witness:
  "\<exists>m. machine_reach (boot 3 demo_state NoFile) m \<and> sections (done_sections m) = [Join 7]
    \<and> fleet_run [Join 7] (fleet_of demo_state) (fleet_of (mem m))"
proof -
  let ?m = "(boot 3 demo_state NoFile)\<lparr>owner := Some 0, procs := (procs (boot 3 demo_state NoFile))[0 := Holding (Join 7) J_room (start_regs (Join 7))]\<rparr>"
  have r: "machine_reach (boot 3 demo_state NoFile) ?m" using one_section [of "Join 7" 3 demo_state NoFile] by simp
  have "\<exists>j \<le> 7938. \<exists>m'. (machine_step ^^ j) ?m m' \<and> owner m' = None \<and> (\<forall>q. q \<noteq> 0 \<longrightarrow> procs m' ! q = procs ?m ! q)
      \<and> sections (done_sections m') = sections (done_sections ?m) @ [case procs ?m ! 0 of Holding c _ _ \<Rightarrow> c]"
    by (rule mutex_frees [OF mutex_inv_reach [OF r demo_state_ok] demo_state_ok]) (simp_all add: boot_def)
  then obtain j m' where m': "(machine_step ^^ j) ?m m'" "owner m' = None" "sections (done_sections m') = [Join 7]"
    by (auto simp: boot_def)
  have "machine_reach (boot 3 demo_state NoFile) m'" by (rule machine_reach_trans [OF machine_reach_power [OF m'(1)] r])
  from this server_implements_fleet [OF demo_state_ok this m'(2)] m'(3) show ?thesis by auto
qed

end
