(* ===== verification/Spec2Isabelle.thy ===== *)
theory Spec2Isabelle
  imports Server_Log Dispatcher_Messages Insecure_Pool Demo_Clients Stress_Server Dump_Dat Map_Race Pricing_Service Fleet_Spec
begin

text \<open>
  A verification of the ride-hailing system (C sources under src/): a server that assigns drivers to ride
  requests over an encrypted TCP protocol, its demonstration variant without security, three clients and
  a tool that prints the saved state. This theory joins the parts and holds the property of the server
  as a whole.

  \<^bold>\<open>The program.\<close> src/server/server_main.c maps a block of shared memory (\<open>SharedState\<close>: 256 drivers, the
  counters and the tables of the rate limiter), fills it with a fresh fleet, opens the listening socket
  and calls the coordinator (coordinator.c), which forks 100 workers and starts the map thread. A worker
  (dispatcher.c) accepts connections one by one and runs \<open>handle_client\<close>: a Diffie-Hellman handshake
  (dh_crypto.c), then one ride request, decrypted with RC4 (net_wrapper.c), checked against its checksum
  (protocol.c), limited to three per client and second (resource_service.c) and served by
  ride_service.c, which finds a driver (dispatch_algorithms.c), sends it to a random destination and
  counts the revenue. The map thread (map_monitor.c) moves the drivers over a 40 x 20 map
  (pathfinding.c), refuels them and draws the map. On SIGINT the coordinator kills the workers and saves
  the state, which dump_dat.c prints.

  \<^bold>\<open>The theories, from the ground up.\<close>
  \<^item> \<open>RH_Prelude\<close>: word types, the ranges of the C integers, \<open>rand\<close>, little-endian numbers and
    decimal text. \<open>Double\<close>: the operations of binary64 on rationals with one
    correct rounding, and their evaluation on literals.
  \<^item> \<open>Net_Wrapper\<close>, \<open>RC4\<close>, \<open>Sockets\<close> (common/net_wrapper.c): \<open>recv_n\<close> and \<open>send_n\<close> against any behaviour
    of \<open>read\<close> and \<open>write\<close>, the cipher, the opening of sockets as sequences of system calls.
    \<open>Protocol\<close> (common/protocol.c, protocol.h), \<open>DH_Crypto\<close> (common/dh_crypto.c), \<open>Log_System\<close>
    (common/log_system.c), \<open>Shared_Data\<close> (shared_data.h).
  \<^item> \<open>Driver_Status\<close> and \<open>Resource_Service\<close> (server/resource_service.c, with the status machine of a driver and the
    invariant \<open>state_ok\<close>), \<open>Dispatch_Algorithms\<close>, \<open>Pricing_Service\<close>, \<open>Ride_Service\<close>, \<open>Pathfinding\<close>: the
    server files of those names. \<open>Map_Monitor\<close> and \<open>Map_Frame\<close>: the simulation and the drawing of
    server/map_monitor.c.
  \<^item> \<open>Coordinator\<close> (server/coordinator.c: save, load, \<open>ipc_init\<close>, the driver join), \<open>Dispatcher\<close>
    (server/dispatcher.c: \<open>handle_client\<close>), \<open>Client_Core\<close> and \<open>Client_Clock\<close> (client/client_core.c).
    \<open>Sessions\<close> runs client and worker against each other on complete streams, \<open>Rendezvous\<close> from empty ones, while the
    network delivers what each side has written so far. \<open>Dispatcher_Messages\<close>: the lines a worker prints and
    logs (dispatcher.c, ride_service.c).
  \<^item> \<open>Worker_Pool\<close> (dispatcher.c: \<open>dispatcher_loop\<close>; coordinator.c: the processes), \<open>Server_Main\<close>
    (server/server_main.c), \<open>Insecure_Dispatcher\<close> (server/insecure_dispatcher.c, insecure_server.c),
    \<open>Demo_Clients\<close> (client/single_client.c, malicious_client.c), \<open>Stress_Client\<close> and \<open>Stress_Thread\<close>
    (client/stress_client.c: all threads, and one by itself), \<open>Dump_Dat\<close> (dump_dat.c). \<open>Insecure_Pool\<close>: the processes
    of the insecure server. \<open>Stress_Server\<close>: the threads of the stress test and the workers of the server as one step
    system, with the receive time-out.
  \<^item> \<open>Critical_Sections\<close>: what the processes do to the shared memory under the mutex, as one datatype with its
    effect \<open>exec\<close>; every run of the server is a sequence of such sections. \<open>Counter_Widths\<close>: no integer
    overflows on the way. \<open>Mutex_Steps\<close>: the sections write by write. \<open>Mutex_Machine\<close> and \<open>Mutex_Properties\<close>: the
    processes over the mutex, killed at any point, in any interleaving of the single writes.
  \<^item> \<open>Fleet_Spec\<close>: what the server promises, as a small machine over a list of cabs, and the proof
    that every section is one of its transitions. \<open>Map_Thread\<close> (map_monitor.c: the loop of the map thread with
    its frames), \<open>Map_Race\<close> (the drawing while others write) and \<open>Shutdown\<close> (the end of a server process and its two threads).
    \<open>Server_Log\<close>: what both servers log and print from start to end (server_main.c, coordinator.c, insecure_server.c), and
    the workers that a start which fails leaves behind.

  \<^bold>\<open>State and operations.\<close> The structs are records with the fields of the code; \<open>lat\<close> and \<open>lon\<close> of a driver are
  \<open>d_lat\<close> and \<open>d_lon\<close>. A function that works on the shared memory takes a \<open>SharedState\<close> and returns the
  new one, and what \<open>rand()\<close>, the clock, a system call or uninitialised memory contributes is an
  argument: \<open>rand\<close> is an infinite stream of draws, a socket is a list of the results of \<open>read\<close> and
  \<open>write\<close>, a struct on the stack has any content. Undefined behaviour is \<open>None\<close> (a signed overflow, a negative index) or
  the outcome \<open>Crashed\<close> (a write to a string literal). A critical section is one step; \<open>sections_implement_steps\<close>
  and \<open>mutex_serializable\<close> show that this is what the code does, write by write and in every interleaving. Between two
  critical sections of a worker the other processes act through a function \<open>env\<close> on the shared state; in
  \<open>Worker_Pool\<close> it is any sequence of the critical sections of the program (\<open>interference\<close>), and the
  processes of the server are an inductive step relation with its reachable states.

  \<^bold>\<open>Interfaces.\<close> The locales and their instances on the model: \<open>shared_invariant\<close> (what every operation of a worker
  keeps, instance \<open>consistent\<close> for \<open>state_ok\<close>) and its extension \<open>pool_invariant\<close> by the map thread (instance
  \<open>fleet\<close>, \<open>trace\<close>, and \<open>books\<close> below), \<open>driver_contract\<close> (one driver keeps its status legal: \<open>dispatched\<close>,
  \<open>tick\<close>), \<open>driver_policy\<close> (how a driver is chosen: \<open>basic\<close>, \<open>smart\<close>, \<open>ride\<close>), \<open>wire_struct\<close> (\<open>hdr\<close>, \<open>hsk\<close>,
  \<open>rrq\<close>, \<open>djn\<close>), \<open>stream_cipher\<close> (\<open>rc4\<close>), \<open>key_agreement\<close> (\<open>dh\<close>), \<open>byte_stream\<close> (what \<open>recv_n\<close> delivers from a socket: \<open>closed\<close> after the peer has hung up,
  \<open>waiting\<close> on an open connection) and \<open>socket_opener\<close> (\<open>server\<close>, \<open>client\<close>).

  \<^bold>\<open>What the lemmas show.\<close> Of the numbers: error bounds of the distance, exactness of small integers, rounding that
  freezes the navigation. Of the protocol: no byte lost, structures and cipher read back, both sides
  agree on the key, a whole session for every cutting of the streams, and that client and worker never wait for each
  other. Of the services: the result of a
  request on every branch, the nearest driver, the exact limit of the rate limiter and its race. Of the
  map: soundness and completeness of the search, the status machine of a driver, the end of refueling.
  Of the security: no ride without a handshake, none for a tampered request, the crash on a blocked one
  that nothing else crashes a worker, and that the messages of a worker tell how each connection ended. Of the processes: the invariant in every reachable state,
  that dead workers are not replaced, that finished sections are serializable and the mutex is released unless
  its holder is killed, that the books of the stress test and of the server agree up to the time-outs, and what a killed
  holder, a failed \<open>fork\<close>, a save without the mutex and an unmapping under the
  running map thread do. Of the server as a whole: it refines the fleet of \<open>Fleet_Spec\<close>.

  \<^bold>\<open>Bounds.\<close> \<open>handle_client\<close> ends because each packet uses up at least the bytes of its header. The
  search has the bound of the code, 3000 steps and 4000 open nodes. A refueling driver needs at most six
  rounds. A critical section ends after at most 7937 accesses, 7938 with the unlock (31 for each of 256 drivers
  and the last test of the loop). Unsigned counters wrap as 64-bit words; the fields of type \<open>int\<close>, \<open>long\<close> and
  \<open>time_t\<close> are integers, and \<open>counters_fit\<close> shows that they stay in the range of their type for 2^31 critical sections.

  \<^bold>\<open>Not modelled.\<close> The messages of the client's handshake and the log line of the stress client's start (the other lines
  of servers, workers, clients, map and dump tool are), the lengths of time-outs (\<open>Stress_Server\<close> lets one strike at any
  point of a session) and the
  order in which the kernel schedules. The text of a frame is that of one moment, while the code reads the memory field by
  field without the mutex (\<open>Map_Race\<close> shows that this overruns no buffer). What \<open>munmap\<close> and \<open>pthread_mutex_destroy\<close> return, the name of the shared memory object and the
  descriptors of the server are left out, and so is \<open>atoi\<close>
  of the arguments; headers that only hold prototypes, the Makefile, the README and the assets.
\<close>

section \<open>The books\<close>

text \<open>Every ride has been paid 100, or 150 by a VIP; \<open>n\<close> is the number of rides before the counter wraps.\<close>

definition books_ok :: "SharedState \<Rightarrow> bool" where
  "books_ok s \<longleftrightarrow> (\<exists>n. total_success_requests s = of_nat n \<and> 100 * int n \<le> total_revenue s \<and> total_revenue s \<le> 150 * int n)"

lemma books_frame:
  "total_success_requests s' = total_success_requests s \<Longrightarrow> total_revenue s' = total_revenue s \<Longrightarrow> books_ok s \<Longrightarrow> books_ok s'"
  by (simp add: books_ok_def)

lemma books_ride:
  assumes "wf_state s" "books_ok s" shows "books_ok (snd (snd (snd (handle_ride_request_logic c n r s))))"
  using assms(1)
proof (cases rule: ride_request_cases [where c = c and n = n and r = r])
  case fail
  then show ?thesis using assms(2) by simp
next
  case (ok i)
  obtain k where k: "total_success_requests s = of_nat k" "100 * int k \<le> total_revenue s" "total_revenue s \<le> 150 * int k"
    using assms(2) by (auto simp: books_ok_def)
  then have "books_ok (ride_state c r s)"
    by (auto simp: books_ok_def ride_state_def count_ride_def intro!: exI [of _ "Suc k"])
  then show ?thesis using ok(5) by simp
qed

lemma books_join: "books_ok s \<Longrightarrow> books_ok (join_driver d s)"
  by (erule books_frame [rotated -1]) (simp_all add: join_driver_def Let_def)

lemma books_tick: "books_ok s \<Longrightarrow> books_ok (snd (map_tick r s))"
  by (erule books_frame [rotated -1]) (simp_all add: map_tick_def split_beta Let_def)

lemma books_limit: "books_ok s \<Longrightarrow> books_ok (snd (check_and_update_rate_limit c now s))"
  by (erule books_frame [rotated -1]) simp_all

interpretation books: pool_invariant "\<lambda>s. state_ok s \<and> books_ok s"
  by unfold_locales
    (auto intro: consistent.limit_keeps consistent.ride_keeps consistent.join_keeps fleet.tick_keeps
      books_limit books_ride books_join books_tick dest: state_okD(1))

section \<open>The whole server\<close>

lemma server_main_running:
  assumes "server_main (port # n # args) sys r seeded f = Running p" "0 \<le> n"
  shows "state_ok (pool_shared p) \<and> books_ok (pool_shared p) \<and> fleet_of (pool_shared p) = fresh_fleet (nat n)"
proof -
  let ?mode = "case args of [] \<Rightarrow> 1 | m # _ \<Rightarrow> m"
  obtain s r' where i: "server_init n ?mode r = Some (s, r')" "start_coordinator_process (fork_ok sys) r' seeded f s = Some p"
    using assms(1) by (auto simp: server_main_def Let_def split: if_splits option.splits)
  then have "n \<le> 256" by (auto simp: server_init_def MAX_DRIVERS_def split: if_splits)
  from server_init_facts [OF assms(2) this, where r = r and mode = ?mode] i(1)
  have s: "state_ok s" "driver_count s = n" "total_success_requests s = 0" "total_revenue s = 0"
    and d: "\<And>i. i < nat n \<Longrightarrow> cab_of (drivers s ! i) = \<lparr>cab_status = Available, cab_fuel = 10, cab_rides = 0\<rparr>"
    by (auto simp: cab_of_def Let_def)
  have len: "length (active_drivers s) = nat n" using length_active_drivers [OF state_okD(1) [OF s(1)]] s(2) by simp
  have "map cab_of (active_drivers s) = replicate (nat n) \<lparr>cab_status = Available, cab_fuel = 10, cab_rides = 0\<rparr>"
    by (rule nth_equalityI) (simp_all add: len active_drivers_nth d)
  then have "fleet_of s = fresh_fleet (nat n)" using s(3,4) by (simp add: fleet_of_def fresh_fleet_def)
  moreover have "pool_shared p = s" using i(2) by (auto simp: start_coordinator_process_def split: option.splits)
  ultimately show ?thesis using s by (auto simp: books_ok_def intro!: exI [of _ 0])
qed


definition demo_sys :: system where
  "demo_sys = \<lparr>shm_open_ok = True, ftruncate_ok = True, mmap_ok = True,
     sockets = \<lparr>ret_socket = 3, ret_setsockopt = 0, ret_bind = 0, ret_listen = 0, ret_inet_pton = 1, ret_connect = 0\<rparr>,
     fork_ok = replicate 100 True, saved = FullWrite\<rparr>"

lemma demo_server:
  obtains p where "server_main [8080, 2, 1] demo_sys (sconst 7) (sconst 0) NoFile = Running p"
proof -
  obtain s r' where s: "server_init 2 1 (sconst 7) = Some (s, r')"
    using server_init_facts [where n = 2 and r = "sconst 7" and mode = 1] by auto
  have "fork_workers (replicate 100 True) r' = Some (replicate 100 (Some r'))" by (rule fork_all)
  then obtain p where p: "start_coordinator_process (fork_ok demo_sys) r' (sconst 0) NoFile s = Some p"
    by (simp add: demo_sys_def start_coordinator_process_def WORKER_COUNT_def)
  have "server_main [8080, 2, 1] demo_sys (sconst 7) (sconst 0) NoFile = Running p"
    using s p by (simp add: demo_sys_def server_main_def create_server_socket_def Let_def)
  then show thesis by (rule that)
qed


text \<open>
  C3: the server is a fleet of cabs: every run of the server, from the fresh fleet on, is a run of the abstract
  fleet, in which a ride takes a ready cab, burns a unit of fuel and earns 100 or 150, a refused one finds no
  cab ready, and the simulation moves the cabs along their status machine. So the rides the drivers count add
  up to the rides the server has completed, and the revenue is what they earned.
\<close>

theorem server_run_is_fleet:
  assumes "server_main (port # n # args) sys r seeded f = Running p" "0 \<le> n" "pool_reach p p'"
  shows "(\<exists>cs. fleet_run cs (fresh_fleet (nat n)) (fleet_of (pool_shared p')))
    \<and> (\<exists>k. total_success_requests (pool_shared p') = of_nat k
         \<and> sum_list (map rides_count (active_drivers (pool_shared p'))) = int k
         \<and> 100 * int k \<le> total_revenue (pool_shared p') \<and> total_revenue (pool_shared p') \<le> 150 * int k)"
proof -
  note start = server_main_running [OF assms(1,2)]
  obtain cs where "pool_shared p' = fold exec cs (pool_shared p)" by (rule pool_trace [OF assms(3)]) (use start in auto)
  then have run: "fleet_run cs (fresh_fleet (nat n)) (fleet_of (pool_shared p'))"
    using run_refines [of "pool_shared p" cs] start by simp
  have "fleet_books (fleet_of (pool_shared p'))" by (rule fleet_books_run [OF run fresh_books])
  then show ?thesis using run by (auto simp: fleet_books_def fleet_of_def cab_of_def comp_def)
qed

theorem server_run_is_fleet_witness:
  "\<exists>(p :: Pool) cs. fleet_run cs (fresh_fleet 2) (fleet_of (pool_shared p)) \<and> length (workers p) = 100"
proof (rule demo_server)
  fix p
  assume m: "server_main [8080, 2, 1] demo_sys (sconst 7) (sconst 0) NoFile = Running p"
  then obtain s r' where "start_coordinator_process (replicate 100 True) r' (sconst 0) NoFile s = Some p"
    by (auto simp: demo_sys_def server_main_def Let_def split: if_splits option.splits)
  from started [OF this] have "length (workers p) = 100" by (simp add: WORKER_COUNT_def)
  with server_run_is_fleet [OF m _ pool_reach.start] show ?thesis by auto
qed

end
